theory Spec2Isabelle
  imports Main
begin

section \<open>Data model of the consensus agent\<close>

text \<open>
  The theory embeds \<^verbatim>\<open>BaseConsensusAgent.js\<close>. Hashes and addresses are
  opaque identifiers; an InvVector is the pair of its type and hash, and its hashCode is
  the vector itself (identity and hash code depend on both fields).
\<close>

type_synonym Hash = nat
type_synonym Address = nat

datatype InvVectorType = BLOCK | TRANSACTION

datatype InvVector = InvVector (vtype: InvVectorType) (vhash: Hash)

record Transaction =
  tx_hash :: Hash
  tx_sender :: Address
  tx_recipient :: Address
  tx_fee :: nat
  tx_serializedSize :: nat

record BlockHeader =
  hdr_hash :: Hash
  hdr_height :: nat

record Block =
  blk_hash :: Hash
  blk_height :: nat
  blk_bodyHash :: Hash

definition blk_header :: "Block \<Rightarrow> BlockHeader" where
  "blk_header b = \<lparr>hdr_hash = blk_hash b, hdr_height = blk_height b\<rparr>"

definition fromBlock :: "Block \<Rightarrow> InvVector" where
  "fromBlock b = InvVector BLOCK (blk_hash b)"

definition fromTransaction :: "Transaction \<Rightarrow> InvVector" where
  "fromTransaction t = InvVector TRANSACTION (tx_hash t)"

text \<open>
  Class FreeTransactionVector (source lines 1543-1576): an InvVector with the serialized
  size of its transaction; \<^verbatim>\<open>hashCode()\<close> returns the hash code of the wrapped vector.
\<close>

record FreeTransactionVector =
  ftv_inv :: InvVector
  ftv_serializedSize :: nat

definition ftv_hashCode :: "FreeTransactionVector \<Rightarrow> InvVector" where
  "ftv_hashCode f = ftv_inv f"

definition inv_hashCode :: "InvVector \<Rightarrow> InvVector" where
  "inv_hashCode v = v"

text \<open>
  Modelled from the spec: class Subscription is not among the sources. Section 3 of the
  specification gives four kinds: NONE matches nothing, ANY matches all, ADDRESSES matches
  transactions touching a listed address and all blocks, MIN_FEE matches transactions
  with fee per byte at least f and all blocks.
\<close>

datatype Subscription = NONE | ANY | ADDRESSES "Address list" | MIN_FEE nat

fun matchesTransaction :: "Subscription \<Rightarrow> Transaction \<Rightarrow> bool" where
  "matchesTransaction NONE t = False"
| "matchesTransaction ANY t = True"
| "matchesTransaction (ADDRESSES as) t = (tx_sender t \<in> set as \<or> tx_recipient t \<in> set as)"
| "matchesTransaction (MIN_FEE f) t = (f * tx_serializedSize t \<le> tx_fee t)"

fun matchesBlock :: "Subscription \<Rightarrow> Block \<Rightarrow> bool" where
  "matchesBlock NONE b = False"
| "matchesBlock s b = True"

subsection \<open>Containers\<close>

text \<open>
  A HashSet is a duplicate-free list in insertion order, keyed by hashCode.
\<close>

definition hs_contains :: "'a list \<Rightarrow> 'a \<Rightarrow> bool" where
  "hs_contains xs v = (v \<in> set xs)"

definition hs_add :: "'a list \<Rightarrow> 'a \<Rightarrow> 'a list" where
  "hs_add xs v = (if v \<in> set xs then xs else xs @ [v])"

definition hs_addAll :: "'a list \<Rightarrow> 'a list \<Rightarrow> 'a list" where
  "hs_addAll xs vs = foldl hs_add xs vs"

definition hs_remove :: "'a list \<Rightarrow> 'a \<Rightarrow> 'a list" where
  "hs_remove xs v = removeAll v xs"

text \<open>
  Modelled from the spec: class LimitInclusionHashSet is not among the sources. Section 4.1:
  when the size exceeds the capacity, the oldest entries are evicted; re-adding an
  element is a no-op.
\<close>

definition lihs_add :: "nat \<Rightarrow> 'a list \<Rightarrow> 'a \<Rightarrow> 'a list" where
  "lihs_add cap xs v =
     (if v \<in> set xs then xs
      else let ys = xs @ [v] in drop (length ys - cap) ys)"

text \<open>
  Modelled from the spec: class UniqueQueue is not among the sources. Section 4.2: enqueue
  ignores an element already present (by hashCode), enqueueAll keeps the input order of
  first occurrences, dequeueMulti returns up to n elements in FIFO order, remove drops
  the element with the given hashCode. The hashCode is the parameter \<open>key\<close>.
\<close>

definition uq_enqueue :: "('a \<Rightarrow> 'k) \<Rightarrow> 'a list \<Rightarrow> 'a \<Rightarrow> 'a list" where
  "uq_enqueue key q x = (if key x \<in> key ` set q then q else q @ [x])"

definition uq_enqueueAll :: "('a \<Rightarrow> 'k) \<Rightarrow> 'a list \<Rightarrow> 'a list \<Rightarrow> 'a list" where
  "uq_enqueueAll key q xs = foldl (uq_enqueue key) q xs"

definition uq_remove :: "('a \<Rightarrow> 'k) \<Rightarrow> 'a list \<Rightarrow> 'k \<Rightarrow> 'a list" where
  "uq_remove key q k = filter (\<lambda>y. key y \<noteq> k) q"

definition uq_dequeueMulti :: "nat \<Rightarrow> 'a list \<Rightarrow> 'a list \<times> 'a list" where
  "uq_dequeueMulti n q = (take n q, drop n q)"

text \<open>
  Modelled from the spec: class ThrottledQueue is not among the sources. Section 4.3: a
  unique queue with a token counter that starts at maxAtOnce and gains tokensPerInterval
  tokens per interval, capped at maxAtOnce; isAvailable holds iff the backlog is
  non-empty and a token is left; dequeue consumes one token; dequeueMulti n returns
  min n backlog tokens elements. The specification leaves open whether an enqueue on a
  full backlog drops the oldest element or the new one: the field \<open>dropOldest\<close> is that
  choice.
\<close>

record 'a ThrottledQueue =
  backlog :: "'a list"
  tokens :: nat
  maxAtOnce :: nat
  tokensPerInterval :: nat
  maxBacklog :: nat
  dropOldest :: bool

definition tq_new :: "nat \<Rightarrow> nat \<Rightarrow> nat \<Rightarrow> bool \<Rightarrow> 'a ThrottledQueue" where
  "tq_new c r b pol =
     \<lparr>backlog = [], tokens = c, maxAtOnce = c, tokensPerInterval = r, maxBacklog = b,
      dropOldest = pol\<rparr>"

definition tq_enqueue :: "('a \<Rightarrow> 'k) \<Rightarrow> 'a ThrottledQueue \<Rightarrow> 'a \<Rightarrow> 'a ThrottledQueue" where
  "tq_enqueue key q x =
     (if key x \<in> key ` set (backlog q) then q
      else if length (backlog q) < maxBacklog q then q\<lparr>backlog := backlog q @ [x]\<rparr>
      else if dropOldest q then q\<lparr>backlog := tl (backlog q) @ [x]\<rparr>
      else q)"

definition tq_enqueueAll ::
  "('a \<Rightarrow> 'k) \<Rightarrow> 'a ThrottledQueue \<Rightarrow> 'a list \<Rightarrow> 'a ThrottledQueue" where
  "tq_enqueueAll key q xs = foldl (tq_enqueue key) q xs"

definition tq_remove :: "('a \<Rightarrow> 'k) \<Rightarrow> 'a ThrottledQueue \<Rightarrow> 'k \<Rightarrow> 'a ThrottledQueue" where
  "tq_remove key q k = q\<lparr>backlog := uq_remove key (backlog q) k\<rparr>"

definition tq_available :: "'a ThrottledQueue \<Rightarrow> nat" where
  "tq_available q = min (tokens q) (length (backlog q))"

definition tq_isAvailable :: "'a ThrottledQueue \<Rightarrow> bool" where
  "tq_isAvailable q = (backlog q \<noteq> [] \<and> 0 < tokens q)"

definition tq_dequeueMulti :: "nat \<Rightarrow> 'a ThrottledQueue \<Rightarrow> 'a list \<times> 'a ThrottledQueue" where
  "tq_dequeueMulti n q =
     (let m = min n (tq_available q)
      in (take m (backlog q), q\<lparr>backlog := drop m (backlog q), tokens := tokens q - m\<rparr>))"

definition tq_dequeue :: "'a ThrottledQueue \<Rightarrow> 'a option \<times> 'a ThrottledQueue" where
  "tq_dequeue q =
     (case backlog q of
        [] \<Rightarrow> (None, q)
      | x # xs \<Rightarrow> if 0 < tokens q then (Some x, q\<lparr>backlog := xs, tokens := tokens q - 1\<rparr>)
                  else (None, q))"

definition tq_refill :: "'a ThrottledQueue \<Rightarrow> 'a ThrottledQueue" where
  "tq_refill q = q\<lparr>tokens := min (maxAtOnce q) (tokens q + tokensPerInterval q)\<rparr>"

definition tq_stop :: "'a ThrottledQueue \<Rightarrow> 'a ThrottledQueue" where
  "tq_stop q = q\<lparr>backlog := [], tokensPerInterval := 0\<rparr>"

subsection \<open>Constants\<close>

definition REQUEST_THRESHOLD :: nat where "REQUEST_THRESHOLD = 50"
definition REQUEST_THROTTLE :: nat where "REQUEST_THROTTLE = 500"
definition REQUEST_TIMEOUT :: nat where "REQUEST_TIMEOUT = 1000 * 10"
definition REQUEST_TRANSACTIONS_WAITING_MAX :: nat where "REQUEST_TRANSACTIONS_WAITING_MAX = 5000"
definition TRANSACTIONS_AT_ONCE :: nat where "TRANSACTIONS_AT_ONCE = 100"
definition TRANSACTIONS_PER_SECOND :: nat where "TRANSACTIONS_PER_SECOND = 10"
definition FREE_TRANSACTIONS_AT_ONCE :: nat where "FREE_TRANSACTIONS_AT_ONCE = 10"
definition FREE_TRANSACTIONS_PER_SECOND :: nat where "FREE_TRANSACTIONS_PER_SECOND = 1"
definition FREE_TRANSACTION_SIZE_PER_INTERVAL :: nat where
  "FREE_TRANSACTION_SIZE_PER_INTERVAL = 15000"
definition TRANSACTION_RELAY_FEE_MIN :: nat where "TRANSACTION_RELAY_FEE_MIN = 1"
definition SUBSCRIPTION_CHANGE_GRACE_PERIOD :: nat where
  "SUBSCRIPTION_CHANGE_GRACE_PERIOD = 1000 * 3"
definition HEAD_REQUEST_INTERVAL :: nat where "HEAD_REQUEST_INTERVAL = 1000 * 100"
definition KNOWS_OBJECT_AFTER_INV_DELAY :: nat where "KNOWS_OBJECT_AFTER_INV_DELAY = 1000 * 3"
definition KNOWN_OBJECTS_COUNT_MAX :: nat where "KNOWN_OBJECTS_COUNT_MAX = 40000"

subsection \<open>Outputs, timers and the agent's state\<close>

datatype CloseType =
    TRANSACTION_NOT_MATCHING_SUBSCRIPTION
  | INVALID_BLOCK_PROOF
  | INVALID_TRANSACTION_PROOF
  | GET_TRANSACTIONS_PROOF_TIMEOUT
  | GET_TRANSACTION_RECEIPTS_TIMEOUT

datatype Payload =
    BlockObj Block
  | TxObj Transaction
  | TxList "Transaction list"
  | ReceiptList "nat list"

text \<open>
  Everything the agent does to its surroundings is appended to the field \<open>out\<close>: calls
  on the peer channel (\<open>Ch...\<close>), calls of the resolve and reject functions of the
  promises of requestBlock and requestTransaction (\<open>Resolve\<close>, \<open>Reject\<close>, by the number
  of the promise) and of the proof requests (\<open>ProofResolve\<close>, \<open>ProofReject\<close>), calls
  on the inv request manager, the warning logged for an unsolicited object, and calls of
  the subclass hooks. A rejection carries the message of its Error.
\<close>

datatype Effect =
    ChGetHead
  | ChSubscribe Subscription
  | ChInv "InvVector list"
  | ChGetData "InvVector list"
  | ChGetHeader "InvVector list"
  | ChGetBlockProof Hash Hash
  | ChGetBlockProofAt nat Hash
  | ChGetTransactionsProofByAddresses Hash "Address list"
  | ChGetTransactionsProofByHashes Hash "Hash list"
  | ChGetTransactionReceiptsByAddress Address
  | ChGetTransactionReceiptsByHashes "Hash list"
  | ChRawBlock Hash
  | ChHeader Hash
  | ChTx Hash
  | ChNotFound "InvVector list"
  | ChClose CloseType
  | FireTransactionRelayed Hash
  | Resolve nat Payload
  | Reject nat string
  | ProofResolve nat Payload
  | ProofReject nat string
  | AskToRequestVector InvVector
  | NoteVectorReceived InvVector
  | NoteVectorNotReceived InvVector
  | LogUnsolicited InvVector
  | ProcessBlock Hash Block
  | ProcessHeader Hash BlockHeader
  | ProcessTransaction Hash Transaction
  | OnNewBlockAnnounced Hash
  | OnKnownBlockAnnounced Hash
  | OnNewTransactionAnnounced Hash
  | OnKnownTransactionAnnounced Hash
  | OnNoUnknownObjects
  | OnAllObjectsReceived
  | OnAllObjectsProcessed
  | FireClose

text \<open>
  Modelled from the spec: class Timers is not among the sources. Section 2 names it a
  registry of named one-shots with set, reset, clear and clearAll. A one-shot is the
  callback and the delay stored under its key; firing removes the key and runs the
  callback; set and reset store the one-shot under the key. The keys are the strings the
  source builds (\<^verbatim>\<open>'inv'\<close>, \<^verbatim>\<open>'getData'\<close>, \<^verbatim>\<open>`block-request-${hash}`\<close>, ...), one
  constructor per form; the callbacks are the closures the source passes.
\<close>

datatype TimerKey =
    K_inv
  | K_getData
  | K_get_next_head
  | K_block_request Hash
  | K_tx_request Hash
  | K_knows_block Hash
  | K_knows_tx Hash

datatype Callback =
    CbRequestData
  | CbNoMoreData
  | CbRequestHead
  | CbRequestTimeout InvVector
  | CbKnowsObject InvVector

text \<open>
  A handler that awaits a subclass hook stops there; what it does after the hook has
  returned is a continuation, kept in \<open>suspended\<close> until the event loop resumes it.
\<close>

datatype Continuation =
    AfterProcessBlock Block
  | AfterProcessHeader BlockHeader
  | AfterProcessTransaction Transaction

record BlockProofRequest =
  bpr_blockHashToProve :: "Hash option"
  bpr_blockHeightToProve :: "nat option"
  bpr_knownBlock :: Block
  bpr_resolver :: nat

record TransactionsProofRequest =
  tpr_addresses :: "Address list option"
  tpr_hashes :: "Hash list option"
  tpr_block :: Block
  tpr_resolver :: nat

record TransactionReceiptsRequest =
  trr_address :: "Address option"
  trr_hashes :: "Hash list option"
  trr_resolver :: nat

text \<open>
  The messages of the proof responses. Classes BlockChain and TransactionsProof are not
  among the sources: a chain proof is given by what its accessors \<^verbatim>\<open>blocks\<close>,
  \<^verbatim>\<open>head\<close> and \<^verbatim>\<open>tail\<close> return (\<^verbatim>\<open>length\<close> is the number of blocks), a transactions
  proof by its transactions and by what \<^verbatim>\<open>root()\<close> returns (None when it throws). A
  message without proof has \<^verbatim>\<open>hasProof()\<close> false.
\<close>

record ChainProof =
  cp_blocks :: "Block list"
  cp_head :: Block
  cp_tail :: Block

record TransactionsProof =
  tp_transactions :: "Transaction list"
  tp_root :: "Hash option"

record TransactionsProofMessage =
  tpm_blockHash :: Hash
  tpm_proof :: "TransactionsProof option"

record Agent =
  synced :: bool
  knownObjects :: "InvVector list"
  blocksToRequest :: "InvVector list"
  txsToRequest :: "InvVector ThrottledQueue"
  objectsInFlight :: "InvVector list"
  objectsThatFlew :: "InvVector list"
  objectsProcessing :: "InvVector list"
  remoteSubscription :: Subscription
  localSubscription :: Subscription
  lastSubscriptionChange :: "nat option"
  targetSubscription :: Subscription
  timers :: "TimerKey \<rightharpoonup> Callback \<times> nat"
  waitingInvVectors :: "InvVector ThrottledQueue"
  waitingFreeInvVectors :: "FreeTransactionVector ThrottledQueue"
  blockProofRequest :: "BlockProofRequest option"
  transactionsProofRequest :: "TransactionsProofRequest option"
  transactionReceiptsRequest :: "TransactionReceiptsRequest option"
  pendingRequests :: "InvVector \<rightharpoonup> nat list"
  peer_head :: "BlockHeader option"
  peer_headHash :: Hash
  peer_version :: nat
  suspended :: "Continuation list"
  out :: "Effect list"
  VECTORS_MAX_COUNT :: nat
  willRequestHeaders :: bool
  shouldRequestData :: "InvVector \<Rightarrow> bool"

definition emit :: "Effect \<Rightarrow> Agent \<Rightarrow> Agent" where
  "emit e s = s\<lparr>out := out s @ [e]\<rparr>"

definition emitAll :: "Effect list \<Rightarrow> Agent \<Rightarrow> Agent" where
  "emitAll es s = s\<lparr>out := out s @ es\<rparr>"

definition setTimeout :: "TimerKey \<Rightarrow> Callback \<Rightarrow> nat \<Rightarrow> Agent \<Rightarrow> Agent" where
  "setTimeout k cb d s = s\<lparr>timers := (timers s)(k \<mapsto> (cb, d))\<rparr>"

definition resetTimeout :: "TimerKey \<Rightarrow> Callback \<Rightarrow> nat \<Rightarrow> Agent \<Rightarrow> Agent" where
  "resetTimeout k cb d s = s\<lparr>timers := (timers s)(k \<mapsto> (cb, d))\<rparr>"

definition clearTimeout :: "TimerKey \<Rightarrow> Agent \<Rightarrow> Agent" where
  "clearTimeout k s = s\<lparr>timers := (timers s)(k := None)\<rparr>"

definition clearAll :: "Agent \<Rightarrow> Agent" where
  "clearAll s = s\<lparr>timers := Map.empty\<rparr>"

definition suspend :: "Continuation \<Rightarrow> Agent \<Rightarrow> Agent" where
  "suspend k s = s\<lparr>suspended := suspended s @ [k]\<rparr>"

text \<open>
  The constructor (source lines 11-125). The peer's head hash and version, the target
  subscription (ANY when absent), VECTORS_MAX_COUNT of BaseInventoryMessage (not among
  the sources), the subclass hooks \<^verbatim>\<open>_willRequestHeaders\<close> and \<^verbatim>\<open>_shouldRequestData\<close> and
  the backlog policy of the throttled queues are parameters.
\<close>

definition newAgent ::
  "Hash \<Rightarrow> nat \<Rightarrow> Subscription option \<Rightarrow> nat \<Rightarrow> bool \<Rightarrow> (InvVector \<Rightarrow> bool) \<Rightarrow> bool \<Rightarrow> Agent" where
  "newAgent headHash version target maxCount headers should pol =
     \<lparr>synced = False,
      knownObjects = lihs_add KNOWN_OBJECTS_COUNT_MAX [] (InvVector BLOCK headHash),
      blocksToRequest = [],
      txsToRequest = tq_new (TRANSACTIONS_AT_ONCE + FREE_TRANSACTIONS_AT_ONCE)
        (TRANSACTIONS_PER_SECOND + FREE_TRANSACTIONS_PER_SECOND)
        REQUEST_TRANSACTIONS_WAITING_MAX pol,
      objectsInFlight = [],
      objectsThatFlew = [],
      objectsProcessing = [],
      remoteSubscription = NONE,
      localSubscription = NONE,
      lastSubscriptionChange = None,
      targetSubscription = (case target of None \<Rightarrow> ANY | Some t \<Rightarrow> t),
      timers = Map.empty,
      waitingInvVectors = tq_new TRANSACTIONS_AT_ONCE TRANSACTIONS_PER_SECOND
        REQUEST_TRANSACTIONS_WAITING_MAX pol,
      waitingFreeInvVectors = tq_new FREE_TRANSACTIONS_AT_ONCE FREE_TRANSACTIONS_PER_SECOND
        REQUEST_TRANSACTIONS_WAITING_MAX pol,
      blockProofRequest = None,
      transactionsProofRequest = None,
      transactionReceiptsRequest = None,
      pendingRequests = Map.empty,
      peer_head = None,
      peer_headHash = headHash,
      peer_version = version,
      suspended = [],
      out = [ChGetHead],
      VECTORS_MAX_COUNT = maxCount,
      willRequestHeaders = headers,
      shouldRequestData = should\<rparr>"

section \<open>Operations of the agent\<close>

text \<open>
  Each method of the class is a function on the state, named as in the source without
  the leading underscore (\<open>p_\<close> stands for it where the source has the same name with
  and without: \<^verbatim>\<open>_subscribe\<close>, \<^verbatim>\<open>_getBlockProof\<close>, \<^verbatim>\<open>_shutdown\<close>; \<open>pp_onInv\<close> is
  \<^verbatim>\<open>__onInv\<close>).
\<close>

definition requestHead :: "Agent \<Rightarrow> Agent" where
  "requestHead s = emit ChGetHead s"

definition onHeadUpdated :: "Agent \<Rightarrow> Agent" where
  "onHeadUpdated s = resetTimeout K_get_next_head CbRequestHead HEAD_REQUEST_INTERVAL s"

definition onHead :: "Agent \<Rightarrow> BlockHeader \<Rightarrow> Agent" where
  "onHead s header = onHeadUpdated (s\<lparr>peer_head := Some header\<rparr>)"

text \<open>\<^verbatim>\<open>_subscribe\<close> (lines 195-199); \<open>now\<close> is what \<^verbatim>\<open>Date.now()\<close> returns.\<close>

definition p_subscribe :: "Agent \<Rightarrow> Subscription \<Rightarrow> nat \<Rightarrow> Agent" where
  "p_subscribe s subscription now =
     emit (ChSubscribe subscription)
       (s\<lparr>localSubscription := subscription, lastSubscriptionChange := Some now\<rparr>)"

definition subscribe :: "Agent \<Rightarrow> Subscription \<Rightarrow> nat \<Rightarrow> Agent" where
  "subscribe s subscription now =
     p_subscribe (s\<lparr>targetSubscription := subscription\<rparr>) subscription now"

definition subscribeTarget :: "Agent \<Rightarrow> nat \<Rightarrow> Agent" where
  "subscribeTarget s now = p_subscribe s (targetSubscription s) now"

definition onSubscribe :: "Agent \<Rightarrow> Subscription \<Rightarrow> Agent" where
  "onSubscribe s subscription = s\<lparr>remoteSubscription := subscription\<rparr>"

text \<open>relayBlock (lines 205-233).\<close>

definition relayBlock :: "Agent \<Rightarrow> Block \<Rightarrow> bool \<times> Agent" where
  "relayBlock s block =
     (if \<not> synced s then (False, s)
      else if \<not> matchesBlock (remoteSubscription s) block then (False, s)
      else
        let vector = fromBlock block in
        if hs_contains (knownObjects s) vector then (False, s)
        else
          let (vs, q) = tq_dequeueMulti (VECTORS_MAX_COUNT s - 1) (waitingInvVectors s);
              s1 = emit (ChInv (vector # vs)) (s\<lparr>waitingInvVectors := q\<rparr>);
              s2 = setTimeout (K_knows_block (vhash vector)) (CbKnowsObject vector)
                     KNOWS_OBJECT_AFTER_INV_DELAY s1
          in (True, s2))"

text \<open>
  requestBlock and requestTransaction (lines 239-292). The argument \<open>r\<close> stands for
  the pair of resolve and reject functions of the promise the call creates.
\<close>

definition requestBlock :: "Agent \<Rightarrow> Hash \<Rightarrow> nat \<Rightarrow> Agent" where
  "requestBlock s hash r =
     (let vector = InvVector BLOCK hash in
      case pendingRequests s vector of
        Some rs \<Rightarrow> s\<lparr>pendingRequests := (pendingRequests s)(vector \<mapsto> rs @ [r])\<rparr>
      | None \<Rightarrow>
          let s1 = s\<lparr>pendingRequests := (pendingRequests s)(vector \<mapsto> [r])\<rparr>;
              s2 = emit (ChGetData [vector]) s1
          in setTimeout (K_block_request (vhash vector)) (CbRequestTimeout vector)
               REQUEST_TIMEOUT s2)"

definition requestTransaction :: "Agent \<Rightarrow> Hash \<Rightarrow> nat \<Rightarrow> Agent" where
  "requestTransaction s hash r =
     (let vector = InvVector TRANSACTION hash in
      case pendingRequests s vector of
        Some rs \<Rightarrow> s\<lparr>pendingRequests := (pendingRequests s)(vector \<mapsto> rs @ [r])\<rparr>
      | None \<Rightarrow>
          let s1 = s\<lparr>pendingRequests := (pendingRequests s)(vector \<mapsto> [r])\<rparr>;
              s2 = (if \<not> hs_contains (objectsInFlight s1) vector
                    then (emit (ChGetData [vector]) s1)
                           \<lparr>objectsInFlight := hs_add (objectsInFlight s1) vector\<rparr>
                    else s1)
          in setTimeout (K_tx_request (vhash vector)) (CbRequestTimeout vector)
               REQUEST_TIMEOUT s2)"

text \<open>
  The callback of the per-vector timer (lines 249-258 and 280-289, the same for both).
\<close>

definition requestTimeout :: "Agent \<Rightarrow> InvVector \<Rightarrow> Agent" where
  "requestTimeout s vector =
     (case pendingRequests s vector of
        None \<Rightarrow> s
      | Some requests \<Rightarrow>
          emitAll (map (\<lambda>r. Reject r ''Timeout'') requests)
            (s\<lparr>pendingRequests := (pendingRequests s)(vector := None)\<rparr>))"

text \<open>The flush timers (lines 294-315).\<close>

definition sendWaitingInvVectors :: "Agent \<Rightarrow> Agent" where
  "sendWaitingInvVectors s =
     (let (invVectors, q) = tq_dequeueMulti (VECTORS_MAX_COUNT s) (waitingInvVectors s);
          s1 = s\<lparr>waitingInvVectors := q\<rparr>
      in if 0 < length invVectors then emit (ChInv invVectors) s1 else s1)"

function freeLoop ::
  "nat \<Rightarrow> InvVector list \<Rightarrow> nat \<Rightarrow> FreeTransactionVector ThrottledQueue \<Rightarrow>
   InvVector list \<times> FreeTransactionVector ThrottledQueue" where
  "freeLoop maxCount invVectors sz q =
     (if length invVectors < maxCount \<and> tq_isAvailable q
         \<and> sz < FREE_TRANSACTION_SIZE_PER_INTERVAL
      then (case tq_dequeue q of
              (Some freeTransaction, q') \<Rightarrow>
                freeLoop maxCount (invVectors @ [ftv_inv freeTransaction])
                  (sz + ftv_serializedSize freeTransaction) q'
            | (None, q') \<Rightarrow> (invVectors, q'))
      else (invVectors, q))"
  by pat_completeness auto
termination
  by (relation "measure (\<lambda>(m, vs, n, q). length (backlog q))")
     (auto simp: tq_dequeue_def split: list.splits if_splits)

definition sendFreeWaitingInvVectors :: "Agent \<Rightarrow> Agent" where
  "sendFreeWaitingInvVectors s =
     (let (invVectors, q) = freeLoop (VECTORS_MAX_COUNT s) [] 0 (waitingFreeInvVectors s);
          s1 = s\<lparr>waitingFreeInvVectors := q\<rparr>
      in if 0 < length invVectors then emit (ChInv invVectors) s1 else s1)"

text \<open>
  relayTransaction and removeTransaction (lines 321-365). The test
  \<^verbatim>\<open>transaction.fee / serializedSize < TRANSACTION_RELAY_FEE_MIN\<close> divides two numbers of
  JavaScript: for non-negative integers it holds iff the size is positive and the fee
  is below the size times the minimum (a division by zero gives Infinity or NaN, and
  the comparison is false).
\<close>

definition feeBelowMin :: "nat \<Rightarrow> nat \<Rightarrow> bool" where
  "feeBelowMin fee sz = (0 < sz \<and> fee < TRANSACTION_RELAY_FEE_MIN * sz)"

definition relayTransaction :: "Agent \<Rightarrow> Transaction \<Rightarrow> bool \<times> Agent" where
  "relayTransaction s transaction =
     (if \<not> matchesTransaction (remoteSubscription s) transaction then (False, s)
      else
        let vector = fromTransaction transaction in
        if hs_contains (knownObjects s) vector then (False, s)
        else
          let serializedSize = tx_serializedSize transaction;
              s1 = (if feeBelowMin (tx_fee transaction) serializedSize
                    then s\<lparr>waitingFreeInvVectors :=
                            tq_enqueue ftv_hashCode (waitingFreeInvVectors s)
                              \<lparr>ftv_inv = vector, ftv_serializedSize = serializedSize\<rparr>\<rparr>
                    else s\<lparr>waitingInvVectors :=
                            tq_enqueue inv_hashCode (waitingInvVectors s) vector\<rparr>);
              s2 = setTimeout (K_knows_tx (vhash vector)) (CbKnowsObject vector)
                     KNOWS_OBJECT_AFTER_INV_DELAY s1
          in (True, s2))"

definition removeTransaction :: "Agent \<Rightarrow> Transaction \<Rightarrow> Agent" where
  "removeTransaction s transaction =
     (let vector = fromTransaction transaction;
          s1 = s\<lparr>waitingFreeInvVectors :=
                  tq_remove ftv_hashCode (waitingFreeInvVectors s) (inv_hashCode vector)\<rparr>
      in s1\<lparr>waitingInvVectors :=
              tq_remove inv_hashCode (waitingInvVectors s1) (inv_hashCode vector)\<rparr>)"

definition knowsBlock :: "Agent \<Rightarrow> Hash \<Rightarrow> bool" where
  "knowsBlock s blockHash = hs_contains (knownObjects s) (InvVector BLOCK blockHash)"

definition knowsTransaction :: "Agent \<Rightarrow> Hash \<Rightarrow> bool" where
  "knowsTransaction s txHash = hs_contains (knownObjects s) (InvVector TRANSACTION txHash)"

subsection \<open>Request scheduler\<close>

text \<open>\<^verbatim>\<open>_doRequestData\<close> (lines 638-658).\<close>

definition doRequestData :: "Agent \<Rightarrow> InvVector list \<Rightarrow> Agent" where
  "doRequestData s vectors =
     (if willRequestHeaders s
      then
        let blocks = filter (\<lambda>v. vtype v = BLOCK) vectors;
            transactions = filter (\<lambda>v. vtype v \<noteq> BLOCK) vectors
        in emit (ChGetData transactions) (emit (ChGetHeader blocks) s)
      else emit (ChGetData vectors) s)"

text \<open>
  \<^verbatim>\<open>_requestData\<close> (lines 608-631). \<open>dequeueVectors\<close> is lines 616-621: up to
  VECTORS_MAX_COUNT blocks, and transactions for what is left of that count.
\<close>

definition dequeueVectors :: "Agent \<Rightarrow> InvVector list \<times> Agent" where
  "dequeueVectors s =
     (let vectorsMaxCount = VECTORS_MAX_COUNT s;
          (blocks, bq) = uq_dequeueMulti vectorsMaxCount (blocksToRequest s);
          s1 = s\<lparr>blocksToRequest := bq\<rparr>
      in if length blocks < vectorsMaxCount
         then
           let (txs, tq) = tq_dequeueMulti (vectorsMaxCount - length blocks) (txsToRequest s1)
           in (blocks @ txs, s1\<lparr>txsToRequest := tq\<rparr>)
         else (blocks, s1))"

definition requestData :: "Agent \<Rightarrow> Agent" where
  "requestData s =
     (if objectsInFlight s \<noteq> [] then s
      else if blocksToRequest s = [] \<and> \<not> tq_isAvailable (txsToRequest s) then s
      else
        let (vectors, s2) = dequeueVectors s;
            s3 = s2\<lparr>objectsInFlight := hs_addAll (objectsInFlight s2) vectors\<rparr>;
            s4 = doRequestData s3 vectors
        in setTimeout K_getData CbNoMoreData REQUEST_TIMEOUT s4)"

text \<open>\<^verbatim>\<open>_noMoreData\<close> (lines 886-904).\<close>

definition noMoreData :: "Agent \<Rightarrow> Agent" where
  "noMoreData s =
     (let s1 = clearTimeout K_getData s;
          s2 = emitAll (map NoteVectorNotReceived (objectsInFlight s1)) s1;
          s3 = s2\<lparr>objectsThatFlew := hs_addAll (objectsThatFlew s2) (objectsInFlight s2)\<rparr>;
          s4 = s3\<lparr>objectsInFlight := []\<rparr>
      in if blocksToRequest s4 \<noteq> [] \<or> tq_isAvailable (txsToRequest s4)
         then requestData s4
         else emit OnAllObjectsReceived s4)"

text \<open>\<^verbatim>\<open>_onObjectReceived\<close> (lines 868-880).\<close>

definition onObjectReceived :: "Agent \<Rightarrow> InvVector \<Rightarrow> Agent" where
  "onObjectReceived s vector =
     (if objectsInFlight s = [] then s
      else
        let s1 = s\<lparr>objectsInFlight := hs_remove (objectsInFlight s) vector\<rparr>
        in if objectsInFlight s1 \<noteq> []
           then resetTimeout K_getData CbNoMoreData REQUEST_TIMEOUT s1
           else noMoreData s1)"

text \<open>\<^verbatim>\<open>_onObjectProcessed\<close> (lines 925-932).\<close>

definition onObjectProcessed :: "Agent \<Rightarrow> InvVector \<Rightarrow> Agent" where
  "onObjectProcessed s vector =
     (let s1 = s\<lparr>objectsProcessing := hs_remove (objectsProcessing s) vector\<rparr>
      in if objectsProcessing s1 = [] then emit OnAllObjectsProcessed s1 else s1)"

text \<open>requestVector (lines 510-526).\<close>

definition requestVector :: "Agent \<Rightarrow> InvVector list \<Rightarrow> Agent" where
  "requestVector s vector =
     (let s1 = s\<lparr>blocksToRequest :=
                  uq_enqueueAll inv_hashCode (blocksToRequest s)
                    (filter (\<lambda>v. vtype v = BLOCK) vector)\<rparr>;
          s2 = s1\<lparr>txsToRequest :=
                   tq_enqueueAll inv_hashCode (txsToRequest s1)
                     (filter (\<lambda>v. vtype v = TRANSACTION) vector)\<rparr>;
          s3 = clearTimeout K_inv s2
      in if REQUEST_THRESHOLD \<le> length (blocksToRequest s3) + tq_available (txsToRequest s3)
         then requestData s3
         else setTimeout K_inv CbRequestData REQUEST_THROTTLE s3)"

subsection \<open>Inv ingress\<close>

text \<open>
  \<^verbatim>\<open>__onInv\<close> (lines 444-505), which the synchronizer runs one message at a time. The
  first loop is the only part that writes the state; the second reads objectsInFlight
  and objectsProcessing and asks the subclass's store, here the parameter \<open>known\<close>
  (whether \<^verbatim>\<open>_getBlock\<close> or \<^verbatim>\<open>_getTransaction\<close> finds the object).
\<close>

definition onInv_track :: "Agent \<Rightarrow> InvVector \<Rightarrow> Agent" where
  "onInv_track s vector =
     (let s1 = s\<lparr>knownObjects := lihs_add KNOWN_OBJECTS_COUNT_MAX (knownObjects s) vector\<rparr>;
          s2 = s1\<lparr>waitingInvVectors :=
                   tq_remove inv_hashCode (waitingInvVectors s1) (inv_hashCode vector)\<rparr>
      in s2\<lparr>waitingFreeInvVectors :=
              tq_remove ftv_hashCode (waitingFreeInvVectors s2) (inv_hashCode vector)\<rparr>)"

fun onInv_check ::
  "(InvVector \<Rightarrow> bool) \<Rightarrow> Agent \<Rightarrow> InvVector list \<Rightarrow> InvVector list \<Rightarrow> InvVector list \<Rightarrow>
   Agent \<times> InvVector list \<times> InvVector list" where
  "onInv_check known s [] unknownBlocks unknownTxs = (s, unknownBlocks, unknownTxs)"
| "onInv_check known s (vector # vs) unknownBlocks unknownTxs =
     (if hs_contains (objectsInFlight s) vector \<or> hs_contains (objectsProcessing s) vector
      then onInv_check known s vs unknownBlocks unknownTxs
      else if \<not> shouldRequestData s vector
      then onInv_check known s vs unknownBlocks unknownTxs
      else (case vtype vector of
              BLOCK \<Rightarrow>
                if \<not> known vector
                then onInv_check known (emit (OnNewBlockAnnounced (vhash vector)) s) vs
                       (unknownBlocks @ [vector]) unknownTxs
                else onInv_check known (emit (OnKnownBlockAnnounced (vhash vector)) s) vs
                       unknownBlocks unknownTxs
            | TRANSACTION \<Rightarrow>
                if \<not> known vector
                then onInv_check known (emit (OnNewTransactionAnnounced (vhash vector)) s) vs
                       unknownBlocks (unknownTxs @ [vector])
                else onInv_check known (emit (OnKnownTransactionAnnounced (vhash vector)) s) vs
                       unknownBlocks unknownTxs))"

definition pp_onInv :: "(InvVector \<Rightarrow> bool) \<Rightarrow> Agent \<Rightarrow> InvVector list \<Rightarrow> Agent" where
  "pp_onInv known s vectors =
     (let s1 = foldl onInv_track s vectors;
          (s2, unknownBlocks, unknownTxs) = onInv_check known s1 vectors [] []
      in if 0 < length unknownBlocks \<or> 0 < length unknownTxs
         then emitAll (map AskToRequestVector unknownBlocks @ map AskToRequestVector unknownTxs) s2
         else emit OnNoUnknownObjects s2)"

subsection \<open>Response handling\<close>

text \<open>
  \<^verbatim>\<open>_onBlock\<close> (lines 669-720) up to its \<^verbatim>\<open>await this._processBlock\<close>, and the rest of it
  as \<open>onBlock_resume\<close>. Lines 680-688 exchange the transactions of the received block
  for the instances of the same hash that the mempool holds; they do not touch the
  agent's state and are not modelled.
\<close>

definition resolveAll :: "nat list \<Rightarrow> Payload \<Rightarrow> Agent \<Rightarrow> Agent" where
  "resolveAll requests obj s = emitAll (map (\<lambda>r. Resolve r obj) requests) s"

definition trackHead :: "Agent \<Rightarrow> Hash \<Rightarrow> BlockHeader \<Rightarrow> Agent" where
  "trackHead s hash header =
     (if (peer_head s = None \<and> peer_headHash s = hash)
         \<or> (case peer_head s of None \<Rightarrow> False | Some h \<Rightarrow> hdr_height h < hdr_height header)
      then onHeadUpdated (s\<lparr>peer_head := Some header\<rparr>)
      else s)"

definition onBlock :: "Agent \<Rightarrow> Block \<Rightarrow> Agent" where
  "onBlock s block =
     (let hash = blk_hash block;
          vector = InvVector BLOCK hash;
          blockRequest = pendingRequests s vector
      in if blockRequest = None \<and> \<not> hs_contains (objectsInFlight s) vector
            \<and> \<not> hs_contains (objectsThatFlew s) vector
         then emit (LogUnsolicited vector) s
         else (case blockRequest of
                 Some requests \<Rightarrow>
                   let s1 = s\<lparr>pendingRequests := (pendingRequests s)(vector := None)\<rparr>;
                       s2 = clearTimeout (K_block_request (vhash vector)) s1
                   in resolveAll requests (BlockObj block) s2
               | None \<Rightarrow>
                   let s1 = trackHead s hash (blk_header block);
                       s2 = onObjectReceived s1 vector;
                       s3 = s2\<lparr>objectsProcessing := hs_add (objectsProcessing s2) vector\<rparr>
                   in suspend (AfterProcessBlock block) (emit (ProcessBlock hash block) s3)))"

definition onBlock_resume :: "Agent \<Rightarrow> Block \<Rightarrow> Agent" where
  "onBlock_resume s block =
     (let vector = InvVector BLOCK (blk_hash block);
          s1 = onObjectProcessed s vector
      in emit (NoteVectorReceived (fromBlock block)) s1)"

text \<open>\<^verbatim>\<open>_onHeader\<close> (lines 736-761), split at \<^verbatim>\<open>await this._processHeader\<close>.\<close>

definition onHeader :: "Agent \<Rightarrow> BlockHeader \<Rightarrow> Agent" where
  "onHeader s header =
     (let hash = hdr_hash header;
          vector = InvVector BLOCK hash
      in if \<not> hs_contains (objectsInFlight s) vector \<and> \<not> hs_contains (objectsThatFlew s) vector
         then emit (LogUnsolicited vector) s
         else
           let s1 = trackHead s hash header;
               s2 = onObjectReceived s1 vector;
               s3 = s2\<lparr>objectsProcessing := hs_add (objectsProcessing s2) vector\<rparr>
           in suspend (AfterProcessHeader header) (emit (ProcessHeader hash header) s3))"

definition onHeader_resume :: "Agent \<Rightarrow> BlockHeader \<Rightarrow> Agent" where
  "onHeader_resume s header = onObjectProcessed s (InvVector BLOCK (hdr_hash header))"

text \<open>
  \<^verbatim>\<open>_onTx\<close> (lines 777-818). It awaits \<^verbatim>\<open>_processTransaction\<close> only when the local
  subscription matches the transaction; otherwise it runs to its end at once.
  \<open>onTx_resume\<close> is lines 801-817; \<open>now\<close> is what \<^verbatim>\<open>Date.now()\<close> returns at line 812,
  and a \<^verbatim>\<open>null\<close> lastSubscriptionChange counts as 0 in the sum.
\<close>

definition onTx_resume :: "Agent \<Rightarrow> Transaction \<Rightarrow> nat \<Rightarrow> Agent" where
  "onTx_resume s transaction now =
     (let hash = tx_hash transaction;
          vector = InvVector TRANSACTION hash;
          s1 = (case pendingRequests s vector of
                  Some txRequest \<Rightarrow>
                    let s1 = s\<lparr>pendingRequests := (pendingRequests s)(vector := None)\<rparr>;
                        s2 = clearTimeout (K_tx_request (vhash vector)) s1
                    in resolveAll txRequest (TxObj transaction) s2
                | None \<Rightarrow>
                    if \<not> matchesTransaction (localSubscription s) transaction
                       \<and> now < (case lastSubscriptionChange s of None \<Rightarrow> 0 | Some t \<Rightarrow> t)
                               + SUBSCRIPTION_CHANGE_GRACE_PERIOD
                    then emit (ChClose TRANSACTION_NOT_MATCHING_SUBSCRIPTION) s
                    else s)
      in onObjectProcessed s1 vector)"

definition onTx :: "Agent \<Rightarrow> Transaction \<Rightarrow> nat \<Rightarrow> Agent" where
  "onTx s transaction now =
     (let hash = tx_hash transaction;
          vector = InvVector TRANSACTION hash
      in if \<not> hs_contains (objectsInFlight s) vector \<and> \<not> hs_contains (objectsThatFlew s) vector
         then emit (LogUnsolicited vector) s
         else
           let s1 = emit (NoteVectorReceived (fromTransaction transaction)) s;
               s2 = onObjectReceived s1 vector;
               s3 = s2\<lparr>objectsProcessing := hs_add (objectsProcessing s2) vector\<rparr>
           in if matchesTransaction (localSubscription s3) transaction
              then suspend (AfterProcessTransaction transaction)
                     (emit (ProcessTransaction hash transaction) s3)
              else onTx_resume s3 transaction now)"

text \<open>\<^verbatim>\<open>_onNotFound\<close> (lines 834-861): the body of its loop, and the loop.\<close>

definition requestTimerKey :: "InvVector \<Rightarrow> TimerKey" where
  "requestTimerKey vector =
     (case vtype vector of
        BLOCK \<Rightarrow> K_block_request (vhash vector)
      | TRANSACTION \<Rightarrow> K_tx_request (vhash vector))"

definition onNotFound_vector :: "Agent \<Rightarrow> InvVector \<Rightarrow> Agent" where
  "onNotFound_vector s vector =
     (let s1 = (case pendingRequests s vector of
                  Some requests \<Rightarrow>
                    let s1 = s\<lparr>pendingRequests := (pendingRequests s)(vector := None)\<rparr>;
                        s2 = clearTimeout (requestTimerKey vector) s1
                    in emitAll (map (\<lambda>r. Reject r ''Not found'') requests) s2
                | None \<Rightarrow> s)
      in if \<not> hs_contains (objectsInFlight s1) vector then s1
         else onObjectReceived (emit (NoteVectorNotReceived vector) s1) vector)"

definition onNotFound :: "Agent \<Rightarrow> InvVector list \<Rightarrow> Agent" where
  "onNotFound s vectors = foldl onNotFound_vector s vectors"

subsection \<open>Inventory service\<close>

text \<open>
  \<^verbatim>\<open>_onGetData\<close> and \<^verbatim>\<open>_onGetHeader\<close> (lines 946-1030). The parameter \<open>found\<close> says
  whether the subclass's store holds the object.
\<close>

definition markKnown :: "Agent \<Rightarrow> InvVector list \<Rightarrow> Agent" where
  "markKnown s vectors =
     foldl (\<lambda>s v. s\<lparr>knownObjects := lihs_add KNOWN_OBJECTS_COUNT_MAX (knownObjects s) v\<rparr>)
       s vectors"

fun getData_replies :: "(InvVector \<Rightarrow> bool) \<Rightarrow> InvVector list \<Rightarrow> Effect list \<times> InvVector list" where
  "getData_replies found [] = ([], [])"
| "getData_replies found (vector # vs) =
     (let (es, unknownObjects) = getData_replies found vs
      in case vtype vector of
           BLOCK \<Rightarrow>
             if found vector then (ChRawBlock (vhash vector) # es, unknownObjects)
             else (es, vector # unknownObjects)
         | TRANSACTION \<Rightarrow>
             if found vector
             then (ChTx (vhash vector) # FireTransactionRelayed (vhash vector) # es,
                   unknownObjects)
             else (es, vector # unknownObjects))"

definition onGetData :: "(InvVector \<Rightarrow> bool) \<Rightarrow> Agent \<Rightarrow> InvVector list \<Rightarrow> Agent" where
  "onGetData found s vectors =
     (let s1 = markKnown s vectors;
          (es, unknownObjects) = getData_replies found vectors;
          s2 = emitAll es s1
      in if unknownObjects \<noteq> [] then emit (ChNotFound unknownObjects) s2 else s2)"

fun getHeader_replies :: "(InvVector \<Rightarrow> bool) \<Rightarrow> InvVector list \<Rightarrow> Effect list \<times> InvVector list" where
  "getHeader_replies found [] = ([], [])"
| "getHeader_replies found (vector # vs) =
     (let (es, unknownObjects) = getHeader_replies found vs
      in case vtype vector of
           BLOCK \<Rightarrow>
             if found vector then (ChHeader (vhash vector) # es, unknownObjects)
             else (es, vector # unknownObjects)
         | TRANSACTION \<Rightarrow> (es, unknownObjects))"

definition onGetHeader :: "(InvVector \<Rightarrow> bool) \<Rightarrow> Agent \<Rightarrow> InvVector list \<Rightarrow> Agent" where
  "onGetHeader found s vectors =
     (let s1 = markKnown s vectors;
          (es, unknownObjects) = getHeader_replies found vectors;
          s2 = emitAll es s1
      in if unknownObjects \<noteq> [] then emit (ChNotFound unknownObjects) s2 else s2)"

subsection \<open>Proof requests\<close>

text \<open>
  \<^verbatim>\<open>_getBlockProof\<close> and \<^verbatim>\<open>_getBlockProofAt\<close> (lines 1048-1109), the bodies that the
  synchronizer runs one at a time. The result is None where \<^verbatim>\<open>Assert.that\<close> fails.
  The timeout that \<^verbatim>\<open>expectMessage\<close> installs is \<open>blockProofTimeout\<close>; the channel
  drops it when the message arrives.
\<close>

definition p_getBlockProof :: "Agent \<Rightarrow> Hash \<Rightarrow> Block \<Rightarrow> nat \<Rightarrow> Agent option" where
  "p_getBlockProof s blockHashToProve knownBlock r =
     (if blockProofRequest s \<noteq> None then None
      else Some (emit (ChGetBlockProof blockHashToProve (blk_hash knownBlock))
        (s\<lparr>blockProofRequest :=
             Some \<lparr>bpr_blockHashToProve = Some blockHashToProve,
                   bpr_blockHeightToProve = None,
                   bpr_knownBlock = knownBlock, bpr_resolver = r\<rparr>\<rparr>)))"

definition p_getBlockProofAt :: "Agent \<Rightarrow> nat \<Rightarrow> Block \<Rightarrow> nat \<Rightarrow> Agent option" where
  "p_getBlockProofAt s blockHeightToProve knownBlock r =
     (if blockProofRequest s \<noteq> None then None
      else Some (emit (ChGetBlockProofAt blockHeightToProve (blk_hash knownBlock))
        (s\<lparr>blockProofRequest :=
             Some \<lparr>bpr_blockHashToProve = None,
                   bpr_blockHeightToProve = Some blockHeightToProve,
                   bpr_knownBlock = knownBlock, bpr_resolver = r\<rparr>\<rparr>)))"

definition blockProofTimeout :: "Agent \<Rightarrow> Agent" where
  "blockProofTimeout s =
     (case blockProofRequest s of
        None \<Rightarrow> s
      | Some req \<Rightarrow> emit (ProofReject (bpr_resolver req) ''Timeout'') (s\<lparr>blockProofRequest := None\<rparr>))"

text \<open>
  \<^verbatim>\<open>_onBlockProof\<close> (lines 1116-1167). The checks of the proof are the parameters:
  \<open>isInterlinkSuccessorOf\<close>, the proof's own \<open>verify\<close>, and \<open>verify(time)\<close> of a
  block. After it has emptied the slot the handler reads no state, so its awaits do
  not split it.
\<close>

definition onBlockProof ::
  "(Block \<Rightarrow> Block \<Rightarrow> bool) \<Rightarrow> (ChainProof \<Rightarrow> bool) \<Rightarrow> (Block \<Rightarrow> bool) \<Rightarrow>
   Agent \<Rightarrow> ChainProof option \<Rightarrow> Agent" where
  "onBlockProof isInterlinkSuccessorOf proofVerify blockVerify s msg_proof =
     (case blockProofRequest s of
        None \<Rightarrow> s
      | Some req \<Rightarrow>
          let blockHashToProve = bpr_blockHashToProve req;
              blockHeightToProve = bpr_blockHeightToProve req;
              knownBlock = bpr_knownBlock req;
              r = bpr_resolver req;
              s1 = s\<lparr>blockProofRequest := None\<rparr>
          in (case msg_proof of
               None \<Rightarrow> emit (ProofReject r ''Block proof request was rejected'') s1
             | Some proof \<Rightarrow>
                 if length (cp_blocks proof) = 0
                 then emit (ProofReject r ''Block proof request was rejected'') s1
                 else if blockHashToProve \<noteq> Some (blk_hash (cp_tail proof))
                         \<and> blockHeightToProve \<noteq> Some (blk_height (cp_tail proof))
                 then emit (ProofReject r ''Invalid tail block'') s1
                 else if \<not> isInterlinkSuccessorOf knownBlock (cp_head proof)
                 then emit (ProofReject r ''Invalid head block'') s1
                 else if \<not> proofVerify proof
                 then emit (ProofReject r ''Invalid BlockProof'')
                        (emit (ChClose INVALID_BLOCK_PROOF) s1)
                 else if \<not> list_all blockVerify (cp_blocks proof)
                 then emit (ProofReject r ''Invalid BlockProof'')
                        (emit (ChClose INVALID_BLOCK_PROOF) s1)
                 else emit (ProofResolve r (BlockObj (cp_tail proof))) s1))"

text \<open>
  \<^verbatim>\<open>_getTransactionsProofByAddresses\<close> and \<^verbatim>\<open>_getTransactionsProofByHashes\<close>
  (lines 1206-1260), their timeout, and \<^verbatim>\<open>_onTransactionsProof\<close> (lines 1267-1321).
\<close>

definition p_getTransactionsProofByAddresses ::
  "Agent \<Rightarrow> Block \<Rightarrow> Address list \<Rightarrow> nat \<Rightarrow> Agent option" where
  "p_getTransactionsProofByAddresses s block addresses r =
     (if transactionsProofRequest s \<noteq> None then None
      else Some (emit (ChGetTransactionsProofByAddresses (blk_hash block) addresses)
        (s\<lparr>transactionsProofRequest :=
             Some \<lparr>tpr_addresses = Some addresses, tpr_hashes = None,
                   tpr_block = block, tpr_resolver = r\<rparr>\<rparr>)))"

definition p_getTransactionsProofByHashes ::
  "Agent \<Rightarrow> Block \<Rightarrow> Hash list \<Rightarrow> nat \<Rightarrow> Agent option" where
  "p_getTransactionsProofByHashes s block hashes r =
     (if transactionsProofRequest s \<noteq> None then None
      else Some (emit (ChGetTransactionsProofByHashes (blk_hash block) hashes)
        (s\<lparr>transactionsProofRequest :=
             Some \<lparr>tpr_addresses = None, tpr_hashes = Some hashes,
                   tpr_block = block, tpr_resolver = r\<rparr>\<rparr>)))"

definition transactionsProofTimeout :: "Agent \<Rightarrow> Agent" where
  "transactionsProofTimeout s =
     (case transactionsProofRequest s of
        None \<Rightarrow> s
      | Some req \<Rightarrow>
          emit (ProofReject (tpr_resolver req) ''Timeout'')
            (emit (ChClose GET_TRANSACTIONS_PROOF_TIMEOUT)
               (s\<lparr>transactionsProofRequest := None\<rparr>)))"

definition unwanted :: "Address list \<Rightarrow> Hash list \<Rightarrow> Transaction \<Rightarrow> bool" where
  "unwanted addresses hashes tx =
     (\<not> list_ex (\<lambda>address. tx_sender tx = address \<or> tx_recipient tx = address) addresses
      \<and> \<not> list_ex (\<lambda>hash. tx_hash tx = hash) hashes)"

definition onTransactionsProof :: "Agent \<Rightarrow> TransactionsProofMessage \<Rightarrow> Agent" where
  "onTransactionsProof s msg =
     (case transactionsProofRequest s of
        None \<Rightarrow> s
      | Some req \<Rightarrow>
          let addresses = (case tpr_addresses req of None \<Rightarrow> [] | Some a \<Rightarrow> a);
              hashes = (case tpr_hashes req of None \<Rightarrow> [] | Some h \<Rightarrow> h);
              block = tpr_block req;
              r = tpr_resolver req;
              s1 = s\<lparr>transactionsProofRequest := None\<rparr>
          in (case tpm_proof msg of
               None \<Rightarrow> emit (ProofReject r ''TransactionsProof request was rejected'') s1
             | Some proof \<Rightarrow>
                 if blk_hash block \<noteq> tpm_blockHash msg
                 then emit (ProofReject r ''Invalid reference block'') s1
                 else if tp_root proof \<noteq> Some (blk_bodyHash block)
                 then emit (ProofReject r ''Invalid TransactionsProof'')
                        (emit (ChClose INVALID_TRANSACTION_PROOF) s1)
                 else if list_ex (unwanted addresses hashes) (tp_transactions proof)
                 then emit (ProofReject r ''TransactionsProof contains unwanted transactions'')
                        (emit (ChClose INVALID_TRANSACTION_PROOF) s1)
                 else emit (ProofResolve r (TxList (tp_transactions proof))) s1))"

text \<open>
  The transaction receipts requests (lines 1356-1429); a receipt is an opaque number.
\<close>

definition p_getTransactionReceiptsByAddress :: "Agent \<Rightarrow> Address \<Rightarrow> nat \<Rightarrow> Agent option" where
  "p_getTransactionReceiptsByAddress s address r =
     (if transactionReceiptsRequest s \<noteq> None then None
      else Some (emit (ChGetTransactionReceiptsByAddress address)
        (s\<lparr>transactionReceiptsRequest :=
             Some \<lparr>trr_address = Some address, trr_hashes = None, trr_resolver = r\<rparr>\<rparr>)))"

definition p_getTransactionReceiptsByHashes :: "Agent \<Rightarrow> Hash list \<Rightarrow> nat \<Rightarrow> Agent option" where
  "p_getTransactionReceiptsByHashes s hashes r =
     (if transactionReceiptsRequest s \<noteq> None then None
      else Some (emit (ChGetTransactionReceiptsByHashes hashes)
        (s\<lparr>transactionReceiptsRequest :=
             Some \<lparr>trr_address = None, trr_hashes = Some hashes, trr_resolver = r\<rparr>\<rparr>)))"

definition transactionReceiptsTimeout :: "Agent \<Rightarrow> Agent" where
  "transactionReceiptsTimeout s =
     (case transactionReceiptsRequest s of
        None \<Rightarrow> s
      | Some req \<Rightarrow>
          emit (ProofReject (trr_resolver req) ''Timeout'')
            (emit (ChClose GET_TRANSACTION_RECEIPTS_TIMEOUT)
               (s\<lparr>transactionReceiptsRequest := None\<rparr>)))"

definition onTransactionReceipts :: "Agent \<Rightarrow> nat list option \<Rightarrow> Agent" where
  "onTransactionReceipts s msg_receipts =
     (case transactionReceiptsRequest s of
        None \<Rightarrow> s
      | Some req \<Rightarrow>
          let r = trr_resolver req;
              s1 = s\<lparr>transactionReceiptsRequest := None\<rparr>
          in (case msg_receipts of
               None \<Rightarrow> emit (ProofReject r ''TransactionReceipts request was rejected'') s1
             | Some receipts \<Rightarrow> emit (ProofResolve r (ReceiptList receipts)) s1))"

subsection \<open>Shutdown\<close>

text \<open>
  \<^verbatim>\<open>_shutdown\<close>, \<^verbatim>\<open>shutdown\<close> and \<^verbatim>\<open>_onClose\<close> (lines 1435-1459). The synchronizer
  and the listeners are outside the modelled state.
\<close>

definition p_shutdown :: "Agent \<Rightarrow> Agent" where
  "p_shutdown s =
     (let s1 = clearAll s;
          s2 = s1\<lparr>txsToRequest := tq_stop (txsToRequest s1)\<rparr>;
          s3 = s2\<lparr>waitingInvVectors := tq_stop (waitingInvVectors s2)\<rparr>
      in s3\<lparr>waitingFreeInvVectors := tq_stop (waitingFreeInvVectors s3)\<rparr>)"

definition shutdown :: "Agent \<Rightarrow> Agent" where
  "shutdown s = p_shutdown s"

definition onClose :: "Agent \<Rightarrow> Agent" where
  "onClose s = emit FireClose (p_shutdown s)"

subsection \<open>Timers and the event loop\<close>

text \<open>What the closure passed to the timer registry does when it is called.\<close>

definition runCallback :: "Agent \<Rightarrow> Callback \<Rightarrow> Agent" where
  "runCallback s cb =
     (case cb of
        CbRequestData \<Rightarrow> requestData s
      | CbNoMoreData \<Rightarrow> noMoreData s
      | CbRequestHead \<Rightarrow> requestHead s
      | CbRequestTimeout vector \<Rightarrow> requestTimeout s vector
      | CbKnowsObject vector \<Rightarrow>
          s\<lparr>knownObjects := lihs_add KNOWN_OBJECTS_COUNT_MAX (knownObjects s) vector\<rparr>)"

definition fireTimeout :: "Agent \<Rightarrow> TimerKey \<Rightarrow> Agent" where
  "fireTimeout s k =
     (case timers s k of
        None \<Rightarrow> s
      | Some (cb, d) \<Rightarrow> runCallback (s\<lparr>timers := (timers s)(k := None)\<rparr>) cb)"

definition resume :: "Agent \<Rightarrow> Continuation \<Rightarrow> nat \<Rightarrow> Agent" where
  "resume s k now =
     (if k \<notin> set (suspended s) then s
      else
        let s1 = s\<lparr>suspended := remove1 k (suspended s)\<rparr>
        in case k of
             AfterProcessBlock block \<Rightarrow> onBlock_resume s1 block
           | AfterProcessHeader header \<Rightarrow> onHeader_resume s1 header
           | AfterProcessTransaction transaction \<Rightarrow> onTx_resume s1 transaction now)"

text \<open>
  The events that drive an agent: calls of its public methods, messages of the peer
  channel, timers and intervals that fire, hooks that return. A proof request whose
  slot is taken waits in the synchronizer, and the state stays as it is; so it does
  when getBlockProofAt, getTransactionsProofByHashes or getTransactionReceiptsByHashes
  throws because the peer's version is below 2. The methods
  that only read the state or only send (\<^verbatim>\<open>providesServices\<close>, \<^verbatim>\<open>_onGetHead\<close>,
  \<^verbatim>\<open>_onMempool\<close>) are left out.
\<close>

datatype Event =
    EvSubscribe Subscription nat
  | EvSubscribeTarget nat
  | EvOnSubscribe Subscription
  | EvOnHead BlockHeader
  | EvSetSynced bool
  | EvRelayBlock Block
  | EvRelayTransaction Transaction
  | EvRemoveTransaction Transaction
  | EvRequestBlock Hash nat
  | EvRequestTransaction Hash nat
  | EvSendWaitingInvVectors
  | EvSendFreeWaitingInvVectors
  | EvRefillTxsToRequest
  | EvRefillWaitingInvVectors
  | EvRefillWaitingFreeInvVectors
  | EvOnInv "InvVector \<Rightarrow> bool" "InvVector list"
  | EvRequestVector "InvVector list"
  | EvOnBlock Block
  | EvOnHeader BlockHeader
  | EvOnTx Transaction nat
  | EvResume Continuation nat
  | EvOnNotFound "InvVector list"
  | EvOnGetData "InvVector \<Rightarrow> bool" "InvVector list"
  | EvOnGetHeader "InvVector \<Rightarrow> bool" "InvVector list"
  | EvFireTimeout TimerKey
  | EvGetBlockProof Hash Block nat
  | EvGetBlockProofAt nat Block nat
  | EvOnBlockProof "Block \<Rightarrow> Block \<Rightarrow> bool" "ChainProof \<Rightarrow> bool" "Block \<Rightarrow> bool"
      "ChainProof option"
  | EvBlockProofTimeout
  | EvGetTransactionsProofByAddresses Block "Address list" nat
  | EvGetTransactionsProofByHashes Block "Hash list" nat
  | EvOnTransactionsProof TransactionsProofMessage
  | EvTransactionsProofTimeout
  | EvGetTransactionReceiptsByAddress Address nat
  | EvGetTransactionReceiptsByHashes "Hash list" nat
  | EvOnTransactionReceipts "nat list option"
  | EvTransactionReceiptsTimeout
  | EvOnClose
  | EvShutdown

definition orElse :: "Agent option \<Rightarrow> Agent \<Rightarrow> Agent" where
  "orElse r s = (case r of None \<Rightarrow> s | Some s' \<Rightarrow> s')"

primrec step :: "Agent \<Rightarrow> Event \<Rightarrow> Agent" where
  "step s (EvSubscribe sub now) = subscribe s sub now"
| "step s (EvSubscribeTarget now) = subscribeTarget s now"
| "step s (EvOnSubscribe sub) = onSubscribe s sub"
| "step s (EvOnHead header) = onHead s header"
| "step s (EvSetSynced b) = s\<lparr>synced := b\<rparr>"
| "step s (EvRelayBlock block) = snd (relayBlock s block)"
| "step s (EvRelayTransaction tx) = snd (relayTransaction s tx)"
| "step s (EvRemoveTransaction tx) = removeTransaction s tx"
| "step s (EvRequestBlock hash r) = requestBlock s hash r"
| "step s (EvRequestTransaction hash r) = requestTransaction s hash r"
| "step s EvSendWaitingInvVectors = sendWaitingInvVectors s"
| "step s EvSendFreeWaitingInvVectors = sendFreeWaitingInvVectors s"
| "step s EvRefillTxsToRequest = s\<lparr>txsToRequest := tq_refill (txsToRequest s)\<rparr>"
| "step s EvRefillWaitingInvVectors = s\<lparr>waitingInvVectors := tq_refill (waitingInvVectors s)\<rparr>"
| "step s EvRefillWaitingFreeInvVectors =
     s\<lparr>waitingFreeInvVectors := tq_refill (waitingFreeInvVectors s)\<rparr>"
| "step s (EvOnInv known vectors) = pp_onInv known s vectors"
| "step s (EvRequestVector vectors) = requestVector s vectors"
| "step s (EvOnBlock block) = onBlock s block"
| "step s (EvOnHeader header) = onHeader s header"
| "step s (EvOnTx tx now) = onTx s tx now"
| "step s (EvResume k now) = resume s k now"
| "step s (EvOnNotFound vectors) = onNotFound s vectors"
| "step s (EvOnGetData found vectors) = onGetData found s vectors"
| "step s (EvOnGetHeader found vectors) = onGetHeader found s vectors"
| "step s (EvFireTimeout k) = fireTimeout s k"
| "step s (EvGetBlockProof h kb r) = orElse (p_getBlockProof s h kb r) s"
| "step s (EvGetBlockProofAt n kb r) =
     (if peer_version s < 2 then s else orElse (p_getBlockProofAt s n kb r) s)"
| "step s (EvOnBlockProof il pv bv proof) = onBlockProof il pv bv s proof"
| "step s EvBlockProofTimeout = blockProofTimeout s"
| "step s (EvGetTransactionsProofByAddresses b as r) =
     orElse (p_getTransactionsProofByAddresses s b as r) s"
| "step s (EvGetTransactionsProofByHashes b hs r) =
     (if peer_version s < 2 then s else orElse (p_getTransactionsProofByHashes s b hs r) s)"
| "step s (EvOnTransactionsProof msg) = onTransactionsProof s msg"
| "step s EvTransactionsProofTimeout = transactionsProofTimeout s"
| "step s (EvGetTransactionReceiptsByAddress a r) =
     orElse (p_getTransactionReceiptsByAddress s a r) s"
| "step s (EvGetTransactionReceiptsByHashes hs r) =
     (if peer_version s < 2 then s else orElse (p_getTransactionReceiptsByHashes s hs r) s)"
| "step s (EvOnTransactionReceipts rs) = onTransactionReceipts s rs"
| "step s EvTransactionReceiptsTimeout = transactionReceiptsTimeout s"
| "step s EvOnClose = onClose s"
| "step s EvShutdown = shutdown s"

definition run :: "Agent \<Rightarrow> Event list \<Rightarrow> Agent" where
  "run s evs = foldl step s evs"

subsection \<open>Example values\<close>

text \<open>
  A freshly constructed agent for a peer of version 2 with head hash 0, with the default
  target subscription, 1000 vectors per inventory message and the default hooks; and a
  few objects.
\<close>

definition agent0 :: Agent where
  "agent0 = newAgent 0 2 None 1000 False (\<lambda>v. True) True"

definition block7 :: Block where
  "block7 = \<lparr>blk_hash = 7, blk_height = 3, blk_bodyHash = 70\<rparr>"

definition block9 :: Block where
  "block9 = \<lparr>blk_hash = 9, blk_height = 4, blk_bodyHash = 90\<rparr>"

definition tx5 :: Transaction where
  "tx5 = \<lparr>tx_hash = 5, tx_sender = 1, tx_recipient = 2, tx_fee = 0, tx_serializedSize = 100\<rparr>"

definition tx6 :: Transaction where
  "tx6 = \<lparr>tx_hash = 6, tx_sender = 3, tx_recipient = 4, tx_fee = 500, tx_serializedSize = 100\<rparr>"

text \<open>
  The inv request manager asks for the transaction 5, and the collection window of
  REQUEST_THROTTLE ends: the vector is requested in a batch.
\<close>

definition batch5 :: "Event list" where
  "batch5 = [EvRequestVector [InvVector TRANSACTION 5], EvFireTimeout K_inv]"

text \<open>An agent whose peer subscribed to everything and to which the paid transaction 6 was relayed.\<close>

definition relayed6 :: Agent where
  "relayed6 = run agent0 [EvOnSubscribe ANY, EvRelayTransaction tx6]"

subsection \<open>Bookkeeping of the direct requests\<close>

text \<open>
  What the promises of requestBlock and requestTransaction see of a run: the map
  pendingRequests and the calls of their resolve and reject functions, in order. An
  entry of the map is settled with one outcome for each of its resolvers, or a resolver
  is registered under a vector.
\<close>

fun isDelivery :: "Effect \<Rightarrow> bool" where
  "isDelivery (Resolve r p) = True"
| "isDelivery (Reject r m) = True"
| "isDelivery e = False"

fun resolverOf :: "Effect \<Rightarrow> nat option" where
  "resolverOf (Resolve r p) = Some r"
| "resolverOf (Reject r m) = Some r"
| "resolverOf e = None"

datatype Outcome = ResolvedBlock Block | ResolvedTx Transaction | TimedOut | NotFound

fun outcome :: "Outcome \<Rightarrow> nat \<Rightarrow> Effect" where
  "outcome (ResolvedBlock b) r = Resolve r (BlockObj b)"
| "outcome (ResolvedTx t) r = Resolve r (TxObj t)"
| "outcome TimedOut r = Reject r ''Timeout''"
| "outcome NotFound r = Reject r ''Not found''"

type_synonym Requests = "(InvVector \<rightharpoonup> nat list) \<times> Effect list"

definition requests :: "Agent \<Rightarrow> Requests" where
  "requests s = (pendingRequests s, filter isDelivery (out s))"

definition settle :: "Outcome \<Rightarrow> InvVector \<Rightarrow> Requests \<Rightarrow> Requests" where
  "settle k v a =
     (case fst a v of
        None \<Rightarrow> a
      | Some rs \<Rightarrow> ((fst a)(v := None), snd a @ map (outcome k) rs))"

definition register :: "InvVector \<Rightarrow> nat \<Rightarrow> Requests \<Rightarrow> Requests" where
  "register v r a =
     (case fst a v of
        None \<Rightarrow> ((fst a)(v \<mapsto> [r]), snd a)
      | Some rs \<Rightarrow> ((fst a)(v \<mapsto> rs @ [r]), snd a))"

definition waiting :: "(InvVector \<rightharpoonup> nat list) \<Rightarrow> nat set" where
  "waiting P = {r. \<exists>v rs. P v = Some rs \<and> r \<in> set rs}"

definition settledIds :: "Effect list \<Rightarrow> nat list" where
  "settledIds D = map the (map resolverOf D)"

text \<open>
  The resolvers \<open>R\<close> are accounted for: none is settled twice, every settlement is one
  of the four outcomes, no resolver waits twice, none waits and is settled, and each
  of \<open>R\<close> waits or is settled.
\<close>

definition wellSettled :: "nat set \<Rightarrow> Requests \<Rightarrow> bool" where
  "wellSettled R a =
     (distinct (settledIds (snd a))
      \<and> (\<forall>e \<in> set (snd a). \<exists>k r. e = outcome k r)
      \<and> (\<forall>v rs. fst a v = Some rs \<longrightarrow> distinct rs)
      \<and> (\<forall>v w rs rs'. v \<noteq> w \<longrightarrow> fst a v = Some rs \<longrightarrow> fst a w = Some rs' \<longrightarrow>
            set rs \<inter> set rs' = {})
      \<and> waiting (fst a) \<inter> set (settledIds (snd a)) = {}
      \<and> waiting (fst a) \<union> set (settledIds (snd a)) = R)"

text \<open>The resolvers that the events of a run hand to requestBlock and requestTransaction.\<close>

fun registers :: "Event \<Rightarrow> nat list" where
  "registers (EvRequestBlock h r) = [r]"
| "registers (EvRequestTransaction h r) = [r]"
| "registers ev = []"

definition registered :: "Event list \<Rightarrow> nat list" where
  "registered evs = concat (map registers evs)"

text \<open>\<open>settles a a'\<close>: some entries of \<open>a\<close> are settled, one after the other, and that gives \<open>a'\<close>.\<close>

definition settles :: "Requests \<Rightarrow> Requests \<Rightarrow> bool" where
  "settles a a' = (\<exists>ops. a' = foldl (\<lambda>a kv. settle (fst kv) (snd kv) a) a ops)"

text \<open>
  Four direct requests: two for the block 7, which arrives; one for the transaction 5,
  which times out; one for the block 9, which the peer does not have.
\<close>

definition direct_requests :: "Event list" where
  "direct_requests =
     [EvRequestBlock 7 0, EvRequestBlock 7 1, EvRequestTransaction 5 2, EvOnBlock block7,
      EvFireTimeout (K_tx_request 5), EvRequestBlock 9 3, EvOnNotFound [InvVector BLOCK 9]]"

text \<open>The warning that a handler logs when it discards an unsolicited object.\<close>

fun isUnsolicited :: "Effect \<Rightarrow> bool" where
  "isUnsolicited (LogUnsolicited v) = True"
| "isUnsolicited e = False"

text \<open>
  The block 7 is requested in a batch and never arrives: the timer getData fires and
  \<^verbatim>\<open>_noMoreData\<close> moves its vector to objectsThatFlew.
\<close>

definition timed_out7 :: "Event list" where
  "timed_out7 = [EvRequestVector [InvVector BLOCK 7], EvFireTimeout K_inv, EvFireTimeout K_getData]"

text \<open>
  What line 784 of \<^verbatim>\<open>_onTx\<close> asks of a vector before the object is accepted, and the
  hashes of the transactions whose handler waits at \<^verbatim>\<open>await this._processTransaction\<close>.
  A waiting direct request for a transaction is covered when its vector passes the
  test of line 784 or a handler for that hash is suspended.
\<close>

definition solicited :: "Agent \<Rightarrow> InvVector \<Rightarrow> bool" where
  "solicited s vector =
     (hs_contains (objectsInFlight s) vector \<or> hs_contains (objectsThatFlew s) vector)"

definition awaitsTx :: "Agent \<Rightarrow> Hash \<Rightarrow> bool" where
  "awaitsTx s hash =
     (\<exists>transaction. tx_hash transaction = hash
        \<and> AfterProcessTransaction transaction \<in> set (suspended s))"

definition txRequestsCovered :: "Agent \<Rightarrow> bool" where
  "txRequestsCovered s =
     (\<forall>hash. pendingRequests s (InvVector TRANSACTION hash) \<noteq> None \<longrightarrow>
        solicited s (InvVector TRANSACTION hash) \<or> awaitsTx s hash)"

text \<open>
  The events that call \<^verbatim>\<open>_shutdown\<close> (line 1451), which clears every timer; the keys of
  the per-vector timers of requestBlock and requestTransaction; and what holds of these
  timers while the agent is not shut down: a waiting entry has its timer armed with
  REQUEST_TIMEOUT, and such a timer calls the callback of its own vector.
\<close>

fun shutsDown :: "Event \<Rightarrow> bool" where
  "shutsDown EvShutdown = True"
| "shutsDown EvOnClose = True"
| "shutsDown ev = False"

fun isRequestKey :: "TimerKey \<Rightarrow> bool" where
  "isRequestKey (K_block_request h) = True"
| "isRequestKey (K_tx_request h) = True"
| "isRequestKey k = False"

definition timersArmed :: "Agent \<Rightarrow> bool" where
  "timersArmed s =
     (\<forall>vector.
        (pendingRequests s vector \<noteq> None \<longrightarrow>
           timers s (requestTimerKey vector) = Some (CbRequestTimeout vector, REQUEST_TIMEOUT))
        \<and> (\<forall>cb d. timers s (requestTimerKey vector) = Some (cb, d) \<longrightarrow>
              cb = CbRequestTimeout vector))"

text \<open>A direct request for the block 7, and the agent is shut down while it waits.\<close>

definition shut_down_waiting :: "Event list" where
  "shut_down_waiting = [EvRequestBlock 7 0, EvShutdown]"

text \<open>The calls of the subclass hooks that process an object.\<close>

fun isHook :: "Effect \<Rightarrow> bool" where
  "isHook (ProcessBlock h b) = True"
| "isHook (ProcessHeader h hdr) = True"
| "isHook (ProcessTransaction h t) = True"
| "isHook e = False"

text \<open>
  The block 7 has flown and is then requested directly; and the transaction 5 is
  requested in a batch and never arrives, so that its vector is moved to objectsThatFlew
  (the agent has not subscribed, so the transaction does not match).
\<close>

definition flown7_requested :: "Event list" where
  "flown7_requested = timed_out7 @ [EvRequestBlock 7 0]"

definition timed_out5 :: "Event list" where
  "timed_out5 = batch5 @ [EvFireTimeout K_getData]"

section \<open>Properties\<close>

lemma hs_add_set: "set (hs_add xs v) = insert v (set xs)"
  by (auto simp: hs_add_def)

lemmas const_defs = REQUEST_THRESHOLD_def REQUEST_THROTTLE_def REQUEST_TIMEOUT_def
  REQUEST_TRANSACTIONS_WAITING_MAX_def TRANSACTIONS_AT_ONCE_def TRANSACTIONS_PER_SECOND_def
  FREE_TRANSACTIONS_AT_ONCE_def FREE_TRANSACTIONS_PER_SECOND_def
  FREE_TRANSACTION_SIZE_PER_INTERVAL_def TRANSACTION_RELAY_FEE_MIN_def
  SUBSCRIPTION_CHANGE_GRACE_PERIOD_def HEAD_REQUEST_INTERVAL_def
  KNOWS_OBJECT_AFTER_INV_DELAY_def KNOWN_OBJECTS_COUNT_MAX_def

lemmas container_defs = hs_contains_def hs_add_def hs_addAll_def hs_remove_def lihs_add_def
  uq_enqueue_def uq_enqueueAll_def uq_remove_def uq_dequeueMulti_def tq_new_def tq_enqueue_def
  tq_enqueueAll_def tq_remove_def tq_available_def tq_isAvailable_def tq_dequeueMulti_def
  tq_dequeue_def tq_refill_def tq_stop_def inv_hashCode_def ftv_hashCode_def

lemmas basic_defs = emit_def emitAll_def setTimeout_def resetTimeout_def clearTimeout_def
  clearAll_def suspend_def fromBlock_def fromTransaction_def blk_header_def

lemmas example_defs = agent0_def newAgent_def block7_def block9_def tx5_def tx6_def

subsection \<open>Block proof responses\<close>

text \<open>
  Claim C7. While a request of getBlockProof for the hash \<open>h\<close> is pending (the slot holds
  the hash and no height), a block-proof message with a non-empty proof whose tail has
  another hash empties the slot and rejects the promise with 'Invalid tail block', and
  nothing else is sent: the channel is not closed. Whatever the message, the handler
  closes the channel only with INVALID_BLOCK_PROOF, and only when the proof's own verify
  fails or one of its blocks fails verify.
\<close>

theorem C7_onBlockProof_invalid_tail:
  assumes "blockProofRequest s =
             Some \<lparr>bpr_blockHashToProve = Some h, bpr_blockHeightToProve = None,
                   bpr_knownBlock = kb, bpr_resolver = r\<rparr>"
  shows "(cp_blocks proof \<noteq> [] \<and> blk_hash (cp_tail proof) \<noteq> h \<longrightarrow>
            blockProofRequest (onBlockProof il pv bv s (Some proof)) = None \<and>
            out (onBlockProof il pv bv s (Some proof))
              = out s @ [ProofReject r ''Invalid tail block''])
       \<and> (\<exists>es. out (onBlockProof il pv bv s m) = out s @ es \<and>
            (\<forall>c. ChClose c \<in> set es \<longrightarrow>
               c = INVALID_BLOCK_PROOF \<and>
               (\<exists>p. m = Some p \<and> (\<not> pv p \<or> \<not> list_all bv (cp_blocks p)))))"
  using assms by (auto simp: onBlockProof_def emit_def Let_def split: option.splits)

theorem C7_onBlockProof_invalid_tail_witness:
  "p_getBlockProof agent0 7 block9 0 \<noteq> None \<and>
   out (onBlockProof (\<lambda>a b. True) (\<lambda>p. True) (\<lambda>b. True)
          (the (p_getBlockProof agent0 7 block9 0))
          (Some \<lparr>cp_blocks = [block9], cp_head = block9, cp_tail = block9\<rparr>))
     = [ChGetHead, ChGetBlockProof 7 9, ProofReject 0 ''Invalid tail block'']"
  using C7_onBlockProof_invalid_tail [of "the (p_getBlockProof agent0 7 block9 0)" 7 block9 0
      "\<lparr>cp_blocks = [block9], cp_head = block9, cp_tail = block9\<rparr>"
      "\<lambda>a b. True" "\<lambda>p. True" "\<lambda>b. True" None]
  by (simp add: p_getBlockProof_def example_defs emit_def)

subsection \<open>Transactions proof responses\<close>

text \<open>
  Claim C8. With a transactions-proof request pending, a message that carries a proof for
  the requested reference block whose root is the block's body hash empties the slot;
  if some transaction of the proof has neither a requested address as sender or
  recipient nor a requested hash, the channel is closed with INVALID_TRANSACTION_PROOF
  and the promise is rejected; otherwise the promise is resolved with the proof's
  transactions.
\<close>

theorem C8_onTransactionsProof:
  assumes "transactionsProofRequest s = Some req"
      and "tpm_proof msg = Some proof"
      and "blk_hash (tpr_block req) = tpm_blockHash msg"
      and "tp_root proof = Some (blk_bodyHash (tpr_block req))"
      and "addresses = (case tpr_addresses req of None \<Rightarrow> [] | Some a \<Rightarrow> a)"
      and "hashes = (case tpr_hashes req of None \<Rightarrow> [] | Some h \<Rightarrow> h)"
  shows "transactionsProofRequest (onTransactionsProof s msg) = None \<and>
         out (onTransactionsProof s msg) =
           (if \<exists>tx \<in> set (tp_transactions proof).
                  (\<forall>a \<in> set addresses. tx_sender tx \<noteq> a \<and> tx_recipient tx \<noteq> a)
                  \<and> (\<forall>h \<in> set hashes. tx_hash tx \<noteq> h)
            then out s @ [ChClose INVALID_TRANSACTION_PROOF,
                          ProofReject (tpr_resolver req)
                            ''TransactionsProof contains unwanted transactions'']
            else out s @ [ProofResolve (tpr_resolver req) (TxList (tp_transactions proof))])"
proof -
  have u: "list_ex (unwanted addresses hashes) (tp_transactions proof) =
        (\<exists>tx \<in> set (tp_transactions proof).
                  (\<forall>a \<in> set addresses. tx_sender tx \<noteq> a \<and> tx_recipient tx \<noteq> a)
                  \<and> (\<forall>h \<in> set hashes. tx_hash tx \<noteq> h))"
    by (auto simp: unwanted_def list_ex_iff)
  have "transactionsProofRequest (onTransactionsProof s msg) = None \<and>
         out (onTransactionsProof s msg) =
           (if list_ex (unwanted addresses hashes) (tp_transactions proof)
            then out s @ [ChClose INVALID_TRANSACTION_PROOF,
                          ProofReject (tpr_resolver req)
                            ''TransactionsProof contains unwanted transactions'']
            else out s @ [ProofResolve (tpr_resolver req) (TxList (tp_transactions proof))])"
    using assms by (simp add: onTransactionsProof_def emit_def Let_def)
  then show ?thesis
    by (simp only: u)
qed

theorem C8_onTransactionsProof_witness:
  "(let s = the (p_getTransactionsProofByAddresses agent0 block7 [1] 0);
        good = \<lparr>tpm_blockHash = 7, tpm_proof = Some \<lparr>tp_transactions = [tx5], tp_root = Some 70\<rparr>\<rparr>;
        bad = \<lparr>tpm_blockHash = 7, tpm_proof = Some \<lparr>tp_transactions = [tx5, tx6], tp_root = Some 70\<rparr>\<rparr>
    in transactionsProofRequest s \<noteq> None \<and>
       out (onTransactionsProof s good) =
         [ChGetHead, ChGetTransactionsProofByAddresses 7 [1], ProofResolve 0 (TxList [tx5])] \<and>
       out (onTransactionsProof s bad) =
         [ChGetHead, ChGetTransactionsProofByAddresses 7 [1], ChClose INVALID_TRANSACTION_PROOF,
          ProofReject 0 ''TransactionsProof contains unwanted transactions''])"
  using C8_onTransactionsProof [of "the (p_getTransactionsProofByAddresses agent0 block7 [1] 0)"
      "\<lparr>tpr_addresses = Some [1], tpr_hashes = None, tpr_block = block7, tpr_resolver = 0\<rparr>"
      "\<lparr>tpm_blockHash = 7, tpm_proof = Some \<lparr>tp_transactions = [tx5], tp_root = Some 70\<rparr>\<rparr>"
      "\<lparr>tp_transactions = [tx5], tp_root = Some 70\<rparr>" "[1]" "[]"]
    C8_onTransactionsProof [of "the (p_getTransactionsProofByAddresses agent0 block7 [1] 0)"
      "\<lparr>tpr_addresses = Some [1], tpr_hashes = None, tpr_block = block7, tpr_resolver = 0\<rparr>"
      "\<lparr>tpm_blockHash = 7, tpm_proof = Some \<lparr>tp_transactions = [tx5, tx6], tp_root = Some 70\<rparr>\<rparr>"
      "\<lparr>tp_transactions = [tx5, tx6], tp_root = Some 70\<rparr>" "[1]" "[]"]
  by (simp add: p_getTransactionsProofByAddresses_def example_defs emit_def Let_def)

subsection \<open>The per-vector timeout of requestTransaction\<close>

text \<open>
  Claim C10. requestTransaction on a hash with no pending request registers the
  resolver, arms the timer tx-request with REQUEST_TIMEOUT and has the vector in
  objectsInFlight. When that timer fires while the request is still pending, the entry
  is removed and every resolver is rejected with 'Timeout', and objectsInFlight is left
  as it was. While the vector is in objectsInFlight, requestData returns the state
  unchanged: nothing is sent.
\<close>

theorem C10_tx_timeout_keeps_in_flight:
  "(pendingRequests s (InvVector TRANSACTION h) = None \<longrightarrow>
      pendingRequests (requestTransaction s h r) (InvVector TRANSACTION h) = Some [r] \<and>
      timers (requestTransaction s h r) (K_tx_request h)
        = Some (CbRequestTimeout (InvVector TRANSACTION h), REQUEST_TIMEOUT) \<and>
      hs_contains (objectsInFlight (requestTransaction s h r)) (InvVector TRANSACTION h))
   \<and> (pendingRequests t (InvVector TRANSACTION h) = Some rs \<and>
       timers t (K_tx_request h) = Some (CbRequestTimeout (InvVector TRANSACTION h), d) \<longrightarrow>
      pendingRequests (fireTimeout t (K_tx_request h)) (InvVector TRANSACTION h) = None \<and>
      out (fireTimeout t (K_tx_request h)) = out t @ map (\<lambda>r. Reject r ''Timeout'') rs \<and>
      objectsInFlight (fireTimeout t (K_tx_request h)) = objectsInFlight t)
   \<and> (hs_contains (objectsInFlight u) (InvVector TRANSACTION h) \<longrightarrow> requestData u = u)"
  by (auto simp: requestTransaction_def fireTimeout_def runCallback_def requestTimeout_def
      requestData_def hs_contains_def hs_add_def basic_defs Let_def)

theorem C10_tx_timeout_keeps_in_flight_witness:
  "(let s1 = requestTransaction agent0 5 0; s2 = fireTimeout s1 (K_tx_request 5)
    in pendingRequests s1 (InvVector TRANSACTION 5) = Some [0] \<and>
       pendingRequests s2 (InvVector TRANSACTION 5) = None \<and>
       out s2 = [ChGetHead, ChGetData [InvVector TRANSACTION 5], Reject 0 ''Timeout''] \<and>
       objectsInFlight s2 = [InvVector TRANSACTION 5] \<and>
       requestData s2 = s2)"
  using C10_tx_timeout_keeps_in_flight [of agent0 5 0 "requestTransaction agent0 5 0" "[0]" REQUEST_TIMEOUT
           "fireTimeout (requestTransaction agent0 5 0) (K_tx_request 5)"]
  by (simp add: Let_def requestTransaction_def example_defs basic_defs hs_contains_def hs_add_def)

lemmas op_defs = requestHead_def onHeadUpdated_def onHead_def p_subscribe_def subscribe_def
  subscribeTarget_def onSubscribe_def relayBlock_def requestBlock_def requestTransaction_def
  requestTimeout_def sendWaitingInvVectors_def sendFreeWaitingInvVectors_def feeBelowMin_def
  relayTransaction_def removeTransaction_def doRequestData_def dequeueVectors_def requestData_def
  noMoreData_def
  onObjectReceived_def onObjectProcessed_def requestVector_def onInv_track_def pp_onInv_def
  resolveAll_def trackHead_def onBlock_def onBlock_resume_def onHeader_def onHeader_resume_def
  onTx_resume_def onTx_def requestTimerKey_def onNotFound_vector_def onNotFound_def
  runCallback_def fireTimeout_def resume_def run_def

lemmas eval_defs = op_defs example_defs basic_defs container_defs const_defs Let_def

subsection \<open>The grace period after a subscription change\<close>

text \<open>
  Claim C2 says that a solicited transaction that is no direct request and does not
  match the local subscription closes the channel exactly when more than
  SUBSCRIPTION_CHANGE_GRACE_PERIOD has passed since the last subscription change. The
  code does the opposite. The local subscription changes to MIN_FEE 1 at time 1000,
  the transaction 5 (fee 0) is requested in a batch and arrives: at time 2000, within
  the grace period, the channel is closed with TRANSACTION_NOT_MATCHING_SUBSCRIPTION; at
  time 9000, after the grace period, it is not.
\<close>

theorem C2_onTx_closes_within_grace_period:
  "out (run agent0 (EvSubscribe (MIN_FEE 1) 1000 # batch5 @ [EvOnTx tx5 2000]))
     = [ChGetHead, ChSubscribe (MIN_FEE 1), ChGetData [InvVector TRANSACTION 5],
        NoteVectorReceived (InvVector TRANSACTION 5), OnAllObjectsReceived,
        ChClose TRANSACTION_NOT_MATCHING_SUBSCRIPTION, OnAllObjectsProcessed]
   \<and> out (run agent0 (EvSubscribe (MIN_FEE 1) 1000 # batch5 @ [EvOnTx tx5 9000]))
     = [ChGetHead, ChSubscribe (MIN_FEE 1), ChGetData [InvVector TRANSACTION 5],
        NoteVectorReceived (InvVector TRANSACTION 5), OnAllObjectsReceived,
        OnAllObjectsProcessed]"
  by (simp add: batch5_def eval_defs)

subsection \<open>objectsInFlight and objectsProcessing\<close>

text \<open>
  Claim C3 says that no vector is in objectsInFlight and in objectsProcessing at once,
  also when requestTransaction is called while a transaction of the same hash awaits
  \<^verbatim>\<open>_processTransaction\<close>. In the code the local subscription is ANY, the transaction 5
  is requested in a batch and arrives, and while \<^verbatim>\<open>_onTx\<close> awaits the hook,
  requestTransaction of the hash 5 puts the vector back into objectsInFlight: it is in
  both sets.
\<close>

theorem C3_in_flight_and_processing:
  "objectsInFlight
     (run agent0 (EvSubscribe ANY 0 # batch5 @ [EvOnTx tx5 10, EvRequestTransaction 5 0]))
     = [InvVector TRANSACTION 5]
   \<and> objectsProcessing
     (run agent0 (EvSubscribe ANY 0 # batch5 @ [EvOnTx tx5 10, EvRequestTransaction 5 0]))
     = [InvVector TRANSACTION 5]
   \<and> suspended
     (run agent0 (EvSubscribe ANY 0 # batch5 @ [EvOnTx tx5 10, EvRequestTransaction 5 0]))
     = [AfterProcessTransaction tx5]"
  by (simp add: batch5_def eval_defs)

subsection \<open>The getData timer\<close>

text \<open>
  Claim C4 says that the timer getData is armed whenever objectsInFlight is non-empty,
  also after requestTransaction has put a vector there. In the code a batch of
  \<^verbatim>\<open>_requestData\<close> arms the timer with REQUEST_TIMEOUT, but after requestTransaction on a
  fresh agent the vector is in objectsInFlight and no timer getData is armed.
\<close>

theorem C4_requestTransaction_arms_no_getData_timer:
  "objectsInFlight (run agent0 [EvRequestTransaction 5 0]) = [InvVector TRANSACTION 5]
   \<and> timers (run agent0 [EvRequestTransaction 5 0]) K_getData = None
   \<and> timers (run agent0 batch5) K_getData = Some (CbNoMoreData, REQUEST_TIMEOUT)"
  by (simp add: batch5_def eval_defs)

subsection \<open>Relaying and removing a transaction\<close>

lemma filter_other_keys:
  assumes "k \<notin> key ` set q"
  shows "filter (\<lambda>y. key y \<noteq> k) q = q"
proof -
  have "key y \<noteq> k" if "y \<in> set q" for y
  proof
    assume "key y = k"
    then have "k = key y" by (rule sym)
    then have "k \<in> key ` set q" using that by (rule image_eqI)
    with assms show False by (rule notE)
  qed
  then show ?thesis by (simp add: filter_id_conv)
qed

lemma tq_remove_absent: "k \<notin> key ` set (backlog q) \<Longrightarrow> tq_remove key q k = q"
  by (simp add: tq_remove_def uq_remove_def filter_other_keys)

lemma tq_remove_enqueue:
  assumes "key x \<notin> key ` set (backlog q)"
      and "length (backlog q) < maxBacklog q"
  shows "tq_remove key (tq_enqueue key q x) (key x) = q"
  using assms by (simp add: tq_enqueue_def tq_remove_def uq_remove_def filter_other_keys)

text \<open>
  Claim C6 says that relayTransaction followed by removeTransaction leaves both relay
  queues as they were, for every transaction. That fails when the vector is queued
  already: the transaction 6 is waiting in waitingInvVectors; relayTransaction (which
  returns true, or false after the peer has subscribed to nothing) leaves the queue as
  it is, and removeTransaction empties it.
\<close>

theorem C6_relay_remove_counterexample:
  "backlog (waitingInvVectors relayed6) = [InvVector TRANSACTION 6]
   \<and> fst (relayTransaction relayed6 tx6)
   \<and> backlog (waitingInvVectors (removeTransaction (snd (relayTransaction relayed6 tx6)) tx6)) = []
   \<and> \<not> fst (relayTransaction (onSubscribe relayed6 NONE) tx6)
   \<and> backlog (waitingInvVectors
        (removeTransaction (snd (relayTransaction (onSubscribe relayed6 NONE) tx6)) tx6)) = []"
  by (simp add: relayed6_def eval_defs)

text \<open>
  Claim C6, amended. If the vector of the transaction is in neither relay queue and
  both queues are below their backlog bound, relayTransaction followed by
  removeTransaction leaves waitingInvVectors and waitingFreeInvVectors as they were.
  The wrapper FreeTransactionVector has the hash code of its vector, and that is how
  removeTransaction finds it: a free transaction that was relayed is in the free queue
  before removeTransaction.
\<close>

theorem C6_relay_remove_roundtrip:
  assumes "fromTransaction tx \<notin> set (backlog (waitingInvVectors s))"
      and "fromTransaction tx \<notin> ftv_inv ` set (backlog (waitingFreeInvVectors s))"
      and "length (backlog (waitingInvVectors s)) < maxBacklog (waitingInvVectors s)"
      and "length (backlog (waitingFreeInvVectors s)) < maxBacklog (waitingFreeInvVectors s)"
  shows "waitingInvVectors (removeTransaction (snd (relayTransaction s tx)) tx)
           = waitingInvVectors s
       \<and> waitingFreeInvVectors (removeTransaction (snd (relayTransaction s tx)) tx)
           = waitingFreeInvVectors s
       \<and> ftv_hashCode \<lparr>ftv_inv = fromTransaction tx, ftv_serializedSize = tx_serializedSize tx\<rparr>
           = inv_hashCode (fromTransaction tx)
       \<and> (fst (relayTransaction s tx) \<and> feeBelowMin (tx_fee tx) (tx_serializedSize tx) \<longrightarrow>
            \<lparr>ftv_inv = fromTransaction tx, ftv_serializedSize = tx_serializedSize tx\<rparr>
              \<in> set (backlog (waitingFreeInvVectors (snd (relayTransaction s tx)))))"
proof -
  let ?v = "fromTransaction tx"
  let ?f = "\<lparr>ftv_inv = ?v, ftv_serializedSize = tx_serializedSize tx\<rparr>"
  have a1: "inv_hashCode ?v \<notin> inv_hashCode ` set (backlog (waitingInvVectors s))"
    using assms(1) by (simp add: inv_hashCode_def)
  have a2: "ftv_hashCode ?f \<notin> ftv_hashCode ` set (backlog (waitingFreeInvVectors s))"
    using assms(2) by (auto simp: ftv_hashCode_def)
  have k: "inv_hashCode ?v = ftv_hashCode ?f"
    by (simp add: inv_hashCode_def ftv_hashCode_def)
  have r1: "tq_remove inv_hashCode (tq_enqueue inv_hashCode (waitingInvVectors s) ?v) (inv_hashCode ?v)
              = waitingInvVectors s"
    using a1 assms(3) by (rule tq_remove_enqueue)
  have r2: "tq_remove ftv_hashCode (tq_enqueue ftv_hashCode (waitingFreeInvVectors s) ?f) (inv_hashCode ?v)
              = waitingFreeInvVectors s"
    unfolding k using a2 assms(4) by (rule tq_remove_enqueue)
  have n1: "tq_remove inv_hashCode (waitingInvVectors s) (inv_hashCode ?v) = waitingInvVectors s"
    using a1 by (rule tq_remove_absent)
  have n2: "tq_remove ftv_hashCode (waitingFreeInvVectors s) (inv_hashCode ?v) = waitingFreeInvVectors s"
    unfolding k using a2 by (rule tq_remove_absent)
  have e: "?f \<in> set (backlog (tq_enqueue ftv_hashCode (waitingFreeInvVectors s) ?f))"
    using a2 assms(4) by (auto simp: tq_enqueue_def)
  show ?thesis
    using r1 r2 n1 n2 e k
    by (simp add: relayTransaction_def removeTransaction_def setTimeout_def Let_def)
qed

theorem C6_relay_remove_roundtrip_witness:
  "fst (relayTransaction (onSubscribe agent0 ANY) tx5)
   \<and> backlog (waitingFreeInvVectors (snd (relayTransaction (onSubscribe agent0 ANY) tx5)))
       = [\<lparr>ftv_inv = InvVector TRANSACTION 5, ftv_serializedSize = 100\<rparr>]
   \<and> waitingFreeInvVectors
       (removeTransaction (snd (relayTransaction (onSubscribe agent0 ANY) tx5)) tx5)
       = waitingFreeInvVectors (onSubscribe agent0 ANY)
   \<and> waitingInvVectors
       (removeTransaction (snd (relayTransaction (onSubscribe agent0 ANY) tx5)) tx5)
       = waitingInvVectors (onSubscribe agent0 ANY)"
  using C6_relay_remove_roundtrip [of tx5 "onSubscribe agent0 ANY"]
  by (simp add: eval_defs)

subsection \<open>The request scheduler\<close>

lemma uq_enqueueAll_appends:
  "\<exists>new. uq_enqueueAll inv_hashCode q xs = q @ new \<and> set new = set xs - set q \<and> distinct new"
proof (induction xs arbitrary: q)
  case Nil
  show ?case by (simp add: uq_enqueueAll_def)
next
  case (Cons x xs)
  show ?case
  proof (cases "x \<in> set q")
    case True
    from Cons.IH [of q] obtain new where
      n: "uq_enqueueAll inv_hashCode q xs = q @ new" "set new = set xs - set q" "distinct new"
      by blast
    have "uq_enqueueAll inv_hashCode q (x # xs) = q @ new"
      using True n(1) by (simp add: uq_enqueueAll_def uq_enqueue_def inv_hashCode_def)
    moreover have "set new = set (x # xs) - set q"
      using True n(2) by auto
    ultimately show ?thesis using n(3) by blast
  next
    case False
    from Cons.IH [of "q @ [x]"] obtain new where
      n: "uq_enqueueAll inv_hashCode (q @ [x]) xs = (q @ [x]) @ new"
         "set new = set xs - set (q @ [x])" "distinct new"
      by blast
    have "uq_enqueueAll inv_hashCode q (x # xs) = q @ (x # new)"
      using False n(1) by (simp add: uq_enqueueAll_def uq_enqueue_def inv_hashCode_def)
    moreover have "set (x # new) = set (x # xs) - set q"
      using False n(2) by auto
    moreover have "distinct (x # new)"
      using n(2,3) by auto
    ultimately show ?thesis by blast
  qed
qed

lemma tq_enqueueAll_appends:
  "length (backlog q) + length xs \<le> maxBacklog q \<Longrightarrow>
   \<exists>new. tq_enqueueAll inv_hashCode q xs = q\<lparr>backlog := backlog q @ new\<rparr>
      \<and> set new = set xs - set (backlog q) \<and> distinct new"
proof (induction xs arbitrary: q)
  case Nil
  show ?case by (simp add: tq_enqueueAll_def)
next
  case (Cons x xs)
  show ?case
  proof (cases "x \<in> set (backlog q)")
    case True
    from Cons.prems have "length (backlog q) + length xs \<le> maxBacklog q" by simp
    from Cons.IH [OF this] obtain new where
      n: "tq_enqueueAll inv_hashCode q xs = q\<lparr>backlog := backlog q @ new\<rparr>"
         "set new = set xs - set (backlog q)" "distinct new"
      by blast
    have "tq_enqueueAll inv_hashCode q (x # xs) = q\<lparr>backlog := backlog q @ new\<rparr>"
      using True n(1) by (simp add: tq_enqueueAll_def tq_enqueue_def inv_hashCode_def)
    moreover have "set new = set (x # xs) - set (backlog q)"
      using True n(2) by auto
    ultimately show ?thesis using n(3) by blast
  next
    case False
    let ?q = "q\<lparr>backlog := backlog q @ [x]\<rparr>"
    from Cons.prems have "length (backlog ?q) + length xs \<le> maxBacklog ?q" by simp
    from Cons.IH [OF this] obtain new where
      n: "tq_enqueueAll inv_hashCode ?q xs = ?q\<lparr>backlog := backlog ?q @ new\<rparr>"
         "set new = set xs - set (backlog ?q)" "distinct new"
      by blast
    have "tq_enqueue inv_hashCode q x = ?q"
      using False Cons.prems by (simp add: tq_enqueue_def inv_hashCode_def)
    then have "tq_enqueueAll inv_hashCode q (x # xs) = q\<lparr>backlog := backlog q @ (x # new)\<rparr>"
      using n(1) by (simp add: tq_enqueueAll_def)
    moreover have "set (x # new) = set (x # xs) - set (backlog q)"
      using False n(2) by auto
    moreover have "distinct (x # new)"
      using n(2,3) by auto
    ultimately show ?thesis by blast
  qed
qed

lemma hs_addAll_set: "set (hs_addAll xs vs) = set xs \<union> set vs"
  by (induction vs arbitrary: xs) (auto simp: hs_addAll_def hs_add_def)

lemma dequeueVectors_eq:
  assumes "n = VECTORS_MAX_COUNT s"
      and "bs = take n (blocksToRequest s)"
      and "k = min (n - length bs) (tq_available (txsToRequest s))"
  shows "dequeueVectors s =
           (bs @ take k (backlog (txsToRequest s)),
            s\<lparr>blocksToRequest := drop n (blocksToRequest s),
              txsToRequest := (txsToRequest s)\<lparr>backlog := drop k (backlog (txsToRequest s)),
                                              tokens := tokens (txsToRequest s) - k\<rparr>\<rparr>)"
proof (cases "length bs < n")
  case True
  then show ?thesis
    using assms by (simp add: dequeueVectors_def uq_dequeueMulti_def tq_dequeueMulti_def Let_def)
next
  case False
  then have "k = 0" using assms(3) by simp
  then show ?thesis
    using assms False by (simp add: dequeueVectors_def uq_dequeueMulti_def Let_def)
qed

lemma requestData_batch:
  assumes "objectsInFlight t = []"
      and "blocksToRequest t \<noteq> [] \<or> tq_isAvailable (txsToRequest t)"
      and "n = VECTORS_MAX_COUNT t"
      and "bs = take n (blocksToRequest t)"
      and "k = min (n - length bs) (tq_available (txsToRequest t))"
      and "ts = take k (backlog (txsToRequest t))"
  shows "length (bs @ ts) \<le> n
       \<and> blocksToRequest (requestData t) = drop n (blocksToRequest t)
       \<and> txsToRequest (requestData t)
           = (txsToRequest t)\<lparr>backlog := drop k (backlog (txsToRequest t)),
                               tokens := tokens (txsToRequest t) - k\<rparr>
       \<and> set (objectsInFlight (requestData t)) = set (bs @ ts)
       \<and> out (requestData t) = out (doRequestData t (bs @ ts))
       \<and> timers (requestData t) = (timers t)(K_getData \<mapsto> (CbNoMoreData, REQUEST_TIMEOUT))"
proof -
  have guard: "(blocksToRequest t = [] \<and> \<not> tq_isAvailable (txsToRequest t)) = False"
    using assms(2) by blast
  have len: "length (bs @ ts) \<le> n"
  proof -
    have "length bs \<le> n" using assms(4) by simp
    moreover have "length ts \<le> n - length bs" using assms(5,6) by simp
    ultimately show ?thesis by simp
  qed
  note dq = dequeueVectors_eq [OF assms(3,4,5)]
  have rest: "blocksToRequest (requestData t) = drop n (blocksToRequest t)
       \<and> txsToRequest (requestData t)
           = (txsToRequest t)\<lparr>backlog := drop k (backlog (txsToRequest t)),
                               tokens := tokens (txsToRequest t) - k\<rparr>
       \<and> set (objectsInFlight (requestData t)) = set (bs @ ts)
       \<and> out (requestData t) = out (doRequestData t (bs @ ts))
       \<and> timers (requestData t) = (timers t)(K_getData \<mapsto> (CbNoMoreData, REQUEST_TIMEOUT))"
    using assms(1,6)
    by (simp add: requestData_def guard dq doRequestData_def emit_def setTimeout_def
        hs_addAll_set)
  from len rest show ?thesis by simp
qed

lemma requestVector_unfold:
  "requestVector s vs =
     (let B = uq_enqueueAll inv_hashCode (blocksToRequest s) (filter (\<lambda>v. vtype v = BLOCK) vs);
          T = tq_enqueueAll inv_hashCode (txsToRequest s) (filter (\<lambda>v. vtype v = TRANSACTION) vs);
          s' = s\<lparr>blocksToRequest := B, txsToRequest := T\<rparr>
      in if REQUEST_THRESHOLD \<le> length B + tq_available T
         then requestData (s'\<lparr>timers := (timers s)(K_inv := None)\<rparr>)
         else s'\<lparr>timers := (timers s)(K_inv \<mapsto> (CbRequestData, REQUEST_THROTTLE))\<rparr>)"
  by (simp add: requestVector_def Let_def clearTimeout_def setTimeout_def)

text \<open>
  Claim C5 says that \<^verbatim>\<open>_requestData\<close>, when objectsInFlight is empty, dequeues
  vectors, invokes \<^verbatim>\<open>_doRequestData\<close> on them and arms the timer getData. On a fresh
  agent objectsInFlight is empty and so are the queues: \<^verbatim>\<open>_requestData\<close> returns at its
  second guard, sends nothing and arms no timer.
\<close>

theorem C5_requestData_empty_queues_counterexample:
  "objectsInFlight agent0 = []
   \<and> requestData agent0 = agent0
   \<and> out (requestData agent0) = [ChGetHead]
   \<and> timers (requestData agent0) K_getData = None"
  by (simp add: eval_defs)

text \<open>
  Claim C5, amended. requestVector appends the block vectors that are not yet queued to
  blocksToRequest and (within the backlog bound) the transaction vectors to
  txsToRequest, clears the timer inv, and calls requestData at once iff the length of
  blocksToRequest plus what txsToRequest has available is at least REQUEST_THRESHOLD;
  otherwise it arms the timer inv with REQUEST_THROTTLE to call requestData. requestData
  returns the state unchanged when objectsInFlight is non-empty, and also when
  blocksToRequest is empty and txsToRequest has nothing available; otherwise it
  dequeues at most VECTORS_MAX_COUNT vectors, blocks first, puts them all into
  objectsInFlight, sends what doRequestData sends for them, and arms the timer getData
  with REQUEST_TIMEOUT.
\<close>

theorem C5_requestVector_requestData:
  assumes "B = uq_enqueueAll inv_hashCode (blocksToRequest s) (filter (\<lambda>v. vtype v = BLOCK) vs)"
      and "T = tq_enqueueAll inv_hashCode (txsToRequest s)
                 (filter (\<lambda>v. vtype v = TRANSACTION) vs)"
      and "n = VECTORS_MAX_COUNT t"
      and "bs = take n (blocksToRequest t)"
      and "k = min (n - length bs) (tq_available (txsToRequest t))"
      and "ts = take k (backlog (txsToRequest t))"
  shows "requestVector s vs =
           (if REQUEST_THRESHOLD \<le> length B + tq_available T
            then requestData (s\<lparr>blocksToRequest := B, txsToRequest := T,
                                timers := (timers s)(K_inv := None)\<rparr>)
            else s\<lparr>blocksToRequest := B, txsToRequest := T,
                   timers := (timers s)(K_inv \<mapsto> (CbRequestData, REQUEST_THROTTLE))\<rparr>)
       \<and> (\<exists>new. B = blocksToRequest s @ new \<and> distinct new
              \<and> set new = {v \<in> set vs. vtype v = BLOCK} - set (blocksToRequest s))
       \<and> (length (backlog (txsToRequest s)) + length (filter (\<lambda>v. vtype v = TRANSACTION) vs)
              \<le> maxBacklog (txsToRequest s) \<longrightarrow>
            (\<exists>new. T = (txsToRequest s)\<lparr>backlog := backlog (txsToRequest s) @ new\<rparr>
               \<and> distinct new
               \<and> set new = {v \<in> set vs. vtype v = TRANSACTION} - set (backlog (txsToRequest s))))
       \<and> (objectsInFlight t \<noteq> [] \<longrightarrow> requestData t = t)
       \<and> (objectsInFlight t = [] \<and> blocksToRequest t = [] \<and> \<not> tq_isAvailable (txsToRequest t)
            \<longrightarrow> requestData t = t)
       \<and> (objectsInFlight t = [] \<and> (blocksToRequest t \<noteq> [] \<or> tq_isAvailable (txsToRequest t))
            \<longrightarrow> length (bs @ ts) \<le> n
              \<and> blocksToRequest (requestData t) = drop n (blocksToRequest t)
              \<and> txsToRequest (requestData t)
                  = (txsToRequest t)\<lparr>backlog := drop k (backlog (txsToRequest t)),
                                      tokens := tokens (txsToRequest t) - k\<rparr>
              \<and> set (objectsInFlight (requestData t)) = set (bs @ ts)
              \<and> out (requestData t) = out (doRequestData t (bs @ ts))
              \<and> timers (requestData t)
                  = (timers t)(K_getData \<mapsto> (CbNoMoreData, REQUEST_TIMEOUT)))"
proof -
  have p1: "requestVector s vs =
           (if REQUEST_THRESHOLD \<le> length B + tq_available T
            then requestData (s\<lparr>blocksToRequest := B, txsToRequest := T,
                                timers := (timers s)(K_inv := None)\<rparr>)
            else s\<lparr>blocksToRequest := B, txsToRequest := T,
                   timers := (timers s)(K_inv \<mapsto> (CbRequestData, REQUEST_THROTTLE))\<rparr>)"
    unfolding assms(1,2) by (simp add: requestVector_unfold Let_def)
  have p2: "\<exists>new. B = blocksToRequest s @ new \<and> distinct new
              \<and> set new = {v \<in> set vs. vtype v = BLOCK} - set (blocksToRequest s)"
    using uq_enqueueAll_appends [of "blocksToRequest s" "filter (\<lambda>v. vtype v = BLOCK) vs"]
    unfolding assms(1) by auto
  have p3: "\<exists>new. T = (txsToRequest s)\<lparr>backlog := backlog (txsToRequest s) @ new\<rparr>
               \<and> distinct new
               \<and> set new = {v \<in> set vs. vtype v = TRANSACTION} - set (backlog (txsToRequest s))"
    if "length (backlog (txsToRequest s)) + length (filter (\<lambda>v. vtype v = TRANSACTION) vs)
              \<le> maxBacklog (txsToRequest s)"
    using tq_enqueueAll_appends [OF that] unfolding assms(2) by auto
  have p4: "objectsInFlight t \<noteq> [] \<longrightarrow> requestData t = t"
    by (simp add: requestData_def)
  have p5: "objectsInFlight t = [] \<and> blocksToRequest t = [] \<and> \<not> tq_isAvailable (txsToRequest t)
            \<longrightarrow> requestData t = t"
    by (simp add: requestData_def)
  note p6 = requestData_batch [OF _ _ assms(3-6)]
  show ?thesis
    using p1 p2 p3 p4 p5 p6 by blast
qed

theorem C5_requestVector_requestData_witness:
  "requestVector agent0 [InvVector TRANSACTION 5, InvVector BLOCK 1]
     = agent0\<lparr>blocksToRequest := [InvVector BLOCK 1],
              txsToRequest := (txsToRequest agent0)\<lparr>backlog := [InvVector TRANSACTION 5]\<rparr>,
              timers := (timers agent0)(K_inv \<mapsto> (CbRequestData, REQUEST_THROTTLE))\<rparr>
   \<and> objectsInFlight (requestVector agent0 [InvVector TRANSACTION 5, InvVector BLOCK 1]) = []
   \<and> objectsInFlight
        (requestData (requestVector agent0 [InvVector TRANSACTION 5, InvVector BLOCK 1]))
        = [InvVector BLOCK 1, InvVector TRANSACTION 5]
   \<and> out (requestData (requestVector agent0 [InvVector TRANSACTION 5, InvVector BLOCK 1]))
        = [ChGetHead, ChGetData [InvVector BLOCK 1, InvVector TRANSACTION 5]]
   \<and> timers (requestData (requestVector agent0 [InvVector TRANSACTION 5, InvVector BLOCK 1]))
        K_getData = Some (CbNoMoreData, REQUEST_TIMEOUT)"
  using C5_requestVector_requestData [where s = agent0 and vs = "[InvVector TRANSACTION 5, InvVector BLOCK 1]"
      and t = "requestVector agent0 [InvVector TRANSACTION 5, InvVector BLOCK 1]",
      OF refl refl refl refl refl refl]
  by (simp add: eval_defs)

subsection \<open>What each operation leaves alone\<close>

text \<open>
  Most operations leave pendingRequests alone, call no resolver of a direct request and
  take nothing out of objectsThatFlew.
\<close>

lemma requestData_frame:
  "pendingRequests (requestData s) = pendingRequests s"
  "filter isDelivery (out (requestData s)) = filter isDelivery (out s)"
  "objectsThatFlew (requestData s) = objectsThatFlew s"
  "suspended (requestData s) = suspended s"
  by (simp_all add: requestData_def dequeueVectors_eq [OF refl refl refl] doRequestData_def
      Let_def basic_defs)

lemma requestData_timers: "k \<noteq> K_getData \<Longrightarrow> timers (requestData s) k = timers s k"
  by (simp add: requestData_def dequeueVectors_eq [OF refl refl refl] doRequestData_def
      Let_def basic_defs)

lemma noMoreData_frame:
  "pendingRequests (noMoreData s) = pendingRequests s"
  "filter isDelivery (out (noMoreData s)) = filter isDelivery (out s)"
  "objectsThatFlew (noMoreData s) = hs_addAll (objectsThatFlew s) (objectsInFlight s)"
  "suspended (noMoreData s) = suspended s"
  by (simp_all add: noMoreData_def requestData_frame Let_def basic_defs filter_empty_conv)

lemma noMoreData_timers: "k \<noteq> K_getData \<Longrightarrow> timers (noMoreData s) k = timers s k"
  by (simp add: noMoreData_def requestData_timers Let_def basic_defs)

lemma onObjectReceived_frame:
  "pendingRequests (onObjectReceived s v) = pendingRequests s"
  "filter isDelivery (out (onObjectReceived s v)) = filter isDelivery (out s)"
  "set (objectsThatFlew s) \<subseteq> set (objectsThatFlew (onObjectReceived s v))"
  "suspended (onObjectReceived s v) = suspended s"
  by (simp_all add: onObjectReceived_def noMoreData_frame Let_def resetTimeout_def hs_addAll_set)

lemma onObjectReceived_timers: "k \<noteq> K_getData \<Longrightarrow> timers (onObjectReceived s v) k = timers s k"
  by (simp add: onObjectReceived_def noMoreData_timers Let_def basic_defs)

lemma onObjectProcessed_frame:
  "pendingRequests (onObjectProcessed s v) = pendingRequests s"
  "filter isDelivery (out (onObjectProcessed s v)) = filter isDelivery (out s)"
  "objectsThatFlew (onObjectProcessed s v) = objectsThatFlew s"
  "timers (onObjectProcessed s v) = timers s"
  "suspended (onObjectProcessed s v) = suspended s"
  by (simp_all add: onObjectProcessed_def Let_def emit_def)

lemma trackHead_frame:
  "pendingRequests (trackHead s h hdr) = pendingRequests s"
  "out (trackHead s h hdr) = out s"
  "objectsThatFlew (trackHead s h hdr) = objectsThatFlew s"
  "objectsInFlight (trackHead s h hdr) = objectsInFlight s"
  "objectsProcessing (trackHead s h hdr) = objectsProcessing s"
  "suspended (trackHead s h hdr) = suspended s"
  "localSubscription (trackHead s h hdr) = localSubscription s"
  by (simp_all add: trackHead_def onHeadUpdated_def resetTimeout_def)

lemma simple_frames:
  "pendingRequests (subscribe s sub now) = pendingRequests s"
  "filter isDelivery (out (subscribe s sub now)) = filter isDelivery (out s)"
  "objectsThatFlew (subscribe s sub now) = objectsThatFlew s"
  "pendingRequests (subscribeTarget s now) = pendingRequests s"
  "filter isDelivery (out (subscribeTarget s now)) = filter isDelivery (out s)"
  "objectsThatFlew (subscribeTarget s now) = objectsThatFlew s"
  "pendingRequests (onSubscribe s sub) = pendingRequests s"
  "filter isDelivery (out (onSubscribe s sub)) = filter isDelivery (out s)"
  "objectsThatFlew (onSubscribe s sub) = objectsThatFlew s"
  "pendingRequests (onHead s hdr) = pendingRequests s"
  "filter isDelivery (out (onHead s hdr)) = filter isDelivery (out s)"
  "objectsThatFlew (onHead s hdr) = objectsThatFlew s"
  "pendingRequests (removeTransaction s tx) = pendingRequests s"
  "filter isDelivery (out (removeTransaction s tx)) = filter isDelivery (out s)"
  "objectsThatFlew (removeTransaction s tx) = objectsThatFlew s"
  "pendingRequests (requestHead s) = pendingRequests s"
  "filter isDelivery (out (requestHead s)) = filter isDelivery (out s)"
  "objectsThatFlew (requestHead s) = objectsThatFlew s"
  by (simp_all add: subscribe_def subscribeTarget_def p_subscribe_def onSubscribe_def onHead_def
      onHeadUpdated_def removeTransaction_def requestHead_def Let_def basic_defs)

lemma relay_frames:
  "pendingRequests (snd (relayBlock s b)) = pendingRequests s"
  "filter isDelivery (out (snd (relayBlock s b))) = filter isDelivery (out s)"
  "objectsThatFlew (snd (relayBlock s b)) = objectsThatFlew s"
  "pendingRequests (snd (relayTransaction s tx)) = pendingRequests s"
  "filter isDelivery (out (snd (relayTransaction s tx))) = filter isDelivery (out s)"
  "objectsThatFlew (snd (relayTransaction s tx)) = objectsThatFlew s"
  by (simp_all add: relayBlock_def relayTransaction_def Let_def basic_defs split: prod.splits)

lemma send_frames:
  "pendingRequests (sendWaitingInvVectors s) = pendingRequests s"
  "filter isDelivery (out (sendWaitingInvVectors s)) = filter isDelivery (out s)"
  "objectsThatFlew (sendWaitingInvVectors s) = objectsThatFlew s"
  "pendingRequests (sendFreeWaitingInvVectors s) = pendingRequests s"
  "filter isDelivery (out (sendFreeWaitingInvVectors s)) = filter isDelivery (out s)"
  "objectsThatFlew (sendFreeWaitingInvVectors s) = objectsThatFlew s"
  by (simp_all add: sendWaitingInvVectors_def sendFreeWaitingInvVectors_def Let_def basic_defs
      split: prod.splits)

lemma requestVector_frame:
  "pendingRequests (requestVector s vs) = pendingRequests s"
  "filter isDelivery (out (requestVector s vs)) = filter isDelivery (out s)"
  "objectsThatFlew (requestVector s vs) = objectsThatFlew s"
  by (simp_all add: requestVector_def requestData_frame Let_def basic_defs)

lemma onInv_track_frame:
  "pendingRequests (foldl onInv_track s vs) = pendingRequests s"
  "out (foldl onInv_track s vs) = out s"
  "objectsThatFlew (foldl onInv_track s vs) = objectsThatFlew s"
  by (induction vs arbitrary: s; simp add: onInv_track_def Let_def)+

lemma onInv_check_frame:
  "pendingRequests (fst (onInv_check known s vs ub ut)) = pendingRequests s"
  "filter isDelivery (out (fst (onInv_check known s vs ub ut))) = filter isDelivery (out s)"
  "objectsThatFlew (fst (onInv_check known s vs ub ut)) = objectsThatFlew s"
  by (induction known s vs ub ut rule: onInv_check.induct;
      simp add: emit_def hs_contains_def split: InvVectorType.splits)+

lemma pp_onInv_frame:
  "pendingRequests (pp_onInv known s vs) = pendingRequests s"
  "filter isDelivery (out (pp_onInv known s vs)) = filter isDelivery (out s)"
  "objectsThatFlew (pp_onInv known s vs) = objectsThatFlew s"
proof -
  obtain s2 ub ut where c: "onInv_check known (foldl onInv_track s vs) vs [] [] = (s2, ub, ut)"
    by (cases "onInv_check known (foldl onInv_track s vs) vs [] []") auto
  have s2: "s2 = fst (onInv_check known (foldl onInv_track s vs) vs [] [])"
    using c by simp
  have nd: "filter isDelivery (map AskToRequestVector xs) = []" for xs
    by (induction xs) auto
  show "pendingRequests (pp_onInv known s vs) = pendingRequests s"
    by (simp add: pp_onInv_def c Let_def basic_defs) (simp add: s2 onInv_check_frame onInv_track_frame)
  show "filter isDelivery (out (pp_onInv known s vs)) = filter isDelivery (out s)"
    by (simp add: pp_onInv_def c Let_def basic_defs nd)
       (simp add: s2 onInv_check_frame onInv_track_frame)
  show "objectsThatFlew (pp_onInv known s vs) = objectsThatFlew s"
    by (simp add: pp_onInv_def c Let_def basic_defs) (simp add: s2 onInv_check_frame onInv_track_frame)
qed

lemma markKnown_frame:
  "pendingRequests (markKnown s vs) = pendingRequests s"
  "out (markKnown s vs) = out s"
  "objectsThatFlew (markKnown s vs) = objectsThatFlew s"
  by (induction vs arbitrary: s; simp add: markKnown_def)+

lemma getData_replies_no_delivery: "filter isDelivery (fst (getData_replies found vs)) = []"
  by (induction vs) (auto split: prod.splits InvVectorType.splits)

lemma getHeader_replies_no_delivery: "filter isDelivery (fst (getHeader_replies found vs)) = []"
  by (induction vs) (auto split: prod.splits InvVectorType.splits)

lemma onGetData_frame:
  "pendingRequests (onGetData found s vs) = pendingRequests s"
  "filter isDelivery (out (onGetData found s vs)) = filter isDelivery (out s)"
  "objectsThatFlew (onGetData found s vs) = objectsThatFlew s"
  using getData_replies_no_delivery [of found vs]
  by (auto simp: onGetData_def Let_def basic_defs markKnown_frame split: prod.splits)

lemma onGetHeader_frame:
  "pendingRequests (onGetHeader found s vs) = pendingRequests s"
  "filter isDelivery (out (onGetHeader found s vs)) = filter isDelivery (out s)"
  "objectsThatFlew (onGetHeader found s vs) = objectsThatFlew s"
  using getHeader_replies_no_delivery [of found vs]
  by (auto simp: onGetHeader_def Let_def basic_defs markKnown_frame split: prod.splits)

lemma blockProof_frames:
  "pendingRequests (orElse (p_getBlockProof s h kb r) s) = pendingRequests s"
  "filter isDelivery (out (orElse (p_getBlockProof s h kb r) s)) = filter isDelivery (out s)"
  "objectsThatFlew (orElse (p_getBlockProof s h kb r) s) = objectsThatFlew s"
  "pendingRequests (orElse (p_getBlockProofAt s n kb r) s) = pendingRequests s"
  "filter isDelivery (out (orElse (p_getBlockProofAt s n kb r) s)) = filter isDelivery (out s)"
  "objectsThatFlew (orElse (p_getBlockProofAt s n kb r) s) = objectsThatFlew s"
  "pendingRequests (blockProofTimeout s) = pendingRequests s"
  "filter isDelivery (out (blockProofTimeout s)) = filter isDelivery (out s)"
  "objectsThatFlew (blockProofTimeout s) = objectsThatFlew s"
  "pendingRequests (onBlockProof il pv bv s m) = pendingRequests s"
  "filter isDelivery (out (onBlockProof il pv bv s m)) = filter isDelivery (out s)"
  "objectsThatFlew (onBlockProof il pv bv s m) = objectsThatFlew s"
  by (simp_all add: orElse_def p_getBlockProof_def p_getBlockProofAt_def blockProofTimeout_def
      onBlockProof_def Let_def emit_def split: option.splits)

lemma transactionsProof_frames:
  "pendingRequests (orElse (p_getTransactionsProofByAddresses s b as r) s) = pendingRequests s"
  "filter isDelivery (out (orElse (p_getTransactionsProofByAddresses s b as r) s))
     = filter isDelivery (out s)"
  "objectsThatFlew (orElse (p_getTransactionsProofByAddresses s b as r) s) = objectsThatFlew s"
  "pendingRequests (orElse (p_getTransactionsProofByHashes s b hs r) s) = pendingRequests s"
  "filter isDelivery (out (orElse (p_getTransactionsProofByHashes s b hs r) s))
     = filter isDelivery (out s)"
  "objectsThatFlew (orElse (p_getTransactionsProofByHashes s b hs r) s) = objectsThatFlew s"
  "pendingRequests (transactionsProofTimeout s) = pendingRequests s"
  "filter isDelivery (out (transactionsProofTimeout s)) = filter isDelivery (out s)"
  "objectsThatFlew (transactionsProofTimeout s) = objectsThatFlew s"
  "pendingRequests (onTransactionsProof s msg) = pendingRequests s"
  "filter isDelivery (out (onTransactionsProof s msg)) = filter isDelivery (out s)"
  "objectsThatFlew (onTransactionsProof s msg) = objectsThatFlew s"
  by (simp_all add: orElse_def p_getTransactionsProofByAddresses_def
      p_getTransactionsProofByHashes_def transactionsProofTimeout_def
      onTransactionsProof_def Let_def emit_def split: option.splits)

lemma transactionReceipts_frames:
  "pendingRequests (orElse (p_getTransactionReceiptsByAddress s a r) s) = pendingRequests s"
  "filter isDelivery (out (orElse (p_getTransactionReceiptsByAddress s a r) s))
     = filter isDelivery (out s)"
  "objectsThatFlew (orElse (p_getTransactionReceiptsByAddress s a r) s) = objectsThatFlew s"
  "pendingRequests (orElse (p_getTransactionReceiptsByHashes s hs r) s) = pendingRequests s"
  "filter isDelivery (out (orElse (p_getTransactionReceiptsByHashes s hs r) s))
     = filter isDelivery (out s)"
  "objectsThatFlew (orElse (p_getTransactionReceiptsByHashes s hs r) s) = objectsThatFlew s"
  "pendingRequests (transactionReceiptsTimeout s) = pendingRequests s"
  "filter isDelivery (out (transactionReceiptsTimeout s)) = filter isDelivery (out s)"
  "objectsThatFlew (transactionReceiptsTimeout s) = objectsThatFlew s"
  "pendingRequests (onTransactionReceipts s rs) = pendingRequests s"
  "filter isDelivery (out (onTransactionReceipts s rs)) = filter isDelivery (out s)"
  "objectsThatFlew (onTransactionReceipts s rs) = objectsThatFlew s"
  by (simp_all add: orElse_def p_getTransactionReceiptsByAddress_def
      p_getTransactionReceiptsByHashes_def transactionReceiptsTimeout_def
      onTransactionReceipts_def Let_def emit_def split: option.splits)

lemma shutdown_frames:
  "pendingRequests (shutdown s) = pendingRequests s"
  "filter isDelivery (out (shutdown s)) = filter isDelivery (out s)"
  "objectsThatFlew (shutdown s) = objectsThatFlew s"
  "pendingRequests (onClose s) = pendingRequests s"
  "filter isDelivery (out (onClose s)) = filter isDelivery (out s)"
  "objectsThatFlew (onClose s) = objectsThatFlew s"
  by (simp_all add: shutdown_def onClose_def p_shutdown_def Let_def basic_defs)

lemma header_frames:
  "pendingRequests (onHeader s hdr) = pendingRequests s"
  "filter isDelivery (out (onHeader s hdr)) = filter isDelivery (out s)"
  "set (objectsThatFlew s) \<subseteq> set (objectsThatFlew (onHeader s hdr))"
  "pendingRequests (onHeader_resume s hdr) = pendingRequests s"
  "filter isDelivery (out (onHeader_resume s hdr)) = filter isDelivery (out s)"
  "objectsThatFlew (onHeader_resume s hdr) = objectsThatFlew s"
  "pendingRequests (onBlock_resume s b) = pendingRequests s"
  "filter isDelivery (out (onBlock_resume s b)) = filter isDelivery (out s)"
  "objectsThatFlew (onBlock_resume s b) = objectsThatFlew s"
  using onObjectReceived_frame(3) [of "trackHead s (hdr_hash hdr) hdr" "InvVector BLOCK (hdr_hash hdr)"]
  by (simp_all add: onHeader_def onHeader_resume_def onBlock_resume_def Let_def emit_def suspend_def
      onObjectReceived_frame onObjectProcessed_frame trackHead_frame)

subsection \<open>Settling and registering keep the resolvers accounted for\<close>

lemma settledIds_outcome: "settledIds (map (outcome k) rs) = rs"
  by (induction rs) (cases k; simp add: settledIds_def)+

lemma settledIds_append: "settledIds (xs @ ys) = settledIds xs @ settledIds ys"
  by (simp add: settledIds_def)

lemma waiting_remove:
  assumes "P v = Some rs"
      and "\<forall>v w rs rs'. v \<noteq> w \<longrightarrow> P v = Some rs \<longrightarrow> P w = Some rs' \<longrightarrow> set rs \<inter> set rs' = {}"
  shows "waiting (P(v := None)) = waiting P - set rs"
proof (rule set_eqI)
  fix r
  show "r \<in> waiting (P(v := None)) \<longleftrightarrow> r \<in> waiting P - set rs"
  proof
    assume "r \<in> waiting (P(v := None))"
    then obtain w rs' where w: "w \<noteq> v" "P w = Some rs'" "r \<in> set rs'"
      by (auto simp: waiting_def split: if_splits)
    then have "set rs' \<inter> set rs = {}" using assms by blast
    with w show "r \<in> waiting P - set rs" by (auto simp: waiting_def)
  next
    assume a: "r \<in> waiting P - set rs"
    then obtain w rs' where w: "P w = Some rs'" "r \<in> set rs'" by (auto simp: waiting_def)
    with a assms(1) have "w \<noteq> v" by auto
    with w show "r \<in> waiting (P(v := None))" by (auto simp: waiting_def)
  qed
qed

lemma wellSettled_settle:
  assumes "wellSettled R a"
  shows "wellSettled R (settle k v a)"
proof (cases "fst a v")
  case None
  then show ?thesis using assms by (simp add: settle_def)
next
  case (Some rs)
  let ?P = "fst a" and ?D = "snd a"
  have d: "distinct (settledIds ?D)" and dr: "distinct rs"
    and disj: "\<forall>v w rs rs'. v \<noteq> w \<longrightarrow> ?P v = Some rs \<longrightarrow> ?P w = Some rs' \<longrightarrow> set rs \<inter> set rs' = {}"
    and wd: "waiting ?P \<inter> set (settledIds ?D) = {}"
    and all: "waiting ?P \<union> set (settledIds ?D) = R"
    and oc: "\<forall>e \<in> set ?D. \<exists>k r. e = outcome k r"
    and dl: "\<forall>v rs. ?P v = Some rs \<longrightarrow> distinct rs"
    using assms Some by (auto simp: wellSettled_def)
  have sub: "set rs \<subseteq> waiting ?P" using Some by (auto simp: waiting_def)
  have w': "waiting (?P(v := None)) = waiting ?P - set rs"
    using Some disj by (rule waiting_remove)
  have s': "settle k v a = (?P(v := None), ?D @ map (outcome k) rs)"
    using Some by (simp add: settle_def)
  have ids: "settledIds (?D @ map (outcome k) rs) = settledIds ?D @ rs"
    by (simp add: settledIds_append settledIds_outcome)
  have c1: "distinct (settledIds ?D @ rs)" using d dr wd sub by auto
  have c2: "\<forall>e \<in> set (?D @ map (outcome k) rs). \<exists>k r. e = outcome k r" using oc by auto
  have c3: "\<forall>w rs'. (?P(v := None)) w = Some rs' \<longrightarrow> distinct rs'" using dl by auto
  have c4: "\<forall>u w rs' rs''. u \<noteq> w \<longrightarrow> (?P(v := None)) u = Some rs' \<longrightarrow> (?P(v := None)) w = Some rs''
               \<longrightarrow> set rs' \<inter> set rs'' = {}"
    using disj by (auto split: if_splits)
  have c5: "(waiting ?P - set rs) \<inter> set (settledIds ?D @ rs) = {}" using wd by auto
  have c6: "(waiting ?P - set rs) \<union> set (settledIds ?D @ rs) = R" using all sub by auto
  show ?thesis
    unfolding wellSettled_def s' fst_conv snd_conv ids w'
    using c1 c2 c3 c4 c5 c6 by blast
qed

lemma waiting_upd:
  assumes "set new = insert r (case P v of None \<Rightarrow> {} | Some rs \<Rightarrow> set rs)"
  shows "waiting (P(v \<mapsto> new)) = insert r (waiting P)"
proof (rule set_eqI)
  fix x
  show "x \<in> waiting (P(v \<mapsto> new)) \<longleftrightarrow> x \<in> insert r (waiting P)"
  proof
    assume "x \<in> waiting (P(v \<mapsto> new))"
    then obtain w rs' where w: "(P(v \<mapsto> new)) w = Some rs'" "x \<in> set rs'"
      unfolding waiting_def by blast
    show "x \<in> insert r (waiting P)"
    proof (cases "w = v")
      case True
      with w have "x \<in> set new" by simp
      with assms have "x = r \<or> (\<exists>rs. P v = Some rs \<and> x \<in> set rs)"
        by (cases "P v") auto
      then show ?thesis unfolding waiting_def by blast
    next
      case False
      with w have "P w = Some rs'" by simp
      with w(2) show ?thesis unfolding waiting_def by blast
    qed
  next
    assume a: "x \<in> insert r (waiting P)"
    show "x \<in> waiting (P(v \<mapsto> new))"
    proof (cases "x = r")
      case True
      then have "(P(v \<mapsto> new)) v = Some new \<and> x \<in> set new" using assms by simp
      then show ?thesis unfolding waiting_def by blast
    next
      case False
      with a obtain w rs' where w: "P w = Some rs'" "x \<in> set rs'"
        unfolding waiting_def by blast
      show ?thesis
      proof (cases "w = v")
        case True
        with w assms have "(P(v \<mapsto> new)) v = Some new \<and> x \<in> set new" by simp
        then show ?thesis unfolding waiting_def by blast
      next
        case False
        with w have "(P(v \<mapsto> new)) w = Some rs' \<and> x \<in> set rs'" by simp
        then show ?thesis unfolding waiting_def by blast
      qed
    qed
  qed
qed

lemma register_eq:
  "register v r a = ((fst a)(v \<mapsto> (case fst a v of None \<Rightarrow> [] | Some rs \<Rightarrow> rs) @ [r]), snd a)"
  by (simp add: register_def split: option.splits)

lemma wellSettled_register:
  assumes "wellSettled R a" and "r \<notin> R"
  shows "wellSettled (insert r R) (register v r a)"
proof -
  let ?P = "fst a" and ?D = "snd a"
  let ?old = "case ?P v of None \<Rightarrow> [] | Some rs \<Rightarrow> rs"
  let ?new = "?old @ [r]"
  have d: "distinct (settledIds ?D)"
    and disj: "\<forall>v w rs rs'. v \<noteq> w \<longrightarrow> ?P v = Some rs \<longrightarrow> ?P w = Some rs' \<longrightarrow> set rs \<inter> set rs' = {}"
    and wd: "waiting ?P \<inter> set (settledIds ?D) = {}"
    and all: "waiting ?P \<union> set (settledIds ?D) = R"
    and oc: "\<forall>e \<in> set ?D. \<exists>k r. e = outcome k r"
    and dl: "\<forall>v rs. ?P v = Some rs \<longrightarrow> distinct rs"
    using assms(1) by (auto simp: wellSettled_def)
  have rw: "r \<notin> waiting ?P" and rd: "r \<notin> set (settledIds ?D)"
    using all assms(2) by auto
  have old_sub: "set ?old \<subseteq> waiting ?P"
    by (cases "?P v") (auto simp: waiting_def)
  have old_d: "distinct ?old"
    using dl by (cases "?P v") auto
  have w': "waiting (?P(v \<mapsto> ?new)) = insert r (waiting ?P)"
    by (rule waiting_upd) (cases "?P v"; simp)
  have c3: "\<forall>w rs'. (?P(v \<mapsto> ?new)) w = Some rs' \<longrightarrow> distinct rs'"
    using dl old_d old_sub rw by (auto split: if_splits)
  have c4: "\<forall>u w rs' rs''. u \<noteq> w \<longrightarrow> (?P(v \<mapsto> ?new)) u = Some rs' \<longrightarrow>
               (?P(v \<mapsto> ?new)) w = Some rs'' \<longrightarrow> set rs' \<inter> set rs'' = {}"
  proof (intro allI impI)
    fix u w rs' rs''
    assume uw: "u \<noteq> w" and pu: "(?P(v \<mapsto> ?new)) u = Some rs'"
      and pw: "(?P(v \<mapsto> ?new)) w = Some rs''"
    have other: "set ?new \<inter> set xs = {}" if "?P z = Some xs" "z \<noteq> v" for z xs
    proof -
      have "set xs \<subseteq> waiting ?P" using that(1) by (auto simp: waiting_def)
      then have "r \<notin> set xs" using rw by auto
      moreover have "set ?old \<inter> set xs = {}"
      proof (cases "?P v")
        case None
        then show ?thesis by simp
      next
        case (Some ys)
        from that(2) have "v \<noteq> z" by simp
        with disj Some that(1) have "set ys \<inter> set xs = {}" by blast
        with Some show ?thesis by simp
      qed
      ultimately show ?thesis by auto
    qed
    show "set rs' \<inter> set rs'' = {}"
    proof (cases "u = v")
      case True
      then have "rs' = ?new" "?P w = Some rs''" "w \<noteq> v" using pu pw uw by auto
      then show ?thesis using other by blast
    next
      case False
      note uv = this
      show ?thesis
      proof (cases "w = v")
        case True
        then have "rs'' = ?new" "?P u = Some rs'" using pu pw uv by auto
        then show ?thesis using other uv by blast
      next
        case False
        then show ?thesis using disj uw uv pu pw by auto
      qed
    qed
  qed
  have c5: "insert r (waiting ?P) \<inter> set (settledIds ?D) = {}" using wd rd by auto
  have c6: "insert r (waiting ?P) \<union> set (settledIds ?D) = insert r R" using all by auto
  show ?thesis
    unfolding wellSettled_def register_eq fst_conv snd_conv w'
    using d oc c3 c4 c5 c6 by blast
qed

lemma wellSettled_init: "wellSettled {} (Map.empty, [])"
  by (simp add: wellSettled_def waiting_def settledIds_def)

subsection \<open>Direct requests: one outcome for each resolver\<close>

lemma filter_outcome: "filter isDelivery (map (outcome k) rs) = map (outcome k) rs"
  by (induction rs) (cases k; simp)+

lemma requests_requestBlock:
  "requests (requestBlock s h r) = register (InvVector BLOCK h) r (requests s)"
  by (simp add: requests_def register_def requestBlock_def Let_def basic_defs split: option.splits)

lemma requests_requestTransaction:
  "requests (requestTransaction s h r) = register (InvVector TRANSACTION h) r (requests s)"
  by (simp add: requests_def register_def requestTransaction_def Let_def basic_defs
      split: option.splits)

lemma requests_requestTimeout:
  "requests (requestTimeout s v) = settle TimedOut v (requests s)"
  by (simp add: requests_def settle_def requestTimeout_def basic_defs split: option.splits)

lemma requests_onBlock:
  "requests (onBlock s b) = settle (ResolvedBlock b) (InvVector BLOCK (blk_hash b)) (requests s)"
  by (simp add: requests_def settle_def onBlock_def Let_def resolveAll_def basic_defs
      onObjectReceived_frame trackHead_frame split: option.splits)

lemma requests_onTx_resume:
  "requests (onTx_resume s tx now)
     = settle (ResolvedTx tx) (InvVector TRANSACTION (tx_hash tx)) (requests s)"
  by (simp add: requests_def settle_def onTx_resume_def Let_def resolveAll_def basic_defs
      onObjectProcessed_frame split: option.splits)

lemma requests_onTx:
  "requests (onTx s tx now) = requests s
   \<or> requests (onTx s tx now)
        = settle (ResolvedTx tx) (InvVector TRANSACTION (tx_hash tx)) (requests s)"
proof -
  let ?v = "InvVector TRANSACTION (tx_hash tx)"
  let ?s3 = "(onObjectReceived (emit (NoteVectorReceived (fromTransaction tx)) s) ?v)
               \<lparr>objectsProcessing :=
                  hs_add (objectsProcessing
                    (onObjectReceived (emit (NoteVectorReceived (fromTransaction tx)) s) ?v)) ?v\<rparr>"
  have s3: "requests ?s3 = requests s"
    by (simp add: requests_def onObjectReceived_frame emit_def)
  have "onTx s tx now = emit (LogUnsolicited ?v) s
        \<or> onTx s tx now = suspend (AfterProcessTransaction tx) (emit (ProcessTransaction (tx_hash tx) tx) ?s3)
        \<or> onTx s tx now = onTx_resume ?s3 tx now"
    by (simp add: onTx_def Let_def)
  moreover have "requests (emit (LogUnsolicited ?v) s) = requests s"
    by (simp add: requests_def emit_def)
  moreover have "requests (suspend (AfterProcessTransaction tx) (emit (ProcessTransaction (tx_hash tx) tx) ?s3))
                   = requests ?s3"
    by (simp add: requests_def emit_def suspend_def)
  ultimately show ?thesis
    using s3 requests_onTx_resume [of ?s3 tx now] by metis
qed

lemma requests_onNotFound_vector:
  "requests (onNotFound_vector s v) = settle NotFound v (requests s)"
  by (simp add: requests_def settle_def onNotFound_vector_def Let_def basic_defs
      onObjectReceived_frame filter_outcome split: option.splits)

lemma requests_onNotFound:
  "requests (onNotFound s vs) = foldl (\<lambda>a v. settle NotFound v a) (requests s) vs"
  by (induction vs arbitrary: s) (simp_all add: onNotFound_def requests_onNotFound_vector)

lemma settles_refl: "settles a a"
  unfolding settles_def by (rule exI [of _ "[]"]) simp

lemma settles_settle: "settles a (settle k v a)"
  unfolding settles_def by (rule exI [of _ "[(k, v)]"]) simp

lemma settles_fold: "settles a (foldl (\<lambda>a v. settle k v a) a vs)"
  unfolding settles_def
  by (rule exI [of _ "map (\<lambda>v. (k, v)) vs"]) (simp add: foldl_map)

lemma wellSettled_settles:
  assumes "wellSettled R a" and "settles a a'"
  shows "wellSettled R a'"
proof -
  from assms(2) obtain ops where a': "a' = foldl (\<lambda>a kv. settle (fst kv) (snd kv) a) a ops"
    unfolding settles_def by blast
  have "wellSettled R (foldl (\<lambda>a kv. settle (fst kv) (snd kv) a) a ops)"
    using assms(1) by (induction ops arbitrary: a) (simp_all add: wellSettled_settle)
  with a' show ?thesis by simp
qed

lemma requests_runCallback:
  "settles (requests s) (requests (runCallback s cb))"
proof (cases cb)
  case (CbRequestTimeout v)
  then show ?thesis
    by (simp add: runCallback_def requests_requestTimeout settles_settle)
next
  case CbRequestData
  then have "requests (runCallback s cb) = requests s"
    by (simp add: runCallback_def requests_def requestData_frame)
  then show ?thesis by (simp add: settles_refl)
next
  case CbNoMoreData
  then have "requests (runCallback s cb) = requests s"
    by (simp add: runCallback_def requests_def noMoreData_frame)
  then show ?thesis by (simp add: settles_refl)
next
  case CbRequestHead
  then have "requests (runCallback s cb) = requests s"
    by (simp add: runCallback_def requests_def simple_frames)
  then show ?thesis by (simp add: settles_refl)
next
  case (CbKnowsObject v)
  then have "requests (runCallback s cb) = requests s"
    by (simp add: runCallback_def requests_def)
  then show ?thesis by (simp add: settles_refl)
qed

lemma requests_fireTimeout:
  "settles (requests s) (requests (fireTimeout s k))"
proof (cases "timers s k")
  case None
  then show ?thesis by (simp add: fireTimeout_def settles_refl)
next
  case (Some cbd)
  obtain cb d where cbd: "cbd = (cb, d)" by (cases cbd)
  have "requests (s\<lparr>timers := (timers s)(k := None)\<rparr>) = requests s"
    by (simp add: requests_def)
  with requests_runCallback [of "s\<lparr>timers := (timers s)(k := None)\<rparr>" cb]
  show ?thesis using Some cbd by (simp add: fireTimeout_def)
qed

lemma requests_resume:
  "settles (requests s) (requests (resume s k now))"
proof (cases "k \<in> set (suspended s)")
  case False
  then show ?thesis by (simp add: resume_def settles_refl)
next
  case True
  let ?s1 = "s\<lparr>suspended := remove1 k (suspended s)\<rparr>"
  have s1: "requests ?s1 = requests s" by (simp add: requests_def)
  show ?thesis
  proof (cases k)
    case (AfterProcessBlock b)
    then have "requests (resume s k now) = requests s"
      using True by (simp add: resume_def requests_def header_frames)
    then show ?thesis by (simp add: settles_refl)
  next
    case (AfterProcessHeader h)
    then have "requests (resume s k now) = requests s"
      using True by (simp add: resume_def requests_def header_frames)
    then show ?thesis by (simp add: settles_refl)
  next
    case (AfterProcessTransaction tx)
    then have "requests (resume s k now)
                 = settle (ResolvedTx tx) (InvVector TRANSACTION (tx_hash tx)) (requests s)"
      using True s1 by (simp add: resume_def requests_onTx_resume)
    then show ?thesis by (simp add: settles_settle)
  qed
qed

lemma frame_settles:
  assumes "pendingRequests s' = pendingRequests s"
      and "filter isDelivery (out s') = filter isDelivery (out s)"
  shows "settles (requests s) (requests s')"
  using assms by (simp add: requests_def settles_refl)

lemma requests_step:
  "(registers ev = [] \<and> settles (requests s) (requests (step s ev)))
   \<or> (\<exists>v r. registers ev = [r] \<and> requests (step s ev) = register v r (requests s))"
proof (cases ev)
  case (EvRequestBlock h r)
  then show ?thesis by (auto simp: requests_requestBlock)
next
  case (EvRequestTransaction h r)
  then show ?thesis by (auto simp: requests_requestTransaction)
next
  case (EvOnBlock b)
  then show ?thesis by (simp add: requests_onBlock settles_settle)
next
  case (EvOnTx tx now)
  then show ?thesis using requests_onTx [of s tx now] by (auto simp: settles_settle settles_refl)
next
  case (EvResume k now)
  then show ?thesis by (simp add: requests_resume)
next
  case (EvOnNotFound vs)
  then show ?thesis by (simp add: requests_onNotFound settles_fold)
next
  case (EvFireTimeout k)
  then show ?thesis by (simp add: requests_fireTimeout)
qed (simp_all add: frame_settles simple_frames relay_frames send_frames requestVector_frame
      pp_onInv_frame onGetData_frame onGetHeader_frame blockProof_frames
      transactionsProof_frames transactionReceipts_frames shutdown_frames header_frames)

lemma registered_snoc: "registered (evs @ [ev]) = registered evs @ registers ev"
  by (simp add: registered_def)

lemma run_snoc: "run s (evs @ [ev]) = step (run s evs) ev"
  by (simp add: run_def)

lemma run_wellSettled:
  assumes "requests s0 = (Map.empty, [])"
  shows "distinct (registered evs) \<Longrightarrow> wellSettled (set (registered evs)) (requests (run s0 evs))"
proof (induction evs rule: rev_induct)
  case Nil
  show ?case using assms by (simp add: registered_def run_def wellSettled_init)
next
  case (snoc ev evs)
  from snoc.prems have d: "distinct (registered evs)"
    and fresh: "set (registers ev) \<inter> set (registered evs) = {}"
    by (auto simp: registered_snoc)
  note ih = snoc.IH [OF d]
  from requests_step [of ev "run s0 evs"] show ?case
  proof
    assume "registers ev = [] \<and> settles (requests (run s0 evs)) (requests (step (run s0 evs) ev))"
    then show ?thesis
      using ih by (simp add: registered_snoc run_snoc wellSettled_settles)
  next
    assume "\<exists>v r. registers ev = [r] \<and>
              requests (step (run s0 evs) ev) = register v r (requests (run s0 evs))"
    then obtain v r where r: "registers ev = [r]"
      and st: "requests (step (run s0 evs) ev) = register v r (requests (run s0 evs))"
      by blast
    from r fresh have "r \<notin> set (registered evs)" by simp
    from wellSettled_register [OF ih this, of v]
    show ?thesis by (simp add: registered_snoc run_snoc r st)
  qed
qed

lemma filter_resolver_unique:
  assumes "distinct (settledIds D)" and "e \<in> set D" and "resolverOf e = Some r"
      and "\<forall>e \<in> set D. resolverOf e \<noteq> None"
  shows "filter (\<lambda>e. resolverOf e = Some r) D = [e]"
  using assms
proof (induction D)
  case Nil
  then show ?case by simp
next
  case (Cons x D)
  have dx: "the (resolverOf x) \<notin> set (settledIds D)" and dD: "distinct (settledIds D)"
    using Cons.prems(1) by (simp_all add: settledIds_def)
  show ?case
  proof (cases "x = e")
    case True
    have "filter (\<lambda>e. resolverOf e = Some r) D = []"
    proof (rule ccontr)
      assume "filter (\<lambda>e. resolverOf e = Some r) D \<noteq> []"
      then obtain y where y: "y \<in> set D" "resolverOf y = Some r"
        by (auto simp: filter_empty_conv)
      then have "r \<in> set (settledIds D)"
        unfolding settledIds_def by (force simp: image_iff)
      with dx True Cons.prems(3) show False by simp
    qed
    then show ?thesis using True Cons.prems(3) by simp
  next
    case False
    then have eD: "e \<in> set D" using Cons.prems(2) by simp
    then have "r \<in> set (settledIds D)"
      using Cons.prems(3) unfolding settledIds_def by (force simp: image_iff)
    then have "resolverOf x \<noteq> Some r" using dx by auto
    moreover have "filter (\<lambda>e. resolverOf e = Some r) D = [e]"
      using Cons.IH [OF dD eD Cons.prems(3)] Cons.prems(4) by simp
    ultimately show ?thesis by simp
  qed
qed

lemma resolverOf_outcome: "resolverOf (outcome k r) = Some r"
  by (cases k) simp_all

lemma resolverOf_Some_isDelivery: "(resolverOf e = Some r) \<Longrightarrow> isDelivery e"
  by (cases e) simp_all

lemma filter_resolver_deliveries:
  "filter (\<lambda>e. resolverOf e = Some r) (filter isDelivery es) = filter (\<lambda>e. resolverOf e = Some r) es"
  by (induction es) (auto dest: resolverOf_Some_isDelivery)

lemma wellSettled_cases:
  assumes "wellSettled R (P, D)" and "r \<in> R"
  shows "((\<exists>v rs. P v = Some rs \<and> r \<in> set rs \<and> distinct rs
             \<and> (\<forall>w rs'. P w = Some rs' \<and> r \<in> set rs' \<longrightarrow> w = v))
          \<and> filter (\<lambda>e. resolverOf e = Some r) D = [])
       \<or> ((\<forall>v rs. P v = Some rs \<longrightarrow> r \<notin> set rs)
          \<and> (\<exists>k. filter (\<lambda>e. resolverOf e = Some r) D = [outcome k r]))"
proof -
  have d: "distinct (settledIds D)"
    and oc: "\<forall>e \<in> set D. \<exists>k r. e = outcome k r"
    and dl: "\<forall>v rs. P v = Some rs \<longrightarrow> distinct rs"
    and disj: "\<forall>v w rs rs'. v \<noteq> w \<longrightarrow> P v = Some rs \<longrightarrow> P w = Some rs' \<longrightarrow> set rs \<inter> set rs' = {}"
    and wd: "waiting P \<inter> set (settledIds D) = {}"
    and all: "waiting P \<union> set (settledIds D) = R"
    using assms(1) by (auto simp: wellSettled_def)
  have some: "\<forall>e \<in> set D. resolverOf e \<noteq> None"
    using oc by (auto simp: resolverOf_outcome)
  from all assms(2) have "r \<in> waiting P \<or> r \<in> set (settledIds D)" by blast
  then show ?thesis
  proof
    assume w: "r \<in> waiting P"
    then obtain v rs where v: "P v = Some rs" "r \<in> set rs" unfolding waiting_def by blast
    have uniq: "w = v" if "P w = Some rs'" "r \<in> set rs'" for w rs'
    proof (rule ccontr)
      assume "w \<noteq> v"
      with disj that(1) v(1) have "set rs' \<inter> set rs = {}" by blast
      with that(2) v(2) show False by blast
    qed
    have nd: "r \<notin> set (settledIds D)" using w wd by blast
    have "filter (\<lambda>e. resolverOf e = Some r) D = []"
    proof (rule ccontr)
      assume "filter (\<lambda>e. resolverOf e = Some r) D \<noteq> []"
      then obtain y where y: "y \<in> set D" "resolverOf y = Some r"
        by (auto simp: filter_empty_conv)
      then have "r \<in> set (settledIds D)"
        unfolding settledIds_def by (force simp: image_iff)
      with nd show False by simp
    qed
    moreover have "distinct rs" using dl v(1) by blast
    ultimately show ?thesis using v uniq by blast
  next
    assume s: "r \<in> set (settledIds D)"
    then obtain e where e: "e \<in> set D" "the (resolverOf e) = r"
      unfolding settledIds_def by auto
    from oc e(1) obtain k r' where k: "e = outcome k r'" by blast
    with e(2) have "r' = r" by (simp add: resolverOf_outcome)
    with k have ek: "e = outcome k r" by simp
    then have re: "resolverOf e = Some r" by (simp add: resolverOf_outcome)
    have f: "filter (\<lambda>e. resolverOf e = Some r) D = [outcome k r]"
      using filter_resolver_unique [OF d e(1) re some] ek by simp
    have "r \<notin> waiting P" using s wd by blast
    then have "\<forall>v rs. P v = Some rs \<longrightarrow> r \<notin> set rs" unfolding waiting_def by blast
    with f show ?thesis by blast
  qed
qed

lemma requests_newAgent: "requests (newAgent hh ver tgt mx hdrs should pol) = (Map.empty, [])"
  by (simp add: requests_def newAgent_def)

lemma C1_trace:
  assumes "distinct (registered evs)" and "r \<in> set (registered evs)"
      and "s = run (newAgent hh ver tgt mx hdrs should pol) evs"
  shows "((\<exists>v rs. pendingRequests s v = Some rs \<and> r \<in> set rs \<and> distinct rs
             \<and> (\<forall>w rs'. pendingRequests s w = Some rs' \<and> r \<in> set rs' \<longrightarrow> w = v))
          \<and> filter (\<lambda>e. resolverOf e = Some r) (out s) = [])
       \<or> ((\<forall>v rs. pendingRequests s v = Some rs \<longrightarrow> r \<notin> set rs)
          \<and> (\<exists>k. filter (\<lambda>e. resolverOf e = Some r) (out s) = [outcome k r]))"
proof -
  have "wellSettled (set (registered evs)) (pendingRequests s, filter isDelivery (out s))"
    using run_wellSettled [OF requests_newAgent assms(1)] assms(3) by (simp add: requests_def)
  from wellSettled_cases [OF this assms(2)] show ?thesis
    by (simp only: filter_resolver_deliveries)
qed

lemma onBlock_settles:
  assumes "pendingRequests s (InvVector BLOCK (blk_hash b)) = Some rs"
  shows "pendingRequests (onBlock s b) (InvVector BLOCK (blk_hash b)) = None
       \<and> timers (onBlock s b) (K_block_request (blk_hash b)) = None
       \<and> out (onBlock s b) = out s @ map (outcome (ResolvedBlock b)) rs"
  using assms by (simp add: onBlock_def Let_def resolveAll_def basic_defs)

lemma onTx_resume_settles:
  assumes "pendingRequests s (InvVector TRANSACTION (tx_hash tx)) = Some rs"
  shows "pendingRequests (onTx_resume s tx now) (InvVector TRANSACTION (tx_hash tx)) = None
       \<and> timers (onTx_resume s tx now) (K_tx_request (tx_hash tx)) = None
       \<and> filter isDelivery (out (onTx_resume s tx now))
           = filter isDelivery (out s) @ map (outcome (ResolvedTx tx)) rs"
  using assms
  by (simp add: onTx_resume_def Let_def resolveAll_def basic_defs onObjectProcessed_frame
      filter_outcome)

lemma onTx_settles:
  assumes "pendingRequests s (InvVector TRANSACTION (tx_hash tx)) = Some rs"
      and "hs_contains (objectsInFlight s) (InvVector TRANSACTION (tx_hash tx))
           \<or> hs_contains (objectsThatFlew s) (InvVector TRANSACTION (tx_hash tx))"
  shows "if matchesTransaction (localSubscription s) tx
         then AfterProcessTransaction tx \<in> set (suspended (onTx s tx now))
            \<and> pendingRequests (onTx s tx now) (InvVector TRANSACTION (tx_hash tx)) = Some rs
         else pendingRequests (onTx s tx now) (InvVector TRANSACTION (tx_hash tx)) = None
            \<and> timers (onTx s tx now) (K_tx_request (tx_hash tx)) = None
            \<and> filter isDelivery (out (onTx s tx now))
                = filter isDelivery (out s) @ map (outcome (ResolvedTx tx)) rs"
proof -
  let ?v = "InvVector TRANSACTION (tx_hash tx)"
  let ?s2 = "onObjectReceived (emit (NoteVectorReceived (fromTransaction tx)) s) ?v"
  let ?s3 = "?s2\<lparr>objectsProcessing := hs_add (objectsProcessing ?s2) ?v\<rparr>"
  have sol: "(\<not> hs_contains (objectsInFlight s) ?v \<and> \<not> hs_contains (objectsThatFlew s) ?v)
               = False"
    using assms(2) by blast
  have p3: "pendingRequests ?s3 ?v = Some rs"
    using assms(1) by (simp add: onObjectReceived_frame emit_def)
  have o3: "filter isDelivery (out ?s3) = filter isDelivery (out s)"
    by (simp add: onObjectReceived_frame emit_def)
  have l3: "localSubscription ?s3 = localSubscription s"
    by (simp add: onObjectReceived_def noMoreData_def requestData_def
        dequeueVectors_eq [OF refl refl refl] doRequestData_def Let_def basic_defs)
  show ?thesis
  proof (cases "matchesTransaction (localSubscription s) tx")
    case True
    then have "onTx s tx now
        = suspend (AfterProcessTransaction tx) (emit (ProcessTransaction (tx_hash tx) tx) ?s3)"
      using l3 by (simp add: onTx_def sol Let_def)
    then show ?thesis using True p3 by (simp add: suspend_def emit_def)
  next
    case False
    then have "onTx s tx now = onTx_resume ?s3 tx now"
      using l3 by (simp add: onTx_def sol Let_def)
    then show ?thesis using False onTx_resume_settles [OF p3, of now] o3 by simp
  qed
qed

lemma resume_tx_settles:
  assumes "pendingRequests s (InvVector TRANSACTION (tx_hash tx)) = Some rs"
      and "AfterProcessTransaction tx \<in> set (suspended s)"
  shows "pendingRequests (resume s (AfterProcessTransaction tx) now)
           (InvVector TRANSACTION (tx_hash tx)) = None
       \<and> timers (resume s (AfterProcessTransaction tx) now) (K_tx_request (tx_hash tx)) = None
       \<and> filter isDelivery (out (resume s (AfterProcessTransaction tx) now))
           = filter isDelivery (out s) @ map (outcome (ResolvedTx tx)) rs"
proof -
  let ?s1 = "s\<lparr>suspended := remove1 (AfterProcessTransaction tx) (suspended s)\<rparr>"
  have "pendingRequests ?s1 (InvVector TRANSACTION (tx_hash tx)) = Some rs"
    using assms(1) by simp
  from onTx_resume_settles [OF this, of now] show ?thesis
    using assms(2) by (simp add: resume_def)
qed

lemma requestTimerKey_not_getData: "requestTimerKey v \<noteq> K_getData"
  by (cases v) (simp add: requestTimerKey_def split: InvVectorType.splits)

lemma onNotFound_vector_pending:
  "pendingRequests (onNotFound_vector s w) = (pendingRequests s)(w := None)"
  by (simp add: onNotFound_vector_def Let_def basic_defs onObjectReceived_frame fun_upd_idem
      split: option.splits)

lemma onNotFound_vector_timers:
  "k \<noteq> K_getData \<Longrightarrow>
   timers (onNotFound_vector s w) k
     = (if k = requestTimerKey w \<and> pendingRequests s w \<noteq> None then None else timers s k)"
  using requestTimerKey_not_getData [of w]
  by (simp add: onNotFound_vector_def Let_def basic_defs onObjectReceived_timers
      split: option.splits)

lemma onObjectReceived_out: "\<exists>es. out (onObjectReceived s v) = out s @ es"
  by (simp add: onObjectReceived_def noMoreData_def requestData_def
        dequeueVectors_eq [OF refl refl refl] doRequestData_def Let_def basic_defs)

lemma onNotFound_vector_out:
  "\<exists>es. out (onNotFound_vector s w)
     = out s @ map (outcome NotFound) (case pendingRequests s w of None \<Rightarrow> [] | Some rs \<Rightarrow> rs) @ es"
proof -
  obtain s1 where s1: "s1 = (case pendingRequests s w of
               None \<Rightarrow> s
             | Some reqs \<Rightarrow>
                 emitAll (map (\<lambda>r. Reject r ''Not found'') reqs)
                   (clearTimeout (requestTimerKey w)
                     (s\<lparr>pendingRequests := (pendingRequests s)(w := None)\<rparr>)))"
    by blast
  have o1: "out s1 = out s @ map (outcome NotFound)
                 (case pendingRequests s w of None \<Rightarrow> [] | Some rs \<Rightarrow> rs)"
    unfolding s1 by (simp add: basic_defs split: option.splits)
  have "onNotFound_vector s w = s1
      \<or> onNotFound_vector s w = onObjectReceived (emit (NoteVectorNotReceived w) s1) w"
    unfolding s1 by (cases "pendingRequests s w") (simp_all add: onNotFound_vector_def Let_def)
  then show ?thesis
  proof
    assume "onNotFound_vector s w = s1"
    then show ?thesis using o1 by simp
  next
    assume a: "onNotFound_vector s w = onObjectReceived (emit (NoteVectorNotReceived w) s1) w"
    from onObjectReceived_out [of "emit (NoteVectorNotReceived w) s1" w]
    obtain es where "out (onObjectReceived (emit (NoteVectorNotReceived w) s1) w)
                       = out (emit (NoteVectorNotReceived w) s1) @ es" by blast
    then show ?thesis using a o1 by (simp add: emit_def)
  qed
qed

lemma onNotFound_keeps_settled:
  assumes "pendingRequests s v = None" and "timers s (requestTimerKey v) = None"
      and "set X \<subseteq> set (out s)"
  shows "pendingRequests (onNotFound s vs) v = None
       \<and> timers (onNotFound s vs) (requestTimerKey v) = None
       \<and> set X \<subseteq> set (out (onNotFound s vs))"
  using assms
proof (induction vs arbitrary: s)
  case Nil
  then show ?case by (simp add: onNotFound_def)
next
  case (Cons w ws)
  have p: "pendingRequests (onNotFound_vector s w) v = None"
    using Cons.prems(1) by (simp add: onNotFound_vector_pending)
  have t: "timers (onNotFound_vector s w) (requestTimerKey v) = None"
    using Cons.prems(2) by (simp add: onNotFound_vector_timers requestTimerKey_not_getData)
  have o: "set X \<subseteq> set (out (onNotFound_vector s w))"
    using Cons.prems(3) onNotFound_vector_out [of s w] by auto
  from Cons.IH [OF p t o] show ?case by (simp add: onNotFound_def)
qed

lemma onNotFound_settles:
  assumes "v \<in> set vs" and "pendingRequests s v = Some rs"
  shows "pendingRequests (onNotFound s vs) v = None
       \<and> timers (onNotFound s vs) (requestTimerKey v) = None
       \<and> set (map (outcome NotFound) rs) \<subseteq> set (out (onNotFound s vs))"
  using assms
proof (induction vs arbitrary: s)
  case Nil
  then show ?case by simp
next
  case (Cons w ws)
  show ?case
  proof (cases "w = v")
    case True
    have p: "pendingRequests (onNotFound_vector s v) v = None"
      by (simp add: onNotFound_vector_pending)
    have t: "timers (onNotFound_vector s v) (requestTimerKey v) = None"
      using Cons.prems(2) by (simp add: onNotFound_vector_timers requestTimerKey_not_getData)
    have o: "set (map (outcome NotFound) rs) \<subseteq> set (out (onNotFound_vector s v))"
      using Cons.prems(2) onNotFound_vector_out [of s v] by auto
    from onNotFound_keeps_settled [OF p t o, of ws] show ?thesis
      using True by (simp add: onNotFound_def)
  next
    case False
    then have "v \<in> set ws" using Cons.prems(1) by simp
    moreover have "pendingRequests (onNotFound_vector s w) v = Some rs"
      using False Cons.prems(2) by (simp add: onNotFound_vector_pending)
    ultimately show ?thesis using Cons.IH by (simp add: onNotFound_def)
  qed
qed

lemma fireTimeout_settles:
  assumes "pendingRequests s v = Some rs"
      and "timers s (requestTimerKey v) = Some (CbRequestTimeout v, d)"
  shows "pendingRequests (fireTimeout s (requestTimerKey v)) v = None
       \<and> timers (fireTimeout s (requestTimerKey v)) (requestTimerKey v) = None
       \<and> out (fireTimeout s (requestTimerKey v)) = out s @ map (outcome TimedOut) rs"
  using assms by (simp add: fireTimeout_def runCallback_def requestTimeout_def basic_defs)

lemma request_registers:
  "(\<exists>rs. pendingRequests (requestBlock s h r) (InvVector BLOCK h) = Some (rs @ [r]))
   \<and> (pendingRequests s (InvVector BLOCK h) = None \<longrightarrow>
        timers (requestBlock s h r) (requestTimerKey (InvVector BLOCK h))
          = Some (CbRequestTimeout (InvVector BLOCK h), REQUEST_TIMEOUT))
   \<and> (\<exists>rs. pendingRequests (requestTransaction s h r) (InvVector TRANSACTION h) = Some (rs @ [r]))
   \<and> (pendingRequests s (InvVector TRANSACTION h) = None \<longrightarrow>
        timers (requestTransaction s h r) (requestTimerKey (InvVector TRANSACTION h))
          = Some (CbRequestTimeout (InvVector TRANSACTION h), REQUEST_TIMEOUT))"
  by (simp add: requestBlock_def requestTransaction_def requestTimerKey_def Let_def basic_defs
      split: option.splits)

subsection \<open>A waiting request for a transaction is covered\<close>

lemma covered_step:
  assumes c: "txRequestsCovered s"
      and p: "\<And>h. h \<notin> X \<Longrightarrow> pendingRequests s' (InvVector TRANSACTION h) \<noteq> None \<Longrightarrow>
                 pendingRequests s (InvVector TRANSACTION h) \<noteq> None"
      and x: "\<And>h. h \<in> X \<Longrightarrow> pendingRequests s' (InvVector TRANSACTION h) \<noteq> None \<Longrightarrow>
                 solicited s' (InvVector TRANSACTION h) \<or> awaitsTx s' h"
      and f: "\<And>h. h \<notin> X \<Longrightarrow> solicited s (InvVector TRANSACTION h) \<Longrightarrow>
                 solicited s' (InvVector TRANSACTION h)"
      and a: "\<And>h. h \<notin> X \<Longrightarrow> awaitsTx s h \<Longrightarrow> awaitsTx s' h"
  shows "txRequestsCovered s'"
  unfolding txRequestsCovered_def
proof (intro allI impI)
  fix h
  assume n: "pendingRequests s' (InvVector TRANSACTION h) \<noteq> None"
  show "solicited s' (InvVector TRANSACTION h) \<or> awaitsTx s' h"
  proof (cases "h \<in> X")
    case True
    from x [OF True n] show ?thesis .
  next
    case False
    from p [OF False n] c
    have "solicited s (InvVector TRANSACTION h) \<or> awaitsTx s h"
      unfolding txRequestsCovered_def by blast
    then show ?thesis using f [OF False] a [OF False] by blast
  qed
qed

lemma covered_same:
  assumes "txRequestsCovered s"
      and "pendingRequests s' = pendingRequests s"
      and "\<And>v. solicited s v \<Longrightarrow> solicited s' v"
      and "suspended s' = suspended s"
  shows "txRequestsCovered s'"
  using assms(1)
proof (rule covered_step [where X = "{}"])
  fix h :: Hash
  show "pendingRequests s' (InvVector TRANSACTION h) \<noteq> None \<Longrightarrow>
        pendingRequests s (InvVector TRANSACTION h) \<noteq> None"
    by (simp add: assms(2))
  show "solicited s (InvVector TRANSACTION h) \<Longrightarrow> solicited s' (InvVector TRANSACTION h)"
    by (rule assms(3))
  show "awaitsTx s h \<Longrightarrow> awaitsTx s' h"
    by (simp add: awaitsTx_def assms(4))
qed simp

lemma solicited_eq:
  assumes "objectsInFlight s' = objectsInFlight s" and "objectsThatFlew s' = objectsThatFlew s"
  shows "solicited s' v = solicited s v"
  by (simp add: solicited_def assms)

lemma requestData_solicited: "solicited s v \<Longrightarrow> solicited (requestData s) v"
  by (auto simp: solicited_def hs_contains_def requestData_def
      dequeueVectors_eq [OF refl refl refl] doRequestData_def Let_def basic_defs hs_addAll_set)

lemma noMoreData_solicited:
  assumes "solicited s v"
  shows "solicited (noMoreData s) v"
proof -
  let ?s4 = "(emitAll (map NoteVectorNotReceived (objectsInFlight s)) (clearTimeout K_getData s))
               \<lparr>objectsThatFlew := hs_addAll (objectsThatFlew s) (objectsInFlight s),
                 objectsInFlight := []\<rparr>"
  have a: "solicited ?s4 v"
    using assms by (auto simp: solicited_def hs_contains_def basic_defs hs_addAll_set)
  have "noMoreData s = requestData ?s4 \<or> noMoreData s = emit OnAllObjectsReceived ?s4"
    by (simp add: noMoreData_def Let_def basic_defs)
  moreover have "solicited (requestData ?s4) v"
    using a by (rule requestData_solicited)
  moreover have "solicited (emit OnAllObjectsReceived ?s4) v"
    using a by (simp add: solicited_def emit_def)
  ultimately show ?thesis by auto
qed

lemma onObjectReceived_solicited:
  assumes "solicited s w" and "w \<noteq> v"
  shows "solicited (onObjectReceived s v) w"
proof (cases "objectsInFlight s = []")
  case True
  then show ?thesis using assms by (simp add: onObjectReceived_def)
next
  case False
  let ?s1 = "s\<lparr>objectsInFlight := hs_remove (objectsInFlight s) v\<rparr>"
  have a: "solicited ?s1 w"
    using assms by (auto simp: solicited_def hs_contains_def hs_remove_def)
  have "onObjectReceived s v = resetTimeout K_getData CbNoMoreData REQUEST_TIMEOUT ?s1
      \<or> onObjectReceived s v = noMoreData ?s1"
    using False by (simp add: onObjectReceived_def Let_def)
  moreover have "solicited (resetTimeout K_getData CbNoMoreData REQUEST_TIMEOUT ?s1) w"
    using a by (simp add: solicited_def resetTimeout_def)
  moreover have "solicited (noMoreData ?s1) w"
    using a by (rule noMoreData_solicited)
  ultimately show ?thesis by auto
qed

lemma onObjectProcessed_flight:
  "objectsInFlight (onObjectProcessed s v) = objectsInFlight s"
  by (simp add: onObjectProcessed_def Let_def emit_def)

lemma simple_flight:
  "objectsInFlight (subscribe s sub now) = objectsInFlight s"
  "suspended (subscribe s sub now) = suspended s"
  "objectsInFlight (subscribeTarget s now) = objectsInFlight s"
  "suspended (subscribeTarget s now) = suspended s"
  "objectsInFlight (onSubscribe s sub) = objectsInFlight s"
  "suspended (onSubscribe s sub) = suspended s"
  "objectsInFlight (onHead s hdr) = objectsInFlight s"
  "suspended (onHead s hdr) = suspended s"
  "objectsInFlight (removeTransaction s tx) = objectsInFlight s"
  "suspended (removeTransaction s tx) = suspended s"
  "objectsInFlight (requestHead s) = objectsInFlight s"
  "suspended (requestHead s) = suspended s"
  "objectsInFlight (snd (relayBlock s b)) = objectsInFlight s"
  "suspended (snd (relayBlock s b)) = suspended s"
  "objectsInFlight (snd (relayTransaction s tx)) = objectsInFlight s"
  "suspended (snd (relayTransaction s tx)) = suspended s"
  "objectsInFlight (sendWaitingInvVectors s) = objectsInFlight s"
  "suspended (sendWaitingInvVectors s) = suspended s"
  "objectsInFlight (sendFreeWaitingInvVectors s) = objectsInFlight s"
  "suspended (sendFreeWaitingInvVectors s) = suspended s"
  "objectsInFlight (shutdown s) = objectsInFlight s"
  "suspended (shutdown s) = suspended s"
  "objectsInFlight (onClose s) = objectsInFlight s"
  "suspended (onClose s) = suspended s"
  by (simp_all add: subscribe_def subscribeTarget_def p_subscribe_def
      onSubscribe_def onHead_def onHeadUpdated_def removeTransaction_def requestHead_def
      relayBlock_def relayTransaction_def sendWaitingInvVectors_def
      sendFreeWaitingInvVectors_def shutdown_def onClose_def p_shutdown_def
      Let_def basic_defs split: prod.splits)

lemma proof_flight:
  "objectsInFlight (orElse (p_getBlockProof s h kb r) s) = objectsInFlight s"
  "suspended (orElse (p_getBlockProof s h kb r) s) = suspended s"
  "objectsInFlight (orElse (p_getBlockProofAt s n kb r) s) = objectsInFlight s"
  "suspended (orElse (p_getBlockProofAt s n kb r) s) = suspended s"
  "objectsInFlight (blockProofTimeout s) = objectsInFlight s"
  "suspended (blockProofTimeout s) = suspended s"
  "objectsInFlight (onBlockProof il pv bv s m) = objectsInFlight s"
  "suspended (onBlockProof il pv bv s m) = suspended s"
  "objectsInFlight (orElse (p_getTransactionsProofByAddresses s b as r) s) = objectsInFlight s"
  "suspended (orElse (p_getTransactionsProofByAddresses s b as r) s) = suspended s"
  "objectsInFlight (orElse (p_getTransactionsProofByHashes s b hs r) s) = objectsInFlight s"
  "suspended (orElse (p_getTransactionsProofByHashes s b hs r) s) = suspended s"
  "objectsInFlight (transactionsProofTimeout s) = objectsInFlight s"
  "suspended (transactionsProofTimeout s) = suspended s"
  "objectsInFlight (onTransactionsProof s msg) = objectsInFlight s"
  "suspended (onTransactionsProof s msg) = suspended s"
  "objectsInFlight (orElse (p_getTransactionReceiptsByAddress s a r) s) = objectsInFlight s"
  "suspended (orElse (p_getTransactionReceiptsByAddress s a r) s) = suspended s"
  "objectsInFlight (orElse (p_getTransactionReceiptsByHashes s hs r) s) = objectsInFlight s"
  "suspended (orElse (p_getTransactionReceiptsByHashes s hs r) s) = suspended s"
  "objectsInFlight (transactionReceiptsTimeout s) = objectsInFlight s"
  "suspended (transactionReceiptsTimeout s) = suspended s"
  "objectsInFlight (onTransactionReceipts s rs) = objectsInFlight s"
  "suspended (onTransactionReceipts s rs) = suspended s"
  by (simp_all add: orElse_def p_getBlockProof_def p_getBlockProofAt_def
      blockProofTimeout_def onBlockProof_def p_getTransactionsProofByAddresses_def
      p_getTransactionsProofByHashes_def transactionsProofTimeout_def onTransactionsProof_def
      p_getTransactionReceiptsByAddress_def p_getTransactionReceiptsByHashes_def
      transactionReceiptsTimeout_def onTransactionReceipts_def Let_def emit_def
      split: option.splits)

lemma requestVector_solicited: "solicited s v \<Longrightarrow> solicited (requestVector s vs) v"
proof -
  assume a: "solicited s v"
  let ?s3 = "clearTimeout K_inv
     (s\<lparr>blocksToRequest := uq_enqueueAll inv_hashCode (blocksToRequest s)
                               (filter (\<lambda>v. vtype v = BLOCK) vs),
        txsToRequest := tq_enqueueAll inv_hashCode (txsToRequest s)
                               (filter (\<lambda>v. vtype v = TRANSACTION) vs)\<rparr>)"
  have e: "solicited ?s3 v"
    using a by (simp add: solicited_def clearTimeout_def)
  have c: "requestVector s vs = requestData ?s3
         \<or> requestVector s vs = setTimeout K_inv CbRequestData REQUEST_THROTTLE ?s3"
    by (simp add: requestVector_def Let_def)
  have t: "solicited (setTimeout K_inv CbRequestData REQUEST_THROTTLE ?s3) v"
    using a by (simp add: solicited_def setTimeout_def clearTimeout_def)
  from c t requestData_solicited [OF e] show ?thesis by auto
qed

lemma requestVector_suspended: "suspended (requestVector s vs) = suspended s"
  by (simp add: requestVector_def requestData_frame Let_def basic_defs)

lemma onInv_track_flight:
  "objectsInFlight (foldl onInv_track s vs) = objectsInFlight s"
  "suspended (foldl onInv_track s vs) = suspended s"
  by (induction vs arbitrary: s; simp add: onInv_track_def Let_def)+

lemma onInv_check_flight:
  "objectsInFlight (fst (onInv_check known s vs ub ut)) = objectsInFlight s"
  "suspended (fst (onInv_check known s vs ub ut)) = suspended s"
  by (induction known s vs ub ut rule: onInv_check.induct;
      simp add: emit_def hs_contains_def split: InvVectorType.splits)+

lemma pp_onInv_flight:
  "objectsInFlight (pp_onInv known s vs) = objectsInFlight s"
  "suspended (pp_onInv known s vs) = suspended s"
proof -
  obtain s2 ub ut where c: "onInv_check known (foldl onInv_track s vs) vs [] [] = (s2, ub, ut)"
    by (cases "onInv_check known (foldl onInv_track s vs) vs [] []") auto
  have s2: "s2 = fst (onInv_check known (foldl onInv_track s vs) vs [] [])"
    using c by simp
  show "objectsInFlight (pp_onInv known s vs) = objectsInFlight s"
    by (simp add: pp_onInv_def c Let_def basic_defs) (simp add: s2 onInv_check_flight onInv_track_flight)
  show "suspended (pp_onInv known s vs) = suspended s"
    by (simp add: pp_onInv_def c Let_def basic_defs) (simp add: s2 onInv_check_flight onInv_track_flight)
qed

lemma markKnown_flight:
  "objectsInFlight (markKnown s vs) = objectsInFlight s"
  "suspended (markKnown s vs) = suspended s"
  by (induction vs arbitrary: s; simp add: markKnown_def)+

lemma inventory_flight:
  "objectsInFlight (onGetData found s vs) = objectsInFlight s"
  "suspended (onGetData found s vs) = suspended s"
  "objectsInFlight (onGetHeader found s vs) = objectsInFlight s"
  "suspended (onGetHeader found s vs) = suspended s"
  by (auto simp: onGetData_def onGetHeader_def Let_def basic_defs markKnown_flight
      split: prod.splits)

lemma header_resume_flight:
  "objectsInFlight (onHeader_resume s hdr) = objectsInFlight s"
  "suspended (onHeader_resume s hdr) = suspended s"
  "objectsInFlight (onBlock_resume s b) = objectsInFlight s"
  "suspended (onBlock_resume s b) = suspended s"
  by (simp_all add: onHeader_resume_def onBlock_resume_def Let_def emit_def
      onObjectProcessed_frame onObjectProcessed_flight)

lemma awaitsTx_mono:
  assumes "set (suspended s) \<subseteq> set (suspended s')" and "awaitsTx s h"
  shows "awaitsTx s' h"
  using assms unfolding awaitsTx_def by blast

lemma requestBlock_covered:
  assumes "txRequestsCovered s"
  shows "txRequestsCovered (requestBlock s h r)"
  using assms
proof (rule covered_step [where X = "{}"])
  fix h' :: Hash
  have p: "pendingRequests (requestBlock s h r) (InvVector TRANSACTION h')
             = pendingRequests s (InvVector TRANSACTION h')"
    by (simp add: requestBlock_def Let_def basic_defs split: option.splits)
  have f: "objectsInFlight (requestBlock s h r) = objectsInFlight s"
          "objectsThatFlew (requestBlock s h r) = objectsThatFlew s"
          "suspended (requestBlock s h r) = suspended s"
    by (simp_all add: requestBlock_def Let_def basic_defs split: option.splits)
  show "pendingRequests (requestBlock s h r) (InvVector TRANSACTION h') \<noteq> None \<Longrightarrow>
        pendingRequests s (InvVector TRANSACTION h') \<noteq> None"
    by (simp add: p)
  show "solicited s (InvVector TRANSACTION h') \<Longrightarrow>
        solicited (requestBlock s h r) (InvVector TRANSACTION h')"
    by (simp add: solicited_def f)
  show "awaitsTx s h' \<Longrightarrow> awaitsTx (requestBlock s h r) h'"
    by (simp add: awaitsTx_def f)
qed simp

lemma requestTransaction_fields:
  "h' \<noteq> h \<Longrightarrow> pendingRequests (requestTransaction s h r) (InvVector TRANSACTION h')
                  = pendingRequests s (InvVector TRANSACTION h')"
  "set (objectsInFlight s) \<subseteq> set (objectsInFlight (requestTransaction s h r))"
  "objectsThatFlew (requestTransaction s h r) = objectsThatFlew s"
  "suspended (requestTransaction s h r) = suspended s"
  "pendingRequests s (InvVector TRANSACTION h) = None \<Longrightarrow>
     InvVector TRANSACTION h \<in> set (objectsInFlight (requestTransaction s h r))"
  by (auto simp: requestTransaction_def Let_def basic_defs hs_add_def hs_contains_def
      split: option.splits)

lemma requestTransaction_covered:
  assumes c: "txRequestsCovered s"
  shows "txRequestsCovered (requestTransaction s h r)"
proof -
  have sol: "solicited s v \<Longrightarrow> solicited (requestTransaction s h r) v" for v
    using requestTransaction_fields(2) [of s h r]
    by (auto simp: solicited_def hs_contains_def requestTransaction_fields(3))
  have aw: "awaitsTx s h' \<Longrightarrow> awaitsTx (requestTransaction s h r) h'" for h'
    by (simp add: awaitsTx_def requestTransaction_fields(4))
  from c show ?thesis
  proof (rule covered_step [where X = "{h}"])
    fix h'
    assume "h' \<notin> {h}"
    then have ne: "h' \<noteq> h" by simp
    show "pendingRequests (requestTransaction s h r) (InvVector TRANSACTION h') \<noteq> None \<Longrightarrow>
          pendingRequests s (InvVector TRANSACTION h') \<noteq> None"
      by (simp add: requestTransaction_fields(1) [OF ne])
    show "solicited s (InvVector TRANSACTION h') \<Longrightarrow>
          solicited (requestTransaction s h r) (InvVector TRANSACTION h')"
      by (rule sol)
    show "awaitsTx s h' \<Longrightarrow> awaitsTx (requestTransaction s h r) h'"
      by (rule aw)
  next
    fix h'
    assume "h' \<in> {h}"
    then have e: "h' = h" by simp
    show "solicited (requestTransaction s h r) (InvVector TRANSACTION h')
          \<or> awaitsTx (requestTransaction s h r) h'"
    proof (cases "pendingRequests s (InvVector TRANSACTION h) = None")
      case True
      from requestTransaction_fields(5) [OF True, of r] show ?thesis
        by (simp add: e solicited_def hs_contains_def)
    next
      case False
      with c have "solicited s (InvVector TRANSACTION h) \<or> awaitsTx s h"
        unfolding txRequestsCovered_def by blast
      then show ?thesis using sol aw e by blast
    qed
  qed
qed

lemma requestTimeout_fields:
  "pendingRequests (requestTimeout s v) w \<noteq> None \<Longrightarrow> pendingRequests s w \<noteq> None"
  "objectsInFlight (requestTimeout s v) = objectsInFlight s"
  "objectsThatFlew (requestTimeout s v) = objectsThatFlew s"
  "suspended (requestTimeout s v) = suspended s"
  by (auto simp: requestTimeout_def basic_defs split: option.splits if_splits)

lemma requestTimeout_covered:
  assumes "txRequestsCovered s"
  shows "txRequestsCovered (requestTimeout s v)"
  using assms
proof (rule covered_step [where X = "{}"])
  fix h :: Hash
  show "pendingRequests (requestTimeout s v) (InvVector TRANSACTION h) \<noteq> None \<Longrightarrow>
        pendingRequests s (InvVector TRANSACTION h) \<noteq> None"
    by (rule requestTimeout_fields(1))
  show "solicited s (InvVector TRANSACTION h) \<Longrightarrow>
        solicited (requestTimeout s v) (InvVector TRANSACTION h)"
    by (simp add: solicited_def requestTimeout_fields)
  show "awaitsTx s h \<Longrightarrow> awaitsTx (requestTimeout s v) h"
    by (simp add: awaitsTx_def requestTimeout_fields)
qed simp

lemma onBlock_fields:
  "pendingRequests (onBlock s b) (InvVector TRANSACTION h)
     = pendingRequests s (InvVector TRANSACTION h)"
  "solicited s (InvVector TRANSACTION h) \<Longrightarrow> solicited (onBlock s b) (InvVector TRANSACTION h)"
  "set (suspended s) \<subseteq> set (suspended (onBlock s b))"
proof -
  let ?v = "InvVector BLOCK (blk_hash b)"
  let ?s1 = "trackHead s (blk_hash b) (blk_header b)"
  let ?s2 = "onObjectReceived ?s1 ?v"
  have t: "solicited s w \<Longrightarrow> solicited ?s1 w" for w
    by (simp add: solicited_def trackHead_frame)
  have r: "solicited s (InvVector TRANSACTION h) \<Longrightarrow> solicited ?s2 (InvVector TRANSACTION h)"
    by (rule onObjectReceived_solicited [OF t]) simp_all
  show "pendingRequests (onBlock s b) (InvVector TRANSACTION h)
     = pendingRequests s (InvVector TRANSACTION h)"
    by (simp add: onBlock_def Let_def resolveAll_def basic_defs onObjectReceived_frame
        trackHead_frame split: option.splits)
  show "set (suspended s) \<subseteq> set (suspended (onBlock s b))"
    by (auto simp: onBlock_def Let_def resolveAll_def basic_defs onObjectReceived_frame
        trackHead_frame split: option.splits)
  assume a: "solicited s (InvVector TRANSACTION h)"
  have u: "solicited (s'\<lparr>objectsProcessing := x\<rparr>) w = solicited s' w" for s' x w
    by (simp add: solicited_def)
  show "solicited (onBlock s b) (InvVector TRANSACTION h)"
    using a r [OF a]
    by (simp add: onBlock_def Let_def resolveAll_def basic_defs solicited_def
        split: option.splits)
qed

lemma onHeader_fields:
  "solicited s (InvVector TRANSACTION h) \<Longrightarrow> solicited (onHeader s hdr) (InvVector TRANSACTION h)"
  "set (suspended s) \<subseteq> set (suspended (onHeader s hdr))"
proof -
  let ?v = "InvVector BLOCK (hdr_hash hdr)"
  let ?s1 = "trackHead s (hdr_hash hdr) hdr"
  let ?s2 = "onObjectReceived ?s1 ?v"
  have t: "solicited s w \<Longrightarrow> solicited ?s1 w" for w
    by (simp add: solicited_def trackHead_frame)
  have r: "solicited s (InvVector TRANSACTION h) \<Longrightarrow> solicited ?s2 (InvVector TRANSACTION h)"
    by (rule onObjectReceived_solicited [OF t]) simp_all
  show "set (suspended s) \<subseteq> set (suspended (onHeader s hdr))"
    by (auto simp: onHeader_def Let_def basic_defs onObjectReceived_frame trackHead_frame)
  assume a: "solicited s (InvVector TRANSACTION h)"
  show "solicited (onHeader s hdr) (InvVector TRANSACTION h)"
    using a r [OF a]
    by (simp add: onHeader_def Let_def basic_defs solicited_def)
qed

lemma onBlock_covered:
  assumes "txRequestsCovered s"
  shows "txRequestsCovered (onBlock s b)"
  using assms
proof (rule covered_step [where X = "{}"])
  fix h :: Hash
  show "pendingRequests (onBlock s b) (InvVector TRANSACTION h) \<noteq> None \<Longrightarrow>
        pendingRequests s (InvVector TRANSACTION h) \<noteq> None"
    by (simp add: onBlock_fields(1))
  show "solicited s (InvVector TRANSACTION h) \<Longrightarrow> solicited (onBlock s b) (InvVector TRANSACTION h)"
    by (rule onBlock_fields(2))
  show "awaitsTx s h \<Longrightarrow> awaitsTx (onBlock s b) h"
    by (rule awaitsTx_mono [OF onBlock_fields(3)])
qed simp

lemma onHeader_covered:
  assumes "txRequestsCovered s"
  shows "txRequestsCovered (onHeader s hdr)"
  using assms
proof (rule covered_step [where X = "{}"])
  fix h :: Hash
  show "pendingRequests (onHeader s hdr) (InvVector TRANSACTION h) \<noteq> None \<Longrightarrow>
        pendingRequests s (InvVector TRANSACTION h) \<noteq> None"
    by (simp add: header_frames(1))
  show "solicited s (InvVector TRANSACTION h) \<Longrightarrow>
        solicited (onHeader s hdr) (InvVector TRANSACTION h)"
    by (rule onHeader_fields(1))
  show "awaitsTx s h \<Longrightarrow> awaitsTx (onHeader s hdr) h"
    by (rule awaitsTx_mono [OF onHeader_fields(2)])
qed simp

lemma onTx_resume_fields:
  "pendingRequests (onTx_resume s tx now)
     = (pendingRequests s)(InvVector TRANSACTION (tx_hash tx) := None)"
  "objectsInFlight (onTx_resume s tx now) = objectsInFlight s"
  "objectsThatFlew (onTx_resume s tx now) = objectsThatFlew s"
  "suspended (onTx_resume s tx now) = suspended s"
  by (simp_all add: onTx_resume_def Let_def resolveAll_def basic_defs onObjectProcessed_frame
      onObjectProcessed_flight fun_upd_idem split: option.splits)

lemma onTx_covered:
  assumes c: "txRequestsCovered s"
  shows "txRequestsCovered (onTx s tx now)"
proof (cases "solicited s (InvVector TRANSACTION (tx_hash tx))")
  case False
  then have "onTx s tx now = emit (LogUnsolicited (InvVector TRANSACTION (tx_hash tx))) s"
    by (simp add: onTx_def solicited_def Let_def)
  with c show ?thesis
    by (simp add: txRequestsCovered_def solicited_def awaitsTx_def emit_def)
next
  case True
  let ?v = "InvVector TRANSACTION (tx_hash tx)"
  let ?s2 = "onObjectReceived (emit (NoteVectorReceived (fromTransaction tx)) s) ?v"
  let ?s3 = "?s2\<lparr>objectsProcessing := hs_add (objectsProcessing ?s2) ?v\<rparr>"
  have sol: "(\<not> hs_contains (objectsInFlight s) ?v \<and> \<not> hs_contains (objectsThatFlew s) ?v)
               = False"
    using True by (simp add: solicited_def)
  have p3: "pendingRequests ?s3 = pendingRequests s"
    by (simp add: onObjectReceived_frame emit_def)
  have u3: "suspended ?s3 = suspended s"
    by (simp add: onObjectReceived_frame emit_def)
  have f3: "solicited ?s3 w" if "solicited s w" and "w \<noteq> ?v" for w
  proof -
    have "solicited (emit (NoteVectorReceived (fromTransaction tx)) s) w"
      using that(1) by (simp add: solicited_def emit_def)
    from onObjectReceived_solicited [OF this that(2)] show ?thesis
      by (simp add: solicited_def)
  qed
  have cases: "onTx s tx now
                 = suspend (AfterProcessTransaction tx)
                     (emit (ProcessTransaction (tx_hash tx) tx) ?s3)
             \<or> onTx s tx now = onTx_resume ?s3 tx now"
    by (simp add: onTx_def sol Let_def)
  then show ?thesis
  proof
    assume e: "onTx s tx now
                 = suspend (AfterProcessTransaction tx)
                     (emit (ProcessTransaction (tx_hash tx) tx) ?s3)"
    have pe: "pendingRequests (onTx s tx now) = pendingRequests s"
      unfolding e using p3 by (simp add: suspend_def emit_def)
    have ue: "suspended (onTx s tx now) = suspended s @ [AfterProcessTransaction tx]"
      unfolding e using u3 by (simp add: suspend_def emit_def)
    have fe: "solicited (onTx s tx now) w = solicited ?s3 w" for w
      unfolding e by (simp add: solicited_def suspend_def emit_def)
    from c show ?thesis
    proof (rule covered_step [where X = "{tx_hash tx}"])
      fix h
      assume "h \<notin> {tx_hash tx}"
      then have ne: "InvVector TRANSACTION h \<noteq> ?v" by simp
      show "pendingRequests (onTx s tx now) (InvVector TRANSACTION h) \<noteq> None \<Longrightarrow>
            pendingRequests s (InvVector TRANSACTION h) \<noteq> None"
        by (simp add: pe)
      show "solicited s (InvVector TRANSACTION h) \<Longrightarrow>
            solicited (onTx s tx now) (InvVector TRANSACTION h)"
        unfolding fe by (rule f3 [OF _ ne])
      show "awaitsTx s h \<Longrightarrow> awaitsTx (onTx s tx now) h"
        by (rule awaitsTx_mono) (auto simp: ue)
    next
      fix h
      assume "h \<in> {tx_hash tx}"
      then have "awaitsTx (onTx s tx now) h"
        unfolding awaitsTx_def ue by auto
      then show "solicited (onTx s tx now) (InvVector TRANSACTION h) \<or> awaitsTx (onTx s tx now) h"
        by simp
    qed
  next
    assume e: "onTx s tx now = onTx_resume ?s3 tx now"
    have pe: "pendingRequests (onTx s tx now) = (pendingRequests s)(?v := None)"
      using onTx_resume_fields(1) [of ?s3 tx now] p3 e by simp
    have ue: "suspended (onTx s tx now) = suspended s"
      using onTx_resume_fields(4) [of ?s3 tx now] u3 e by simp
    have fe: "solicited (onTx s tx now) w = solicited ?s3 w" for w
      using onTx_resume_fields(2,3) [of ?s3 tx now] e by (simp add: solicited_def)
    from c show ?thesis
    proof (rule covered_step [where X = "{tx_hash tx}"])
      fix h
      assume "h \<notin> {tx_hash tx}"
      then have ne: "InvVector TRANSACTION h \<noteq> ?v" by simp
      show "pendingRequests (onTx s tx now) (InvVector TRANSACTION h) \<noteq> None \<Longrightarrow>
            pendingRequests s (InvVector TRANSACTION h) \<noteq> None"
        using ne by (simp add: pe)
      show "solicited s (InvVector TRANSACTION h) \<Longrightarrow>
            solicited (onTx s tx now) (InvVector TRANSACTION h)"
        unfolding fe by (rule f3 [OF _ ne])
      show "awaitsTx s h \<Longrightarrow> awaitsTx (onTx s tx now) h"
        by (simp add: awaitsTx_def ue)
    next
      fix h
      assume "h \<in> {tx_hash tx}" and "pendingRequests (onTx s tx now) (InvVector TRANSACTION h) \<noteq> None"
      then have False by (simp add: pe)
      then show "solicited (onTx s tx now) (InvVector TRANSACTION h) \<or> awaitsTx (onTx s tx now) h" ..
    qed
  qed
qed

lemma resume_covered:
  assumes c: "txRequestsCovered s"
  shows "txRequestsCovered (resume s k now)"
proof (cases "k \<in> set (suspended s)")
  case False
  then show ?thesis using c by (simp add: resume_def)
next
  case True
  let ?s1 = "s\<lparr>suspended := remove1 k (suspended s)\<rparr>"
  have keep: "AfterProcessTransaction t \<in> set (suspended ?s1)"
    if "AfterProcessTransaction t \<in> set (suspended s)" and "AfterProcessTransaction t \<noteq> k" for t
    using that by simp
  show ?thesis
  proof (cases k)
    case (AfterProcessBlock b)
    have r: "resume s k now = onBlock_resume ?s1 b"
      using True AfterProcessBlock by (simp add: resume_def Let_def)
    from c show ?thesis
    proof (rule covered_step [where X = "{}"])
      fix h :: Hash
      show "pendingRequests (resume s k now) (InvVector TRANSACTION h) \<noteq> None \<Longrightarrow>
            pendingRequests s (InvVector TRANSACTION h) \<noteq> None"
        by (simp add: r header_frames)
      show "solicited s (InvVector TRANSACTION h) \<Longrightarrow>
            solicited (resume s k now) (InvVector TRANSACTION h)"
        by (simp add: r solicited_def header_frames header_resume_flight)
      show "awaitsTx s h \<Longrightarrow> awaitsTx (resume s k now) h"
        unfolding awaitsTx_def r header_resume_flight
        using keep AfterProcessBlock by blast
    qed simp
  next
    case (AfterProcessHeader hdr)
    have r: "resume s k now = onHeader_resume ?s1 hdr"
      using True AfterProcessHeader by (simp add: resume_def Let_def)
    from c show ?thesis
    proof (rule covered_step [where X = "{}"])
      fix h :: Hash
      show "pendingRequests (resume s k now) (InvVector TRANSACTION h) \<noteq> None \<Longrightarrow>
            pendingRequests s (InvVector TRANSACTION h) \<noteq> None"
        by (simp add: r header_frames)
      show "solicited s (InvVector TRANSACTION h) \<Longrightarrow>
            solicited (resume s k now) (InvVector TRANSACTION h)"
        by (simp add: r solicited_def header_frames header_resume_flight)
      show "awaitsTx s h \<Longrightarrow> awaitsTx (resume s k now) h"
        unfolding awaitsTx_def r header_resume_flight
        using keep AfterProcessHeader by blast
    qed simp
  next
    case (AfterProcessTransaction tx)
    have r: "resume s k now = onTx_resume ?s1 tx now"
      using True AfterProcessTransaction by (simp add: resume_def Let_def)
    from c show ?thesis
    proof (rule covered_step [where X = "{tx_hash tx}"])
      fix h
      assume "h \<notin> {tx_hash tx}"
      then have ne: "h \<noteq> tx_hash tx" by simp
      show "pendingRequests (resume s k now) (InvVector TRANSACTION h) \<noteq> None \<Longrightarrow>
            pendingRequests s (InvVector TRANSACTION h) \<noteq> None"
        using ne by (simp add: r onTx_resume_fields(1))
      show "solicited s (InvVector TRANSACTION h) \<Longrightarrow>
            solicited (resume s k now) (InvVector TRANSACTION h)"
        by (simp add: r solicited_def onTx_resume_fields)
      show "awaitsTx s h \<Longrightarrow> awaitsTx (resume s k now) h"
        unfolding awaitsTx_def r onTx_resume_fields(4)
        using keep AfterProcessTransaction ne by blast
    next
      fix h
      assume "h \<in> {tx_hash tx}"
         and "pendingRequests (resume s k now) (InvVector TRANSACTION h) \<noteq> None"
      then have False by (simp add: r onTx_resume_fields(1))
      then show "solicited (resume s k now) (InvVector TRANSACTION h) \<or> awaitsTx (resume s k now) h" ..
    qed
  qed
qed

lemma onNotFound_vector_solicited:
  assumes "solicited s w" and "w \<noteq> v"
  shows "solicited (onNotFound_vector s v) w"
proof -
  obtain s1 where s1: "s1 = (case pendingRequests s v of
               None \<Rightarrow> s
             | Some reqs \<Rightarrow>
                 emitAll (map (\<lambda>r. Reject r ''Not found'') reqs)
                   (clearTimeout (requestTimerKey v)
                     (s\<lparr>pendingRequests := (pendingRequests s)(v := None)\<rparr>)))"
    by blast
  have a1: "solicited s1 w"
    unfolding s1 using assms(1) by (simp add: solicited_def basic_defs split: option.splits)
  have e: "onNotFound_vector s v
             = (if \<not> hs_contains (objectsInFlight s1) v then s1
                else onObjectReceived (emit (NoteVectorNotReceived v) s1) v)"
    unfolding s1
    by (cases "pendingRequests s v") (simp_all add: onNotFound_vector_def Let_def)
  have "solicited (emit (NoteVectorNotReceived v) s1) w"
    using a1 by (simp add: solicited_def emit_def)
  from onObjectReceived_solicited [OF this assms(2)] a1 show ?thesis
    unfolding e by simp
qed

lemma onNotFound_vector_suspended: "suspended (onNotFound_vector s v) = suspended s"
  by (simp add: onNotFound_vector_def Let_def basic_defs onObjectReceived_frame
      split: option.splits)

lemma onNotFound_vector_covered:
  assumes c: "txRequestsCovered s"
  shows "txRequestsCovered (onNotFound_vector s v)"
  using c
proof (rule covered_step [where X = "{h. InvVector TRANSACTION h = v}"])
  fix h
  assume "h \<notin> {h. InvVector TRANSACTION h = v}"
  then have ne: "InvVector TRANSACTION h \<noteq> v" by simp
  show "pendingRequests (onNotFound_vector s v) (InvVector TRANSACTION h) \<noteq> None \<Longrightarrow>
        pendingRequests s (InvVector TRANSACTION h) \<noteq> None"
    using ne by (simp add: onNotFound_vector_pending)
  show "solicited s (InvVector TRANSACTION h) \<Longrightarrow>
        solicited (onNotFound_vector s v) (InvVector TRANSACTION h)"
    by (rule onNotFound_vector_solicited [OF _ ne])
  show "awaitsTx s h \<Longrightarrow> awaitsTx (onNotFound_vector s v) h"
    by (simp add: awaitsTx_def onNotFound_vector_suspended)
next
  fix h
  assume "h \<in> {h. InvVector TRANSACTION h = v}"
     and "pendingRequests (onNotFound_vector s v) (InvVector TRANSACTION h) \<noteq> None"
  then have False by (simp add: onNotFound_vector_pending)
  then show "solicited (onNotFound_vector s v) (InvVector TRANSACTION h)
             \<or> awaitsTx (onNotFound_vector s v) h" ..
qed

lemma onNotFound_covered:
  "txRequestsCovered s \<Longrightarrow> txRequestsCovered (onNotFound s vs)"
proof (induction vs arbitrary: s)
  case Nil
  then show ?case by (simp add: onNotFound_def)
next
  case (Cons v vs)
  from Cons.IH [OF onNotFound_vector_covered [OF Cons.prems]] show ?case
    by (simp add: onNotFound_def)
qed

lemma runCallback_covered:
  assumes c: "txRequestsCovered s"
  shows "txRequestsCovered (runCallback s cb)"
proof (cases cb)
  case CbRequestData
  from c have "txRequestsCovered (requestData s)"
    by (rule covered_same) (simp_all add: requestData_frame requestData_solicited)
  then show ?thesis using CbRequestData by (simp add: runCallback_def)
next
  case CbNoMoreData
  from c have "txRequestsCovered (noMoreData s)"
    by (rule covered_same) (simp_all add: noMoreData_frame noMoreData_solicited)
  then show ?thesis using CbNoMoreData by (simp add: runCallback_def)
next
  case CbRequestHead
  from c have "txRequestsCovered (requestHead s)"
    by (rule covered_same) (simp_all add: simple_frames simple_flight solicited_def)
  then show ?thesis using CbRequestHead by (simp add: runCallback_def)
next
  case (CbRequestTimeout v)
  then show ?thesis using requestTimeout_covered [OF c] by (simp add: runCallback_def)
next
  case (CbKnowsObject v)
  from c have "txRequestsCovered
                 (s\<lparr>knownObjects := lihs_add KNOWN_OBJECTS_COUNT_MAX (knownObjects s) v\<rparr>)"
    by (rule covered_same) (simp_all add: solicited_def)
  then show ?thesis using CbKnowsObject by (simp add: runCallback_def)
qed

lemma fireTimeout_covered:
  assumes c: "txRequestsCovered s"
  shows "txRequestsCovered (fireTimeout s k)"
proof (cases "timers s k")
  case None
  then show ?thesis using c by (simp add: fireTimeout_def)
next
  case (Some cbd)
  obtain cb d where cbd: "cbd = (cb, d)" by (cases cbd)
  from c have "txRequestsCovered (s\<lparr>timers := (timers s)(k := None)\<rparr>)"
    by (rule covered_same) (simp_all add: solicited_def)
  from runCallback_covered [OF this, of cb] show ?thesis
    using Some cbd by (simp add: fireTimeout_def)
qed

lemma covered_fields:
  assumes "txRequestsCovered s"
      and "pendingRequests s' = pendingRequests s"
      and "objectsInFlight s' = objectsInFlight s"
      and "objectsThatFlew s' = objectsThatFlew s"
      and "suspended s' = suspended s"
  shows "txRequestsCovered s'"
  using assms(1,2) _ assms(5)
  by (rule covered_same) (simp add: solicited_def assms(3,4))

lemma step_covered:
  assumes c: "txRequestsCovered s"
  shows "txRequestsCovered (step s ev)"
proof (cases ev)
  case (EvRequestBlock h r)
  then show ?thesis using requestBlock_covered [OF c] by simp
next
  case (EvRequestTransaction h r)
  then show ?thesis using requestTransaction_covered [OF c] by simp
next
  case (EvOnBlock b)
  then show ?thesis using onBlock_covered [OF c] by simp
next
  case (EvOnHeader hdr)
  then show ?thesis using onHeader_covered [OF c] by simp
next
  case (EvOnTx tx now)
  then show ?thesis using onTx_covered [OF c] by simp
next
  case (EvResume k now)
  then show ?thesis using resume_covered [OF c] by simp
next
  case (EvOnNotFound vs)
  then show ?thesis using onNotFound_covered [OF c] by simp
next
  case (EvFireTimeout k)
  then show ?thesis using fireTimeout_covered [OF c] by simp
next
  case (EvRequestVector vs)
  from c have "txRequestsCovered (requestVector s vs)"
    by (rule covered_same)
       (simp_all add: requestVector_frame requestVector_solicited requestVector_suspended)
  then show ?thesis using EvRequestVector by simp
qed (simp_all add: covered_fields [OF c] simple_frames simple_flight relay_frames send_frames
      pp_onInv_frame pp_onInv_flight onGetData_frame onGetHeader_frame inventory_flight
      blockProof_frames transactionsProof_frames transactionReceipts_frames proof_flight
      shutdown_frames)

lemma newAgent_covered: "txRequestsCovered (newAgent hh ver tgt mx hdrs should pol)"
  by (simp add: txRequestsCovered_def newAgent_def)

lemma run_covered:
  assumes "txRequestsCovered s"
  shows "txRequestsCovered (run s evs)"
proof (induction evs rule: rev_induct)
  case Nil
  show ?case using assms by (simp add: run_def)
next
  case (snoc ev evs)
  from step_covered [OF snoc.IH, of ev] show ?case by (simp add: run_snoc)
qed

lemma reachable_covered:
  assumes "s = run (newAgent hh ver tgt mx hdrs should pol) evs"
      and "pendingRequests s (InvVector TRANSACTION h) = Some rs"
  shows "hs_contains (objectsInFlight s) (InvVector TRANSACTION h)
       \<or> hs_contains (objectsThatFlew s) (InvVector TRANSACTION h)
       \<or> (\<exists>tx. tx_hash tx = h \<and> AfterProcessTransaction tx \<in> set (suspended s))"
proof -
  have "txRequestsCovered s"
    unfolding assms(1) using newAgent_covered by (rule run_covered)
  with assms(2) show ?thesis
    by (auto simp: txRequestsCovered_def solicited_def awaitsTx_def)
qed

subsection \<open>A waiting request keeps its timer until the agent is shut down\<close>

lemma requestTimerKey_inj: "(requestTimerKey v = requestTimerKey w) = (v = w)"
  by (cases v; cases w) (auto simp: requestTimerKey_def split: InvVectorType.splits)

lemma isRequestKey_requestTimerKey: "isRequestKey (requestTimerKey v)"
  by (cases v) (simp add: requestTimerKey_def split: InvVectorType.splits)

lemma isRequestKey_cases:
  assumes "isRequestKey k"
  obtains v where "k = requestTimerKey v"
proof (cases k)
  case (K_block_request h)
  then have "k = requestTimerKey (InvVector BLOCK h)" by (simp add: requestTimerKey_def)
  then show ?thesis by (rule that)
next
  case (K_tx_request h)
  then have "k = requestTimerKey (InvVector TRANSACTION h)" by (simp add: requestTimerKey_def)
  then show ?thesis by (rule that)
qed (use assms in simp_all)

lemma isRequestKey_not_getData: "isRequestKey k \<Longrightarrow> k \<noteq> K_getData"
  by (cases k) simp_all

lemma timersArmedD1:
  assumes "timersArmed s" and "pendingRequests s v \<noteq> None"
  shows "timers s (requestTimerKey v) = Some (CbRequestTimeout v, REQUEST_TIMEOUT)"
  using assms unfolding timersArmed_def by blast

lemma timersArmedD2:
  assumes "timersArmed s" and "timers s (requestTimerKey v) = Some (cb, d)"
  shows "cb = CbRequestTimeout v"
  using assms unfolding timersArmed_def by blast

lemma timersArmedI:
  assumes "\<And>v. pendingRequests s v \<noteq> None \<Longrightarrow>
                timers s (requestTimerKey v) = Some (CbRequestTimeout v, REQUEST_TIMEOUT)"
      and "\<And>v cb d. timers s (requestTimerKey v) = Some (cb, d) \<Longrightarrow> cb = CbRequestTimeout v"
  shows "timersArmed s"
  using assms unfolding timersArmed_def by blast

lemma armed_update:
  assumes c: "timersArmed s"
      and p: "\<And>w. w \<noteq> v \<Longrightarrow> pendingRequests s' w = pendingRequests s w"
      and t: "\<And>w. w \<noteq> v \<Longrightarrow> timers s' (requestTimerKey w) = timers s (requestTimerKey w)"
      and a: "pendingRequests s' v \<noteq> None \<Longrightarrow>
                timers s' (requestTimerKey v) = Some (CbRequestTimeout v, REQUEST_TIMEOUT)"
      and b: "\<And>cb d. timers s' (requestTimerKey v) = Some (cb, d) \<Longrightarrow> cb = CbRequestTimeout v"
  shows "timersArmed s'"
proof (rule timersArmedI)
  fix w
  assume n: "pendingRequests s' w \<noteq> None"
  show "timers s' (requestTimerKey w) = Some (CbRequestTimeout w, REQUEST_TIMEOUT)"
  proof (cases "w = v")
    case True
    from a n show ?thesis unfolding True by blast
  next
    case False
    from n have "pendingRequests s w \<noteq> None"
      unfolding p [OF False] .
    from timersArmedD1 [OF c this] show ?thesis
      unfolding t [OF False] .
  qed
next
  fix w cb d
  assume n: "timers s' (requestTimerKey w) = Some (cb, d)"
  show "cb = CbRequestTimeout w"
  proof (cases "w = v")
    case True
    from b n show ?thesis unfolding True by blast
  next
    case False
    from n have "timers s (requestTimerKey w) = Some (cb, d)"
      unfolding t [OF False] .
    then show ?thesis by (rule timersArmedD2 [OF c])
  qed
qed

lemma armed_same:
  assumes c: "timersArmed s"
      and p: "pendingRequests s' = pendingRequests s"
      and t: "\<And>k. isRequestKey k \<Longrightarrow> timers s' k = timers s k"
  shows "timersArmed s'"
proof (rule timersArmedI)
  fix w
  assume "pendingRequests s' w \<noteq> None"
  then have "pendingRequests s w \<noteq> None"
    unfolding p .
  from timersArmedD1 [OF c this] show "timers s' (requestTimerKey w) = Some (CbRequestTimeout w, REQUEST_TIMEOUT)"
    unfolding t [OF isRequestKey_requestTimerKey] .
next
  fix w cb d
  assume "timers s' (requestTimerKey w) = Some (cb, d)"
  then have "timers s (requestTimerKey w) = Some (cb, d)"
    unfolding t [OF isRequestKey_requestTimerKey] .
  then show "cb = CbRequestTimeout w" by (rule timersArmedD2 [OF c])
qed

lemma simple_timers:
  assumes "isRequestKey k"
  shows "timers (subscribe s sub now) k = timers s k"
    and "timers (subscribeTarget s now) k = timers s k"
    and "timers (onSubscribe s sub) k = timers s k"
    and "timers (onHead s hdr) k = timers s k"
    and "timers (removeTransaction s tx) k = timers s k"
    and "timers (requestHead s) k = timers s k"
    and "timers (snd (relayBlock s b)) k = timers s k"
    and "timers (snd (relayTransaction s tx)) k = timers s k"
    and "timers (sendWaitingInvVectors s) k = timers s k"
    and "timers (sendFreeWaitingInvVectors s) k = timers s k"
    and "timers (trackHead s h hdr) k = timers s k"
  using assms
  by (cases k;
      simp add: subscribe_def subscribeTarget_def p_subscribe_def
        onSubscribe_def onHead_def onHeadUpdated_def removeTransaction_def requestHead_def
        relayBlock_def relayTransaction_def sendWaitingInvVectors_def
        sendFreeWaitingInvVectors_def trackHead_def Let_def basic_defs split: prod.splits)+

lemma proof_timers:
  "timers (orElse (p_getBlockProof s h kb r) s) = timers s"
  "timers (orElse (p_getBlockProofAt s n kb r) s) = timers s"
  "timers (blockProofTimeout s) = timers s"
  "timers (onBlockProof il pv bv s m) = timers s"
  "timers (orElse (p_getTransactionsProofByAddresses s b as r) s) = timers s"
  "timers (orElse (p_getTransactionsProofByHashes s b hs r) s) = timers s"
  "timers (transactionsProofTimeout s) = timers s"
  "timers (onTransactionsProof s msg) = timers s"
  "timers (orElse (p_getTransactionReceiptsByAddress s a r) s) = timers s"
  "timers (orElse (p_getTransactionReceiptsByHashes s hs r) s) = timers s"
  "timers (transactionReceiptsTimeout s) = timers s"
  "timers (onTransactionReceipts s rs) = timers s"
  by (simp_all add: orElse_def p_getBlockProof_def p_getBlockProofAt_def
      blockProofTimeout_def onBlockProof_def p_getTransactionsProofByAddresses_def
      p_getTransactionsProofByHashes_def transactionsProofTimeout_def onTransactionsProof_def
      p_getTransactionReceiptsByAddress_def p_getTransactionReceiptsByHashes_def
      transactionReceiptsTimeout_def onTransactionReceipts_def Let_def emit_def
      split: option.splits)

lemma requestVector_timers:
  assumes "isRequestKey k"
  shows "timers (requestVector s vs) k = timers s k"
  using assms isRequestKey_not_getData [OF assms]
  by (cases k; simp add: requestVector_def requestData_timers Let_def basic_defs)

lemma onInv_track_timers: "timers (foldl onInv_track s vs) = timers s"
  by (induction vs arbitrary: s) (simp_all add: onInv_track_def Let_def)

lemma onInv_check_timers: "timers (fst (onInv_check known s vs ub ut)) = timers s"
  by (induction known s vs ub ut rule: onInv_check.induct)
     (simp_all add: emit_def hs_contains_def split: InvVectorType.splits)

lemma pp_onInv_timers: "timers (pp_onInv known s vs) = timers s"
proof -
  obtain s2 ub ut where c: "onInv_check known (foldl onInv_track s vs) vs [] [] = (s2, ub, ut)"
    by (cases "onInv_check known (foldl onInv_track s vs) vs [] []") auto
  have s2: "s2 = fst (onInv_check known (foldl onInv_track s vs) vs [] [])"
    using c by simp
  show ?thesis
    by (simp add: pp_onInv_def c Let_def basic_defs) (simp add: s2 onInv_check_timers onInv_track_timers)
qed

lemma markKnown_timers: "timers (markKnown s vs) = timers s"
  by (induction vs arbitrary: s) (simp_all add: markKnown_def)

lemma inventory_timers:
  "timers (onGetData found s vs) = timers s"
  "timers (onGetHeader found s vs) = timers s"
  by (auto simp: onGetData_def onGetHeader_def Let_def basic_defs markKnown_timers
      split: prod.splits)

lemma header_timers:
  assumes "isRequestKey k"
  shows "timers (onHeader s hdr) k = timers s k"
    and "timers (onHeader_resume s hdr) k = timers s k"
    and "timers (onBlock_resume s b) k = timers s k"
  using isRequestKey_not_getData [OF assms]
  by (simp_all add: onHeader_def onHeader_resume_def onBlock_resume_def Let_def emit_def
      suspend_def onObjectReceived_timers onObjectProcessed_frame simple_timers [OF assms])

lemma requestTimerKey_simps:
  "requestTimerKey (InvVector BLOCK h) = K_block_request h"
  "requestTimerKey (InvVector TRANSACTION h) = K_tx_request h"
  by (simp_all add: requestTimerKey_def)

lemma requestBlock_armed:
  assumes c: "timersArmed s"
  shows "timersArmed (requestBlock s h r)"
proof -
  let ?v = "InvVector BLOCK h"
  have k: "K_block_request h = requestTimerKey ?v" by (simp add: requestTimerKey_def)
  have old: "pendingRequests s ?v \<noteq> None \<Longrightarrow>
               timers s (requestTimerKey ?v) = Some (CbRequestTimeout ?v, REQUEST_TIMEOUT)"
    by (rule timersArmedD1 [OF c])
  from c show ?thesis
  proof (rule armed_update [where v = ?v])
    fix w
    assume ne: "w \<noteq> ?v"
    then have nk: "requestTimerKey w \<noteq> K_block_request h"
      unfolding k by (simp add: requestTimerKey_inj)
    show "pendingRequests (requestBlock s h r) w = pendingRequests s w"
      using ne by (simp add: requestBlock_def Let_def basic_defs split: option.splits)
    show "timers (requestBlock s h r) (requestTimerKey w) = timers s (requestTimerKey w)"
      using nk by (simp add: requestBlock_def Let_def basic_defs split: option.splits)
  next
    show "timers (requestBlock s h r) (requestTimerKey ?v)
            = Some (CbRequestTimeout ?v, REQUEST_TIMEOUT)"
      using old
      by (simp add: requestBlock_def Let_def basic_defs requestTimerKey_simps
          split: option.splits)
    then show "cb = CbRequestTimeout ?v"
      if "timers (requestBlock s h r) (requestTimerKey ?v) = Some (cb, d)" for cb d
      using that by simp
  qed
qed

lemma requestTransaction_armed:
  assumes c: "timersArmed s"
  shows "timersArmed (requestTransaction s h r)"
proof -
  let ?v = "InvVector TRANSACTION h"
  have k: "K_tx_request h = requestTimerKey ?v" by (simp add: requestTimerKey_def)
  have old: "pendingRequests s ?v \<noteq> None \<Longrightarrow>
               timers s (requestTimerKey ?v) = Some (CbRequestTimeout ?v, REQUEST_TIMEOUT)"
    by (rule timersArmedD1 [OF c])
  from c show ?thesis
  proof (rule armed_update [where v = ?v])
    fix w
    assume ne: "w \<noteq> ?v"
    then have nk: "requestTimerKey w \<noteq> K_tx_request h"
      unfolding k by (simp add: requestTimerKey_inj)
    show "pendingRequests (requestTransaction s h r) w = pendingRequests s w"
      using ne by (simp add: requestTransaction_def Let_def basic_defs split: option.splits)
    show "timers (requestTransaction s h r) (requestTimerKey w) = timers s (requestTimerKey w)"
      using nk by (simp add: requestTransaction_def Let_def basic_defs split: option.splits)
  next
    show "timers (requestTransaction s h r) (requestTimerKey ?v)
            = Some (CbRequestTimeout ?v, REQUEST_TIMEOUT)"
      using old
      by (simp add: requestTransaction_def Let_def basic_defs requestTimerKey_simps
          split: option.splits)
    then show "cb = CbRequestTimeout ?v"
      if "timers (requestTransaction s h r) (requestTimerKey ?v) = Some (cb, d)" for cb d
      using that by simp
  qed
qed

lemma requestTimeout_fields2:
  "pendingRequests (requestTimeout s v) = (pendingRequests s)(v := None)"
  "timers (requestTimeout s v) = timers s"
  by (simp_all add: requestTimeout_def basic_defs fun_upd_idem split: option.splits)

lemma requestTimeout_armed:
  assumes c: "timersArmed s"
  shows "timersArmed (requestTimeout s v)"
  using c
proof (rule armed_update [where v = v])
  fix w
  assume "w \<noteq> v"
  then show "pendingRequests (requestTimeout s v) w = pendingRequests s w"
    by (simp add: requestTimeout_fields2)
  show "timers (requestTimeout s v) (requestTimerKey w) = timers s (requestTimerKey w)"
    by (simp add: requestTimeout_fields2)
next
  assume "pendingRequests (requestTimeout s v) v \<noteq> None"
  then have False by (simp add: requestTimeout_fields2)
  then show "timers (requestTimeout s v) (requestTimerKey v)
               = Some (CbRequestTimeout v, REQUEST_TIMEOUT)" ..
next
  fix cb d
  assume "timers (requestTimeout s v) (requestTimerKey v) = Some (cb, d)"
  then have "timers s (requestTimerKey v) = Some (cb, d)"
    by (simp add: requestTimeout_fields2)
  then show "cb = CbRequestTimeout v" by (rule timersArmedD2 [OF c])
qed

lemma settled_armed:
  assumes c: "timersArmed s"
      and p: "pendingRequests s' = (pendingRequests s)(v := None)"
      and t: "\<And>k. isRequestKey k \<Longrightarrow> k \<noteq> requestTimerKey v \<Longrightarrow> timers s' k = timers s k"
      and k: "timers s' (requestTimerKey v) = None
              \<or> timers s' (requestTimerKey v) = timers s (requestTimerKey v)"
  shows "timersArmed s'"
  using c
proof (rule armed_update [where v = v])
  fix w
  assume ne: "w \<noteq> v"
  then show "pendingRequests s' w = pendingRequests s w"
    by (simp add: p)
  from ne have "requestTimerKey w \<noteq> requestTimerKey v"
    by (simp add: requestTimerKey_inj)
  then show "timers s' (requestTimerKey w) = timers s (requestTimerKey w)"
    by (rule t [OF isRequestKey_requestTimerKey])
next
  assume "pendingRequests s' v \<noteq> None"
  then have False by (simp add: p)
  then show "timers s' (requestTimerKey v) = Some (CbRequestTimeout v, REQUEST_TIMEOUT)" ..
next
  fix cb d
  assume a: "timers s' (requestTimerKey v) = Some (cb, d)"
  with k have "timers s (requestTimerKey v) = Some (cb, d)" by auto
  then show "cb = CbRequestTimeout v" by (rule timersArmedD2 [OF c])
qed

lemma onBlock_armed:
  assumes c: "timersArmed s"
  shows "timersArmed (onBlock s b)"
  using c
proof (rule settled_armed [where v = "InvVector BLOCK (blk_hash b)"])
  show "pendingRequests (onBlock s b)
          = (pendingRequests s)(InvVector BLOCK (blk_hash b) := None)"
    by (simp add: onBlock_def Let_def resolveAll_def basic_defs onObjectReceived_frame
        trackHead_frame fun_upd_idem split: option.splits)
  fix k
  assume rk: "isRequestKey k" and ne: "k \<noteq> requestTimerKey (InvVector BLOCK (blk_hash b))"
  show "timers (onBlock s b) k = timers s k"
    using ne isRequestKey_not_getData [OF rk]
    by (simp add: onBlock_def Let_def resolveAll_def basic_defs requestTimerKey_simps
        onObjectReceived_timers simple_timers [OF rk] split: option.splits)
next
  have g: "requestTimerKey (InvVector BLOCK (blk_hash b)) \<noteq> K_getData"
    by (rule requestTimerKey_not_getData)
  show "timers (onBlock s b) (requestTimerKey (InvVector BLOCK (blk_hash b))) = None
      \<or> timers (onBlock s b) (requestTimerKey (InvVector BLOCK (blk_hash b)))
           = timers s (requestTimerKey (InvVector BLOCK (blk_hash b)))"
    using g
    by (simp add: onBlock_def Let_def resolveAll_def basic_defs requestTimerKey_simps
        onObjectReceived_timers simple_timers split: option.splits)
qed

lemma onTx_resume_timers:
  "k \<noteq> K_tx_request (tx_hash tx) \<Longrightarrow> timers (onTx_resume s tx now) k = timers s k"
  "timers (onTx_resume s tx now) (K_tx_request (tx_hash tx)) = None
   \<or> timers (onTx_resume s tx now) (K_tx_request (tx_hash tx))
        = timers s (K_tx_request (tx_hash tx))"
  by (simp_all add: onTx_resume_def Let_def resolveAll_def basic_defs onObjectProcessed_frame
      split: option.splits)

lemma onTx_resume_armed:
  assumes c: "timersArmed s"
  shows "timersArmed (onTx_resume s tx now)"
  using c
proof (rule settled_armed [where v = "InvVector TRANSACTION (tx_hash tx)"])
  show "pendingRequests (onTx_resume s tx now)
          = (pendingRequests s)(InvVector TRANSACTION (tx_hash tx) := None)"
    by (rule onTx_resume_fields(1))
  fix k
  assume "k \<noteq> requestTimerKey (InvVector TRANSACTION (tx_hash tx))"
  then show "timers (onTx_resume s tx now) k = timers s k"
    by (simp add: requestTimerKey_simps onTx_resume_timers(1))
next
  show "timers (onTx_resume s tx now) (requestTimerKey (InvVector TRANSACTION (tx_hash tx))) = None
      \<or> timers (onTx_resume s tx now) (requestTimerKey (InvVector TRANSACTION (tx_hash tx)))
           = timers s (requestTimerKey (InvVector TRANSACTION (tx_hash tx)))"
    unfolding requestTimerKey_simps by (rule onTx_resume_timers(2))
qed

lemma onTx_armed:
  assumes c: "timersArmed s"
  shows "timersArmed (onTx s tx now)"
proof -
  let ?v = "InvVector TRANSACTION (tx_hash tx)"
  let ?s2 = "onObjectReceived (emit (NoteVectorReceived (fromTransaction tx)) s) ?v"
  let ?s3 = "?s2\<lparr>objectsProcessing := hs_add (objectsProcessing ?s2) ?v\<rparr>"
  have p3: "pendingRequests ?s3 = pendingRequests s"
    by (simp add: onObjectReceived_frame emit_def)
  have t3: "timers ?s3 k = timers s k" if "isRequestKey k" for k
    using isRequestKey_not_getData [OF that] by (simp add: onObjectReceived_timers emit_def)
  from c p3 t3 have a3: "timersArmed ?s3" by (rule armed_same)
  have "onTx s tx now = emit (LogUnsolicited ?v) s
      \<or> onTx s tx now = suspend (AfterProcessTransaction tx)
                           (emit (ProcessTransaction (tx_hash tx) tx) ?s3)
      \<or> onTx s tx now = onTx_resume ?s3 tx now"
    by (simp add: onTx_def Let_def)
  moreover have "timersArmed (emit (LogUnsolicited ?v) s)"
    using c by (rule armed_same) (simp_all add: emit_def)
  moreover have "timersArmed (suspend (AfterProcessTransaction tx)
                           (emit (ProcessTransaction (tx_hash tx) tx) ?s3))"
    using a3 by (rule armed_same) (simp_all add: emit_def suspend_def)
  moreover have "timersArmed (onTx_resume ?s3 tx now)"
    using a3 by (rule onTx_resume_armed)
  ultimately show ?thesis by auto
qed

lemma resume_armed:
  assumes c: "timersArmed s"
  shows "timersArmed (resume s k now)"
proof (cases "k \<in> set (suspended s)")
  case False
  then show ?thesis using c by (simp add: resume_def)
next
  case True
  let ?s1 = "s\<lparr>suspended := remove1 k (suspended s)\<rparr>"
  from c have c1: "timersArmed ?s1"
    by (rule armed_same) simp_all
  show ?thesis
  proof (cases k)
    case (AfterProcessBlock b)
    have "timersArmed (onBlock_resume ?s1 b)"
      using c1 by (rule armed_same) (simp_all add: header_frames header_timers)
    then show ?thesis using True AfterProcessBlock by (simp add: resume_def Let_def)
  next
    case (AfterProcessHeader hdr)
    have "timersArmed (onHeader_resume ?s1 hdr)"
      using c1 by (rule armed_same) (simp_all add: header_frames header_timers)
    then show ?thesis using True AfterProcessHeader by (simp add: resume_def Let_def)
  next
    case (AfterProcessTransaction tx)
    have "timersArmed (onTx_resume ?s1 tx now)"
      using c1 by (rule onTx_resume_armed)
    then show ?thesis using True AfterProcessTransaction by (simp add: resume_def Let_def)
  qed
qed

lemma onNotFound_vector_armed:
  assumes c: "timersArmed s"
  shows "timersArmed (onNotFound_vector s v)"
  using c
proof (rule settled_armed [where v = v])
  show "pendingRequests (onNotFound_vector s v) = (pendingRequests s)(v := None)"
    by (rule onNotFound_vector_pending)
  fix k
  assume rk: "isRequestKey k" and ne: "k \<noteq> requestTimerKey v"
  show "timers (onNotFound_vector s v) k = timers s k"
    using ne by (simp add: onNotFound_vector_timers [OF isRequestKey_not_getData [OF rk]])
next
  show "timers (onNotFound_vector s v) (requestTimerKey v) = None
      \<or> timers (onNotFound_vector s v) (requestTimerKey v) = timers s (requestTimerKey v)"
    by (simp add: onNotFound_vector_timers [OF requestTimerKey_not_getData])
qed

lemma onNotFound_armed: "timersArmed s \<Longrightarrow> timersArmed (onNotFound s vs)"
proof (induction vs arbitrary: s)
  case Nil
  then show ?case by (simp add: onNotFound_def)
next
  case (Cons v vs)
  from Cons.IH [OF onNotFound_vector_armed [OF Cons.prems]] show ?case
    by (simp add: onNotFound_def)
qed

lemma runCallback_armed:
  assumes c: "timersArmed s"
  shows "timersArmed (runCallback s cb)"
proof (cases cb)
  case CbRequestData
  from c have "timersArmed (requestData s)"
    by (rule armed_same)
       (simp_all add: requestData_frame requestData_timers isRequestKey_not_getData)
  then show ?thesis using CbRequestData by (simp add: runCallback_def)
next
  case CbNoMoreData
  from c have "timersArmed (noMoreData s)"
    by (rule armed_same)
       (simp_all add: noMoreData_frame noMoreData_timers isRequestKey_not_getData)
  then show ?thesis using CbNoMoreData by (simp add: runCallback_def)
next
  case CbRequestHead
  from c have "timersArmed (requestHead s)"
    by (rule armed_same) (simp_all add: simple_frames simple_timers)
  then show ?thesis using CbRequestHead by (simp add: runCallback_def)
next
  case (CbRequestTimeout v)
  then show ?thesis using requestTimeout_armed [OF c] by (simp add: runCallback_def)
next
  case (CbKnowsObject v)
  from c have "timersArmed
                 (s\<lparr>knownObjects := lihs_add KNOWN_OBJECTS_COUNT_MAX (knownObjects s) v\<rparr>)"
    by (rule armed_same) simp_all
  then show ?thesis using CbKnowsObject by (simp add: runCallback_def)
qed

lemma fireTimeout_armed:
  assumes c: "timersArmed s"
  shows "timersArmed (fireTimeout s k)"
proof (cases "timers s k")
  case None
  then show ?thesis using c by (simp add: fireTimeout_def)
next
  case (Some cbd)
  obtain cb d where cbd: "cbd = (cb, d)" by (cases cbd)
  let ?s1 = "s\<lparr>timers := (timers s)(k := None)\<rparr>"
  have f: "fireTimeout s k = runCallback ?s1 cb"
    using Some cbd by (simp add: fireTimeout_def)
  show ?thesis
  proof (cases "isRequestKey k")
    case False
    have t1: "timers ?s1 k' = timers s k'" if "isRequestKey k'" for k'
      using that False by auto
    have p1: "pendingRequests ?s1 = pendingRequests s" by simp
    from c p1 t1 have "timersArmed ?s1" by (rule armed_same)
    then show ?thesis unfolding f by (rule runCallback_armed)
  next
    case True
    then obtain v where k: "k = requestTimerKey v" by (rule isRequestKey_cases)
    from Some cbd have "timers s (requestTimerKey v) = Some (cb, d)"
      by (simp add: k)
    then have cb: "cb = CbRequestTimeout v" by (rule timersArmedD2 [OF c])
    have f': "fireTimeout s k = requestTimeout ?s1 v"
      unfolding f cb by (simp add: runCallback_def)
    from c show ?thesis
    proof (rule settled_armed [where v = v])
      show "pendingRequests (fireTimeout s k) = (pendingRequests s)(v := None)"
        unfolding f' by (simp add: requestTimeout_fields2)
      show "timers (fireTimeout s k) k' = timers s k'" if "k' \<noteq> requestTimerKey v" for k'
        unfolding f' using that by (simp add: requestTimeout_fields2 k)
      show "timers (fireTimeout s k) (requestTimerKey v) = None
          \<or> timers (fireTimeout s k) (requestTimerKey v) = timers s (requestTimerKey v)"
        unfolding f' by (simp add: requestTimeout_fields2 k)
    qed
  qed
qed

lemma step_armed:
  assumes c: "timersArmed s" and n: "\<not> shutsDown ev"
  shows "timersArmed (step s ev)"
proof (cases ev)
  case (EvRequestBlock h r)
  then show ?thesis using requestBlock_armed [OF c] by simp
next
  case (EvRequestTransaction h r)
  then show ?thesis using requestTransaction_armed [OF c] by simp
next
  case (EvOnBlock b)
  then show ?thesis using onBlock_armed [OF c] by simp
next
  case (EvOnTx tx now)
  then show ?thesis using onTx_armed [OF c] by simp
next
  case (EvResume k now)
  then show ?thesis using resume_armed [OF c] by simp
next
  case (EvOnNotFound vs)
  then show ?thesis using onNotFound_armed [OF c] by simp
next
  case (EvFireTimeout k)
  then show ?thesis using fireTimeout_armed [OF c] by simp
next
  case EvShutdown
  then show ?thesis using n by simp
next
  case EvOnClose
  then show ?thesis using n by simp
qed (simp_all add: armed_same [OF c] simple_frames simple_timers relay_frames send_frames
      requestVector_frame requestVector_timers pp_onInv_frame pp_onInv_timers
      onGetData_frame onGetHeader_frame inventory_timers header_frames header_timers
      blockProof_frames transactionsProof_frames transactionReceipts_frames proof_timers)

lemma newAgent_armed: "timersArmed (newAgent hh ver tgt mx hdrs should pol)"
  by (rule timersArmedI) (simp_all add: newAgent_def)

lemma run_armed:
  assumes "timersArmed s"
  shows "list_all (\<lambda>ev. \<not> shutsDown ev) evs \<Longrightarrow> timersArmed (run s evs)"
proof (induction evs rule: rev_induct)
  case Nil
  show ?case using assms by (simp add: run_def)
next
  case (snoc ev evs)
  from snoc.prems have a: "list_all (\<lambda>ev. \<not> shutsDown ev) evs" and b: "\<not> shutsDown ev"
    by simp_all
  from step_armed [OF snoc.IH [OF a] b] show ?case by (simp add: run_snoc)
qed

lemma filter_resolver_outcomes:
  assumes "distinct rs" and "r \<in> set rs"
  shows "filter (\<lambda>e. resolverOf e = Some r) (map (outcome k) rs) = [outcome k r]"
  using assms
proof (induction rs)
  case Nil
  then show ?case by simp
next
  case (Cons x rs)
  have n: "filter (\<lambda>e. resolverOf e = Some r) (map (outcome k) rs) = []" if "r \<notin> set rs"
    using that by (induction rs) (simp_all add: resolverOf_outcome)
  show ?case
  proof (cases "x = r")
    case True
    with Cons.prems(1) have "r \<notin> set rs" by simp
    from n [OF this] True show ?thesis by (simp add: resolverOf_outcome)
  next
    case False
    with Cons.prems have "distinct rs" and "r \<in> set rs" by simp_all
    from Cons.IH [OF this] False show ?thesis by (simp add: resolverOf_outcome)
  qed
qed

lemma reachable_armed:
  assumes s: "s = run (newAgent hh ver tgt mx hdrs should pol) evs"
      and n: "list_all (\<lambda>ev. \<not> shutsDown ev) evs"
      and p: "pendingRequests s v = Some rs"
  shows "timers s (requestTimerKey v) = Some (CbRequestTimeout v, REQUEST_TIMEOUT)"
proof -
  have "timersArmed s"
    unfolding s using newAgent_armed n by (rule run_armed)
  then show ?thesis
    by (rule timersArmedD1) (simp add: p)
qed

lemma fireTimeout_delivers:
  assumes p: "pendingRequests s v = Some rs"
      and t: "timers s (requestTimerKey v) = Some (CbRequestTimeout v, d)"
      and r: "r \<in> set rs" and d: "distinct rs"
      and e: "filter (\<lambda>e. resolverOf e = Some r) (out s) = []"
  shows "filter (\<lambda>e. resolverOf e = Some r) (out (fireTimeout s (requestTimerKey v)))
           = [outcome TimedOut r]"
proof -
  from fireTimeout_settles [OF p t]
  have "out (fireTimeout s (requestTimerKey v)) = out s @ map (outcome TimedOut) rs"
    by simp
  then show ?thesis
    by (simp add: e filter_resolver_outcomes [OF d r])
qed

lemma shutdown_clears:
  "timers (shutdown s) k = None"
  "pendingRequests (shutdown s) = pendingRequests s"
  "out (shutdown s) = out s"
  "timers (onClose s) k = None"
  "pendingRequests (onClose s) = pendingRequests s"
  "out (onClose s) = out s @ [FireClose]"
  by (simp_all add: shutdown_def onClose_def p_shutdown_def Let_def basic_defs)

lemma fireTimeout_unarmed: "timers s k = None \<Longrightarrow> fireTimeout s k = s"
  by (simp add: fireTimeout_def)

lemma run_unarmed:
  assumes "\<forall>k. timers s k = None"
  shows "run s (map EvFireTimeout ks) = s"
  by (induction ks rule: rev_induct) (simp_all add: run_def fireTimeout_unarmed assms)

subsection \<open>Direct requests: the outcome of every resolver\<close>

text \<open>
  Claim C1 says that exactly one of the three outcomes is delivered to every resolver
  registered through requestBlock or requestTransaction. That fails when the agent is
  shut down while a request waits: the block 7 is requested with the resolver 0 and
  shutdown is called. The resolver still waits, its timer is gone with all the others,
  nothing has been delivered to it, and no timer that fires afterwards changes the
  state.
\<close>

theorem C1_shutdown_leaves_resolver_waiting_counterexample:
  "distinct (registered shut_down_waiting)
   \<and> 0 \<in> set (registered shut_down_waiting)
   \<and> pendingRequests (run agent0 shut_down_waiting) (InvVector BLOCK 7) = Some [0]
   \<and> (\<forall>k. timers (run agent0 shut_down_waiting) k = None)
   \<and> filter (\<lambda>e. resolverOf e = Some 0) (out (run agent0 shut_down_waiting)) = []
   \<and> (\<forall>ks. run (run agent0 shut_down_waiting) (map EvFireTimeout ks)
               = run agent0 shut_down_waiting)"
proof -
  have t: "\<forall>k. timers (run agent0 shut_down_waiting) k = None"
    by (simp add: shut_down_waiting_def run_def shutdown_clears)
  have p: "pendingRequests (run agent0 shut_down_waiting) (InvVector BLOCK 7) = Some [0]"
    by (simp add: shut_down_waiting_def run_def shutdown_clears agent0_def newAgent_def
        requestBlock_def Let_def basic_defs)
  have o: "filter (\<lambda>e. resolverOf e = Some 0) (out (run agent0 shut_down_waiting)) = []"
    by (simp add: shut_down_waiting_def run_def shutdown_clears agent0_def newAgent_def
        requestBlock_def Let_def basic_defs)
  have r: "distinct (registered shut_down_waiting) \<and> 0 \<in> set (registered shut_down_waiting)"
    by (simp add: registered_def shut_down_waiting_def)
  from t p o r run_unarmed [OF t] show ?thesis by simp
qed

text \<open>
  Claim C1, amended. In every run of a freshly constructed agent in which
  each call of requestBlock and requestTransaction brings a resolver of its own, every
  resolver \<open>r\<close> so registered is in one of two states: it waits in the list of exactly
  one vector of pendingRequests, once, and nothing has been delivered to it; or it waits
  nowhere and exactly one outcome has been delivered to it, which is resolve with the
  block or transaction, reject with 'Timeout' or reject with 'Not found'. So no
  resolver is settled twice. The operations do what the claim says: a request puts the
  resolver at the end of the vector's list and, when it creates the entry, arms the
  per-vector timer with REQUEST_TIMEOUT; a block response removes the entry, clears the
  timer and resolves every resolver of the entry with the block; a solicited
  transaction response does the same at once when the local subscription does not
  match, and otherwise suspends at the hook and does it when it is resumed; a not-found
  that lists the vector removes the entry, clears the timer and rejects every resolver
  with 'Not found'; the per-vector timer, when it fires, removes the entry and rejects
  every resolver with 'Timeout'. After each of these no resolver of the entry is left
  waiting. And in every state of such a run a waiting request for a transaction is
  covered: its vector is in objectsInFlight or in objectsThatFlew, so that \<^verbatim>\<open>_onTx\<close> does
  not discard the transaction as unsolicited, or a handler for a transaction of that
  hash is suspended at the hook and settles the request when it is resumed.

  That an outcome is delivered at all holds while the agent is not shut down: in a run
  without shutdown and \<^verbatim>\<open>_onClose\<close> every waiting entry has its per-vector timer armed with
  REQUEST_TIMEOUT, and when that timer fires the entry is removed and \<open>r\<close>, if it waits
  there, has exactly the outcome reject with 'Timeout'. shutdown and \<^verbatim>\<open>_onClose\<close> clear
  every timer and settle nothing, and a timer that is not armed does nothing when it
  fires: a resolver that waits then is left without an outcome.
\<close>

theorem C1_one_outcome_until_shutdown:
  assumes "distinct (registered evs)"
      and "r \<in> set (registered evs)"
      and "s = run (newAgent headHash version target maxCount headers should pol) evs"
  shows "(((\<exists>v rs. pendingRequests s v = Some rs \<and> r \<in> set rs \<and> distinct rs
              \<and> (\<forall>w rs'. pendingRequests s w = Some rs' \<and> r \<in> set rs' \<longrightarrow> w = v))
           \<and> filter (\<lambda>e. resolverOf e = Some r) (out s) = [])
          \<or> ((\<forall>v rs. pendingRequests s v = Some rs \<longrightarrow> r \<notin> set rs)
           \<and> (\<exists>k. filter (\<lambda>e. resolverOf e = Some r) (out s) = [outcome k r])))
       \<and> (\<forall>t h r'.
            (\<exists>rs. pendingRequests (requestBlock t h r') (InvVector BLOCK h) = Some (rs @ [r']))
            \<and> (pendingRequests t (InvVector BLOCK h) = None \<longrightarrow>
                 timers (requestBlock t h r') (requestTimerKey (InvVector BLOCK h))
                   = Some (CbRequestTimeout (InvVector BLOCK h), REQUEST_TIMEOUT))
            \<and> (\<exists>rs. pendingRequests (requestTransaction t h r') (InvVector TRANSACTION h)
                       = Some (rs @ [r']))
            \<and> (pendingRequests t (InvVector TRANSACTION h) = None \<longrightarrow>
                 timers (requestTransaction t h r') (requestTimerKey (InvVector TRANSACTION h))
                   = Some (CbRequestTimeout (InvVector TRANSACTION h), REQUEST_TIMEOUT)))
       \<and> (\<forall>t b rs. pendingRequests t (InvVector BLOCK (blk_hash b)) = Some rs \<longrightarrow>
            pendingRequests (onBlock t b) (InvVector BLOCK (blk_hash b)) = None
            \<and> timers (onBlock t b) (K_block_request (blk_hash b)) = None
            \<and> out (onBlock t b) = out t @ map (outcome (ResolvedBlock b)) rs)
       \<and> (\<forall>t tx now rs.
            pendingRequests t (InvVector TRANSACTION (tx_hash tx)) = Some rs
            \<and> (hs_contains (objectsInFlight t) (InvVector TRANSACTION (tx_hash tx))
                \<or> hs_contains (objectsThatFlew t) (InvVector TRANSACTION (tx_hash tx))) \<longrightarrow>
            (if matchesTransaction (localSubscription t) tx
             then AfterProcessTransaction tx \<in> set (suspended (onTx t tx now))
                \<and> pendingRequests (onTx t tx now) (InvVector TRANSACTION (tx_hash tx)) = Some rs
             else pendingRequests (onTx t tx now) (InvVector TRANSACTION (tx_hash tx)) = None
                \<and> timers (onTx t tx now) (K_tx_request (tx_hash tx)) = None
                \<and> filter isDelivery (out (onTx t tx now))
                    = filter isDelivery (out t) @ map (outcome (ResolvedTx tx)) rs))
       \<and> (\<forall>t tx now rs.
            pendingRequests t (InvVector TRANSACTION (tx_hash tx)) = Some rs
            \<and> AfterProcessTransaction tx \<in> set (suspended t) \<longrightarrow>
            pendingRequests (resume t (AfterProcessTransaction tx) now)
              (InvVector TRANSACTION (tx_hash tx)) = None
            \<and> timers (resume t (AfterProcessTransaction tx) now) (K_tx_request (tx_hash tx)) = None
            \<and> filter isDelivery (out (resume t (AfterProcessTransaction tx) now))
                = filter isDelivery (out t) @ map (outcome (ResolvedTx tx)) rs)
       \<and> (\<forall>t v vs rs. v \<in> set vs \<and> pendingRequests t v = Some rs \<longrightarrow>
            pendingRequests (onNotFound t vs) v = None
            \<and> timers (onNotFound t vs) (requestTimerKey v) = None
            \<and> set (map (outcome NotFound) rs) \<subseteq> set (out (onNotFound t vs)))
       \<and> (\<forall>t v rs d.
            pendingRequests t v = Some rs
            \<and> timers t (requestTimerKey v) = Some (CbRequestTimeout v, d) \<longrightarrow>
            pendingRequests (fireTimeout t (requestTimerKey v)) v = None
            \<and> timers (fireTimeout t (requestTimerKey v)) (requestTimerKey v) = None
            \<and> out (fireTimeout t (requestTimerKey v)) = out t @ map (outcome TimedOut) rs)
       \<and> (\<forall>h rs. pendingRequests s (InvVector TRANSACTION h) = Some rs \<longrightarrow>
            hs_contains (objectsInFlight s) (InvVector TRANSACTION h)
            \<or> hs_contains (objectsThatFlew s) (InvVector TRANSACTION h)
            \<or> (\<exists>tx. tx_hash tx = h \<and> AfterProcessTransaction tx \<in> set (suspended s)))
       \<and> (list_all (\<lambda>ev. \<not> shutsDown ev) evs \<longrightarrow>
            (\<forall>v rs. pendingRequests s v = Some rs \<longrightarrow>
               timers s (requestTimerKey v) = Some (CbRequestTimeout v, REQUEST_TIMEOUT)
               \<and> pendingRequests (fireTimeout s (requestTimerKey v)) v = None
               \<and> (r \<in> set rs \<longrightarrow>
                    filter (\<lambda>e. resolverOf e = Some r) (out (fireTimeout s (requestTimerKey v)))
                      = [outcome TimedOut r])))
       \<and> (\<forall>t k. timers (shutdown t) k = None
               \<and> pendingRequests (shutdown t) = pendingRequests t
               \<and> out (shutdown t) = out t
               \<and> timers (onClose t) k = None
               \<and> pendingRequests (onClose t) = pendingRequests t
               \<and> out (onClose t) = out t @ [FireClose])
       \<and> (\<forall>t k. timers t k = None \<longrightarrow> fireTimeout t k = t)"
proof (rule conjI [OF _ conjI [OF _ conjI [OF _ conjI [OF _ conjI [OF _ conjI [OF _ conjI
         [OF _ conjI [OF _ conjI [OF _ conjI]]]]]]]]])
  show "((\<exists>v rs. pendingRequests s v = Some rs \<and> r \<in> set rs \<and> distinct rs
              \<and> (\<forall>w rs'. pendingRequests s w = Some rs' \<and> r \<in> set rs' \<longrightarrow> w = v))
           \<and> filter (\<lambda>e. resolverOf e = Some r) (out s) = [])
          \<or> ((\<forall>v rs. pendingRequests s v = Some rs \<longrightarrow> r \<notin> set rs)
           \<and> (\<exists>k. filter (\<lambda>e. resolverOf e = Some r) (out s) = [outcome k r]))"
    using assms by (rule C1_trace)
next
  show "\<forall>t h r'.
            (\<exists>rs. pendingRequests (requestBlock t h r') (InvVector BLOCK h) = Some (rs @ [r']))
            \<and> (pendingRequests t (InvVector BLOCK h) = None \<longrightarrow>
                 timers (requestBlock t h r') (requestTimerKey (InvVector BLOCK h))
                   = Some (CbRequestTimeout (InvVector BLOCK h), REQUEST_TIMEOUT))
            \<and> (\<exists>rs. pendingRequests (requestTransaction t h r') (InvVector TRANSACTION h)
                       = Some (rs @ [r']))
            \<and> (pendingRequests t (InvVector TRANSACTION h) = None \<longrightarrow>
                 timers (requestTransaction t h r') (requestTimerKey (InvVector TRANSACTION h))
                   = Some (CbRequestTimeout (InvVector TRANSACTION h), REQUEST_TIMEOUT))"
    by (intro allI) (rule request_registers)
next
  show "\<forall>t b rs. pendingRequests t (InvVector BLOCK (blk_hash b)) = Some rs \<longrightarrow>
            pendingRequests (onBlock t b) (InvVector BLOCK (blk_hash b)) = None
            \<and> timers (onBlock t b) (K_block_request (blk_hash b)) = None
            \<and> out (onBlock t b) = out t @ map (outcome (ResolvedBlock b)) rs"
    by (intro allI impI) (rule onBlock_settles)
next
  show "\<forall>t tx now rs.
            pendingRequests t (InvVector TRANSACTION (tx_hash tx)) = Some rs
            \<and> (hs_contains (objectsInFlight t) (InvVector TRANSACTION (tx_hash tx))
                \<or> hs_contains (objectsThatFlew t) (InvVector TRANSACTION (tx_hash tx))) \<longrightarrow>
            (if matchesTransaction (localSubscription t) tx
             then AfterProcessTransaction tx \<in> set (suspended (onTx t tx now))
                \<and> pendingRequests (onTx t tx now) (InvVector TRANSACTION (tx_hash tx)) = Some rs
             else pendingRequests (onTx t tx now) (InvVector TRANSACTION (tx_hash tx)) = None
                \<and> timers (onTx t tx now) (K_tx_request (tx_hash tx)) = None
                \<and> filter isDelivery (out (onTx t tx now))
                    = filter isDelivery (out t) @ map (outcome (ResolvedTx tx)) rs)"
  proof (intro allI impI)
    fix t :: Agent and tx :: Transaction and now rs
    assume a: "pendingRequests t (InvVector TRANSACTION (tx_hash tx)) = Some rs
            \<and> (hs_contains (objectsInFlight t) (InvVector TRANSACTION (tx_hash tx))
                \<or> hs_contains (objectsThatFlew t) (InvVector TRANSACTION (tx_hash tx)))"
    from onTx_settles [OF conjunct1 [OF a] conjunct2 [OF a]]
    show "if matchesTransaction (localSubscription t) tx
             then AfterProcessTransaction tx \<in> set (suspended (onTx t tx now))
                \<and> pendingRequests (onTx t tx now) (InvVector TRANSACTION (tx_hash tx)) = Some rs
             else pendingRequests (onTx t tx now) (InvVector TRANSACTION (tx_hash tx)) = None
                \<and> timers (onTx t tx now) (K_tx_request (tx_hash tx)) = None
                \<and> filter isDelivery (out (onTx t tx now))
                    = filter isDelivery (out t) @ map (outcome (ResolvedTx tx)) rs" .
  qed
next
  show "\<forall>t tx now rs.
            pendingRequests t (InvVector TRANSACTION (tx_hash tx)) = Some rs
            \<and> AfterProcessTransaction tx \<in> set (suspended t) \<longrightarrow>
            pendingRequests (resume t (AfterProcessTransaction tx) now)
              (InvVector TRANSACTION (tx_hash tx)) = None
            \<and> timers (resume t (AfterProcessTransaction tx) now) (K_tx_request (tx_hash tx)) = None
            \<and> filter isDelivery (out (resume t (AfterProcessTransaction tx) now))
                = filter isDelivery (out t) @ map (outcome (ResolvedTx tx)) rs"
  proof (intro allI impI)
    fix t :: Agent and tx :: Transaction and now rs
    assume a: "pendingRequests t (InvVector TRANSACTION (tx_hash tx)) = Some rs
            \<and> AfterProcessTransaction tx \<in> set (suspended t)"
    from resume_tx_settles [OF conjunct1 [OF a] conjunct2 [OF a]]
    show "pendingRequests (resume t (AfterProcessTransaction tx) now)
              (InvVector TRANSACTION (tx_hash tx)) = None
            \<and> timers (resume t (AfterProcessTransaction tx) now) (K_tx_request (tx_hash tx)) = None
            \<and> filter isDelivery (out (resume t (AfterProcessTransaction tx) now))
                = filter isDelivery (out t) @ map (outcome (ResolvedTx tx)) rs" .
  qed
next
  show "\<forall>t v vs rs. v \<in> set vs \<and> pendingRequests t v = Some rs \<longrightarrow>
            pendingRequests (onNotFound t vs) v = None
            \<and> timers (onNotFound t vs) (requestTimerKey v) = None
            \<and> set (map (outcome NotFound) rs) \<subseteq> set (out (onNotFound t vs))"
  proof (intro allI impI)
    fix t :: Agent and v vs rs
    assume a: "v \<in> set vs \<and> pendingRequests t v = Some rs"
    from onNotFound_settles [OF conjunct1 [OF a] conjunct2 [OF a]]
    show "pendingRequests (onNotFound t vs) v = None
            \<and> timers (onNotFound t vs) (requestTimerKey v) = None
            \<and> set (map (outcome NotFound) rs) \<subseteq> set (out (onNotFound t vs))" .
  qed
next
  show "\<forall>t v rs d.
            pendingRequests t v = Some rs
            \<and> timers t (requestTimerKey v) = Some (CbRequestTimeout v, d) \<longrightarrow>
            pendingRequests (fireTimeout t (requestTimerKey v)) v = None
            \<and> timers (fireTimeout t (requestTimerKey v)) (requestTimerKey v) = None
            \<and> out (fireTimeout t (requestTimerKey v)) = out t @ map (outcome TimedOut) rs"
  proof (intro allI impI)
    fix t :: Agent and v rs d
    assume a: "pendingRequests t v = Some rs
            \<and> timers t (requestTimerKey v) = Some (CbRequestTimeout v, d)"
    from fireTimeout_settles [OF conjunct1 [OF a] conjunct2 [OF a]]
    show "pendingRequests (fireTimeout t (requestTimerKey v)) v = None
            \<and> timers (fireTimeout t (requestTimerKey v)) (requestTimerKey v) = None
            \<and> out (fireTimeout t (requestTimerKey v)) = out t @ map (outcome TimedOut) rs" .
  qed
next
  show "\<forall>h rs. pendingRequests s (InvVector TRANSACTION h) = Some rs \<longrightarrow>
            hs_contains (objectsInFlight s) (InvVector TRANSACTION h)
            \<or> hs_contains (objectsThatFlew s) (InvVector TRANSACTION h)
            \<or> (\<exists>tx. tx_hash tx = h \<and> AfterProcessTransaction tx \<in> set (suspended s))"
    using reachable_covered [OF assms(3)] by blast
next
  show "list_all (\<lambda>ev. \<not> shutsDown ev) evs \<longrightarrow>
            (\<forall>v rs. pendingRequests s v = Some rs \<longrightarrow>
               timers s (requestTimerKey v) = Some (CbRequestTimeout v, REQUEST_TIMEOUT)
               \<and> pendingRequests (fireTimeout s (requestTimerKey v)) v = None
               \<and> (r \<in> set rs \<longrightarrow>
                    filter (\<lambda>e. resolverOf e = Some r) (out (fireTimeout s (requestTimerKey v)))
                      = [outcome TimedOut r]))"
  proof (intro allI impI conjI)
    fix v rs
    assume n: "list_all (\<lambda>ev. \<not> shutsDown ev) evs" and p: "pendingRequests s v = Some rs"
    show t: "timers s (requestTimerKey v) = Some (CbRequestTimeout v, REQUEST_TIMEOUT)"
      using assms(3) n p by (rule reachable_armed)
    from fireTimeout_settles [OF p t]
    show "pendingRequests (fireTimeout s (requestTimerKey v)) v = None" by simp
    assume r: "r \<in> set rs"
    from C1_trace [OF assms] p r
    have w: "\<exists>v' rs'. pendingRequests s v' = Some rs' \<and> r \<in> set rs' \<and> distinct rs'
               \<and> (\<forall>w rs''. pendingRequests s w = Some rs'' \<and> r \<in> set rs'' \<longrightarrow> w = v')"
      and e: "filter (\<lambda>e. resolverOf e = Some r) (out s) = []"
      by blast+
    from w obtain v' rs' where v': "pendingRequests s v' = Some rs'" "distinct rs'"
      "\<forall>w rs''. pendingRequests s w = Some rs'' \<and> r \<in> set rs'' \<longrightarrow> w = v'"
      by blast
    from v'(3) p r have "v = v'" by blast
    with v'(1,2) p have d: "distinct rs" by simp
    from p t r d e
    show "filter (\<lambda>e. resolverOf e = Some r) (out (fireTimeout s (requestTimerKey v)))
            = [outcome TimedOut r]"
      by (rule fireTimeout_delivers)
  qed
next
  show "\<forall>t k. timers (shutdown t) k = None
               \<and> pendingRequests (shutdown t) = pendingRequests t
               \<and> out (shutdown t) = out t
               \<and> timers (onClose t) k = None
               \<and> pendingRequests (onClose t) = pendingRequests t
               \<and> out (onClose t) = out t @ [FireClose]"
    by (simp add: shutdown_clears)
next
  show "\<forall>t k. timers t k = None \<longrightarrow> fireTimeout t k = t"
    by (simp add: fireTimeout_unarmed)
qed

theorem C1_one_outcome_until_shutdown_witness:
  "distinct (registered direct_requests)
   \<and> 1 \<in> set (registered direct_requests)
   \<and> list_all (\<lambda>ev. \<not> shutsDown ev) direct_requests
   \<and> out (run agent0 direct_requests)
       = [ChGetHead, ChGetData [InvVector BLOCK 7], ChGetData [InvVector TRANSACTION 5],
          Resolve 0 (BlockObj block7), Resolve 1 (BlockObj block7), Reject 2 ''Timeout'',
          ChGetData [InvVector BLOCK 9], Reject 3 ''Not found'']
   \<and> filter (\<lambda>e. resolverOf e = Some 1) (out (run agent0 direct_requests))
       = [outcome (ResolvedBlock block7) 1]"
proof -
  have d: "distinct (registered direct_requests)"
    by (simp add: registered_def direct_requests_def)
  have m: "1 \<in> set (registered direct_requests)"
    by (simp add: registered_def direct_requests_def)
  have n: "list_all (\<lambda>ev. \<not> shutsDown ev) direct_requests"
    by (simp add: direct_requests_def)
  have o: "out (run agent0 direct_requests)
       = [ChGetHead, ChGetData [InvVector BLOCK 7], ChGetData [InvVector TRANSACTION 5],
          Resolve 0 (BlockObj block7), Resolve 1 (BlockObj block7), Reject 2 ''Timeout'',
          ChGetData [InvVector BLOCK 9], Reject 3 ''Not found'']"
    by (simp add: direct_requests_def eval_defs)
  have s: "run agent0 direct_requests
             = run (newAgent 0 2 None 1000 False (\<lambda>v. True) True) direct_requests"
    by (simp add: agent0_def)
  have f: "filter (\<lambda>e. resolverOf e = Some 1) (out (run agent0 direct_requests))
       = [outcome (ResolvedBlock block7) 1]"
    unfolding o by simp
  from C1_one_outcome_until_shutdown [OF d m s, THEN conjunct1] d m n o f show ?thesis by simp
qed

subsection \<open>objectsThatFlew only grows\<close>

lemma request_flew:
  "objectsThatFlew (requestBlock s h r) = objectsThatFlew s"
  "objectsThatFlew (requestTransaction s h r) = objectsThatFlew s"
  "objectsThatFlew (requestTimeout s v) = objectsThatFlew s"
  by (simp_all add: requestBlock_def requestTransaction_def requestTimeout_def Let_def basic_defs
      split: option.splits)

lemma onBlock_flew: "set (objectsThatFlew s) \<subseteq> set (objectsThatFlew (onBlock s b))"
  using onObjectReceived_frame(3)
    [of "trackHead s (blk_hash b) (blk_header b)" "InvVector BLOCK (blk_hash b)"]
  by (simp add: onBlock_def Let_def resolveAll_def basic_defs trackHead_frame
      split: option.splits)

lemma onTx_resume_flew: "objectsThatFlew (onTx_resume s tx now) = objectsThatFlew s"
  by (simp add: onTx_resume_def Let_def resolveAll_def basic_defs onObjectProcessed_frame
      split: option.splits)

lemma onTx_flew: "set (objectsThatFlew s) \<subseteq> set (objectsThatFlew (onTx s tx now))"
  using onObjectReceived_frame(3)
    [of "emit (NoteVectorReceived (fromTransaction tx)) s" "InvVector TRANSACTION (tx_hash tx)"]
  by (simp add: onTx_def Let_def basic_defs onTx_resume_flew)

lemma resume_flew: "objectsThatFlew (resume s k now) = objectsThatFlew s"
  by (cases k) (simp_all add: resume_def Let_def header_frames onTx_resume_flew)

lemma onNotFound_vector_flew:
  "set (objectsThatFlew s) \<subseteq> set (objectsThatFlew (onNotFound_vector s v))"
proof (cases "pendingRequests s v")
  case None
  then show ?thesis
    using onObjectReceived_frame(3) [of "emit (NoteVectorNotReceived v) s" v]
    by (simp add: onNotFound_vector_def Let_def basic_defs)
next
  case (Some rs)
  let ?s1 = "emitAll (map (\<lambda>r. Reject r ''Not found'') rs)
               (clearTimeout (requestTimerKey v)
                 (s\<lparr>pendingRequests := (pendingRequests s)(v := None)\<rparr>))"
  have f: "objectsThatFlew ?s1 = objectsThatFlew s" by (simp add: basic_defs)
  have "onNotFound_vector s v = ?s1
      \<or> onNotFound_vector s v = onObjectReceived (emit (NoteVectorNotReceived v) ?s1) v"
    using Some by (simp add: onNotFound_vector_def Let_def)
  then show ?thesis
  proof
    assume "onNotFound_vector s v = ?s1"
    then show ?thesis using f by simp
  next
    assume a: "onNotFound_vector s v = onObjectReceived (emit (NoteVectorNotReceived v) ?s1) v"
    have "objectsThatFlew (emit (NoteVectorNotReceived v) ?s1) = objectsThatFlew s"
      by (simp add: basic_defs)
    with onObjectReceived_frame(3) [of "emit (NoteVectorNotReceived v) ?s1" v]
    show ?thesis using a by simp
  qed
qed

lemma onNotFound_flew: "set (objectsThatFlew s) \<subseteq> set (objectsThatFlew (onNotFound s vs))"
proof (induction vs arbitrary: s)
  case Nil
  show ?case by (simp add: onNotFound_def)
next
  case (Cons v vs)
  have "set (objectsThatFlew s) \<subseteq> set (objectsThatFlew (onNotFound_vector s v))"
    by (rule onNotFound_vector_flew)
  also have "\<dots> \<subseteq> set (objectsThatFlew (onNotFound (onNotFound_vector s v) vs))"
    by (rule Cons.IH)
  finally show ?case by (simp add: onNotFound_def)
qed

lemma runCallback_flew: "set (objectsThatFlew s) \<subseteq> set (objectsThatFlew (runCallback s cb))"
  by (cases cb)
     (simp_all add: runCallback_def requestData_frame noMoreData_frame simple_frames
       request_flew hs_addAll_set)

lemma fireTimeout_flew: "set (objectsThatFlew s) \<subseteq> set (objectsThatFlew (fireTimeout s k))"
proof (cases "timers s k")
  case None
  then show ?thesis by (simp add: fireTimeout_def)
next
  case (Some cbd)
  obtain cb d where cbd: "cbd = (cb, d)" by (cases cbd)
  have "fireTimeout s k = runCallback (s\<lparr>timers := (timers s)(k := None)\<rparr>) cb"
    using Some cbd by (simp add: fireTimeout_def)
  then show ?thesis
    using runCallback_flew [of "s\<lparr>timers := (timers s)(k := None)\<rparr>" cb] by simp
qed

lemma step_flew: "set (objectsThatFlew s) \<subseteq> set (objectsThatFlew (step s ev))"
  by (cases ev)
     (simp_all add: simple_frames relay_frames send_frames requestVector_frame pp_onInv_frame
       onGetData_frame onGetHeader_frame blockProof_frames transactionsProof_frames
       transactionReceipts_frames shutdown_frames header_frames request_flew onBlock_flew
       onTx_flew resume_flew onNotFound_flew fireTimeout_flew)

lemma run_flew: "set (objectsThatFlew s) \<subseteq> set (objectsThatFlew (run s evs))"
proof (induction evs rule: rev_induct)
  case Nil
  show ?case by (simp add: run_def)
next
  case (snoc ev evs)
  have "set (objectsThatFlew (run s evs)) \<subseteq> set (objectsThatFlew (step (run s evs) ev))"
    by (rule step_flew)
  with snoc show ?case by (simp add: run_snoc)
qed

lemma unsolicited_frames:
  "filter isUnsolicited (out (requestData s)) = filter isUnsolicited (out s)"
  "filter isUnsolicited (out (noMoreData s)) = filter isUnsolicited (out s)"
  "filter isUnsolicited (out (onObjectReceived s v)) = filter isUnsolicited (out s)"
  "filter isUnsolicited (out (onObjectProcessed s v)) = filter isUnsolicited (out s)"
  "filter isUnsolicited (out (onTx_resume s tx now)) = filter isUnsolicited (out s)"
proof -
  show r: "filter isUnsolicited (out (requestData s)) = filter isUnsolicited (out s)" for s
    by (simp add: requestData_def dequeueVectors_eq [OF refl refl refl] doRequestData_def
        Let_def basic_defs)
  show n: "filter isUnsolicited (out (noMoreData s)) = filter isUnsolicited (out s)" for s
    by (simp add: noMoreData_def r Let_def basic_defs filter_empty_conv)
  show "filter isUnsolicited (out (onObjectReceived s v)) = filter isUnsolicited (out s)"
    by (simp add: onObjectReceived_def n Let_def resetTimeout_def)
  show p: "filter isUnsolicited (out (onObjectProcessed s v)) = filter isUnsolicited (out s)"
    for s v
    by (simp add: onObjectProcessed_def Let_def emit_def)
  show "filter isUnsolicited (out (onTx_resume s tx now)) = filter isUnsolicited (out s)"
    by (simp add: onTx_resume_def p Let_def resolveAll_def basic_defs filter_empty_conv
        split: option.splits)
qed

lemma onObjectProcessed_out: "\<exists>es. out (onObjectProcessed s v) = out s @ es"
  by (simp add: onObjectProcessed_def Let_def emit_def)

lemma onTx_resume_out: "\<exists>es. out (onTx_resume s tx now) = out s @ es"
proof -
  obtain s1 where s1: "s1 = (case pendingRequests s (InvVector TRANSACTION (tx_hash tx)) of
                  Some txRequest \<Rightarrow>
                    resolveAll txRequest (TxObj tx)
                      (clearTimeout (K_tx_request (tx_hash tx))
                        (s\<lparr>pendingRequests :=
                             (pendingRequests s)(InvVector TRANSACTION (tx_hash tx) := None)\<rparr>))
                | None \<Rightarrow>
                    if \<not> matchesTransaction (localSubscription s) tx
                       \<and> now < (case lastSubscriptionChange s of None \<Rightarrow> 0 | Some t \<Rightarrow> t)
                               + SUBSCRIPTION_CHANGE_GRACE_PERIOD
                    then emit (ChClose TRANSACTION_NOT_MATCHING_SUBSCRIPTION) s
                    else s)"
    by blast
  have o1: "\<exists>es. out s1 = out s @ es"
    unfolding s1 by (simp add: resolveAll_def basic_defs split: option.splits)
  have "onTx_resume s tx now = onObjectProcessed s1 (InvVector TRANSACTION (tx_hash tx))"
    unfolding s1
    by (cases "pendingRequests s (InvVector TRANSACTION (tx_hash tx))")
       (simp_all add: onTx_resume_def Let_def)
  with onObjectProcessed_out [of s1 "InvVector TRANSACTION (tx_hash tx)"] o1
  show ?thesis by auto
qed

lemma onBlock_accepts:
  assumes "InvVector BLOCK (blk_hash b) \<in> set (objectsThatFlew t)"
  shows "filter isUnsolicited (out (onBlock t b)) = filter isUnsolicited (out t)
       \<and> (pendingRequests t (InvVector BLOCK (blk_hash b)) = None \<longrightarrow>
            last (out (onBlock t b)) = ProcessBlock (blk_hash b) b
            \<and> suspended (onBlock t b) = suspended t @ [AfterProcessBlock b]
            \<and> InvVector BLOCK (blk_hash b) \<in> set (objectsProcessing (onBlock t b)))"
  using assms
  by (simp add: onBlock_def Let_def resolveAll_def basic_defs container_defs
      unsolicited_frames trackHead_frame onObjectReceived_frame filter_empty_conv
      split: option.splits)

lemma onHeader_accepts:
  assumes "InvVector BLOCK (hdr_hash h) \<in> set (objectsThatFlew t)"
  shows "filter isUnsolicited (out (onHeader t h)) = filter isUnsolicited (out t)
       \<and> last (out (onHeader t h)) = ProcessHeader (hdr_hash h) h
       \<and> suspended (onHeader t h) = suspended t @ [AfterProcessHeader h]
       \<and> InvVector BLOCK (hdr_hash h) \<in> set (objectsProcessing (onHeader t h))"
  using assms
  by (simp add: onHeader_def Let_def basic_defs container_defs
      unsolicited_frames trackHead_frame onObjectReceived_frame)

lemma onTx_accepts:
  assumes "InvVector TRANSACTION (tx_hash tx) \<in> set (objectsThatFlew t)"
  shows "filter isUnsolicited (out (onTx t tx now)) = filter isUnsolicited (out t)
       \<and> NoteVectorReceived (InvVector TRANSACTION (tx_hash tx)) \<in> set (out (onTx t tx now))
       \<and> (matchesTransaction (localSubscription t) tx \<longrightarrow>
            last (out (onTx t tx now)) = ProcessTransaction (tx_hash tx) tx
            \<and> suspended (onTx t tx now) = suspended t @ [AfterProcessTransaction tx]
            \<and> InvVector TRANSACTION (tx_hash tx) \<in> set (objectsProcessing (onTx t tx now)))"
proof -
  let ?v = "InvVector TRANSACTION (tx_hash tx)"
  let ?s2 = "onObjectReceived (emit (NoteVectorReceived (fromTransaction tx)) t) ?v"
  let ?s3 = "?s2\<lparr>objectsProcessing := hs_add (objectsProcessing ?s2) ?v\<rparr>"
  have sol: "(\<not> hs_contains (objectsInFlight t) ?v \<and> \<not> hs_contains (objectsThatFlew t) ?v)
               = False"
    using assms by (simp add: hs_contains_def)
  have l3: "localSubscription ?s3 = localSubscription t"
    by (simp add: onObjectReceived_def noMoreData_def requestData_def
        dequeueVectors_eq [OF refl refl refl] doRequestData_def Let_def basic_defs)
  obtain es where es: "out ?s2 = out t @ [NoteVectorReceived ?v] @ es"
    using onObjectReceived_out [of "emit (NoteVectorReceived (fromTransaction tx)) t" ?v]
    by (auto simp: emit_def fromTransaction_def)
  have u3: "filter isUnsolicited (out ?s3) = filter isUnsolicited (out t)"
    by (simp add: unsolicited_frames emit_def)
  show ?thesis
  proof (cases "matchesTransaction (localSubscription t) tx")
    case True
    then have "onTx t tx now
        = suspend (AfterProcessTransaction tx) (emit (ProcessTransaction (tx_hash tx) tx) ?s3)"
      using l3 by (simp add: onTx_def sol Let_def)
    then show ?thesis
      using True u3 es by (simp add: suspend_def emit_def onObjectReceived_frame hs_add_def)
  next
    case False
    then have r: "onTx t tx now = onTx_resume ?s3 tx now"
      using l3 by (simp add: onTx_def sol Let_def)
    have c1: "filter isUnsolicited (out (onTx_resume ?s3 tx now)) = filter isUnsolicited (out t)"
      by (simp add: unsolicited_frames emit_def)
    obtain es' where "out (onTx_resume ?s3 tx now) = out ?s3 @ es'"
      using onTx_resume_out [of ?s3 tx now] by blast
    then have "out (onTx_resume ?s3 tx now) = out t @ [NoteVectorReceived ?v] @ es @ es'"
      using es by simp
    then have c2: "NoteVectorReceived ?v \<in> set (out (onTx_resume ?s3 tx now))"
      by simp
    show ?thesis
      using False c1 c2 unfolding r by simp
  qed
qed

subsection \<open>What the handlers do with an accepted object\<close>

lemma hook_frames:
  "filter isHook (out (requestData s)) = filter isHook (out s)"
  "filter isHook (out (noMoreData s)) = filter isHook (out s)"
  "filter isHook (out (onObjectReceived s v)) = filter isHook (out s)"
  "filter isHook (out (onObjectProcessed s v)) = filter isHook (out s)"
  "filter isHook (out (onTx_resume s tx now)) = filter isHook (out s)"
proof -
  show r: "filter isHook (out (requestData s)) = filter isHook (out s)" for s
    by (simp add: requestData_def dequeueVectors_eq [OF refl refl refl] doRequestData_def
        Let_def basic_defs)
  show n: "filter isHook (out (noMoreData s)) = filter isHook (out s)" for s
    by (simp add: noMoreData_def r Let_def basic_defs filter_empty_conv)
  show "filter isHook (out (onObjectReceived s v)) = filter isHook (out s)"
    by (simp add: onObjectReceived_def n Let_def resetTimeout_def)
  show p: "filter isHook (out (onObjectProcessed s v)) = filter isHook (out s)"
    for s v
    by (simp add: onObjectProcessed_def Let_def emit_def)
  show "filter isHook (out (onTx_resume s tx now)) = filter isHook (out s)"
    by (simp add: onTx_resume_def p Let_def resolveAll_def basic_defs filter_empty_conv
        split: option.splits)
qed

lemma onObjectReceived_peer: "peer_head (onObjectReceived s v) = peer_head s"
  by (simp add: onObjectReceived_def noMoreData_def requestData_def
      dequeueVectors_eq [OF refl refl refl] doRequestData_def Let_def basic_defs)

lemma onObjectReceived_marks:
  assumes "hs_remove (objectsInFlight s) v \<noteq> []"
  shows "objectsInFlight (onObjectReceived s v) = hs_remove (objectsInFlight s) v"
    and "timers (onObjectReceived s v) K_getData = Some (CbNoMoreData, REQUEST_TIMEOUT)"
proof -
  from assms have "objectsInFlight s \<noteq> []" by (auto simp: hs_remove_def)
  with assms show "objectsInFlight (onObjectReceived s v) = hs_remove (objectsInFlight s) v"
    and "timers (onObjectReceived s v) K_getData = Some (CbNoMoreData, REQUEST_TIMEOUT)"
    by (simp_all add: onObjectReceived_def Let_def resetTimeout_def)
qed

lemma trackHead_peer:
  "peer_head (trackHead s h hdr)
     = (if (peer_head s = None \<and> peer_headHash s = h)
           \<or> (case peer_head s of None \<Rightarrow> False | Some h' \<Rightarrow> hdr_height h' < hdr_height hdr)
        then Some hdr else peer_head s)"
  by (simp add: trackHead_def onHeadUpdated_def resetTimeout_def)

lemma trackHead_timer:
  assumes "(peer_head s = None \<and> peer_headHash s = h)
           \<or> (case peer_head s of None \<Rightarrow> False | Some h' \<Rightarrow> hdr_height h' < hdr_height hdr)"
  shows "timers (trackHead s h hdr) K_get_next_head = Some (CbRequestHead, HEAD_REQUEST_INTERVAL)"
proof -
  have c: "((peer_head s = None \<and> peer_headHash s = h)
             \<or> (case peer_head s of None \<Rightarrow> False | Some h' \<Rightarrow> hdr_height h' < hdr_height hdr))
           = True"
    using assms by simp
  show ?thesis
    by (simp add: trackHead_def c onHeadUpdated_def resetTimeout_def)
qed

lemma onObjectProcessed_processing:
  "objectsProcessing (onObjectProcessed s v) = hs_remove (objectsProcessing s) v"
  "out (onObjectProcessed s v)
     = out s @ (if hs_remove (objectsProcessing s) v = [] then [OnAllObjectsProcessed] else [])"
  by (simp_all add: onObjectProcessed_def Let_def emit_def)

lemma onHeader_handles:
  assumes "InvVector BLOCK (hdr_hash h) \<in> set (objectsThatFlew t)"
  shows "peer_head (onHeader t h)
           = (if (peer_head t = None \<and> peer_headHash t = hdr_hash h)
                 \<or> (case peer_head t of None \<Rightarrow> False | Some h' \<Rightarrow> hdr_height h' < hdr_height h)
              then Some h else peer_head t)
       \<and> ((peer_head t = None \<and> peer_headHash t = hdr_hash h)
            \<or> (case peer_head t of None \<Rightarrow> False | Some h' \<Rightarrow> hdr_height h' < hdr_height h) \<longrightarrow>
            timers (onHeader t h) K_get_next_head = Some (CbRequestHead, HEAD_REQUEST_INTERVAL))
       \<and> (hs_remove (objectsInFlight t) (InvVector BLOCK (hdr_hash h)) \<noteq> [] \<longrightarrow>
            objectsInFlight (onHeader t h) = hs_remove (objectsInFlight t) (InvVector BLOCK (hdr_hash h))
            \<and> timers (onHeader t h) K_getData = Some (CbNoMoreData, REQUEST_TIMEOUT))"
proof -
  let ?v = "InvVector BLOCK (hdr_hash h)"
  let ?s1 = "trackHead t (hdr_hash h) h"
  let ?s2 = "onObjectReceived ?s1 ?v"
  have e: "onHeader t h
             = suspend (AfterProcessHeader h)
                 (emit (ProcessHeader (hdr_hash h) h)
                    (?s2\<lparr>objectsProcessing := hs_add (objectsProcessing ?s2) ?v\<rparr>))"
    using assms by (simp add: onHeader_def Let_def hs_contains_def)
  have p: "peer_head (onHeader t h) = peer_head ?s1"
    unfolding e by (simp add: suspend_def emit_def onObjectReceived_peer)
  have k: "timers (onHeader t h) K_get_next_head = timers ?s1 K_get_next_head"
    unfolding e by (simp add: suspend_def emit_def onObjectReceived_timers)
  note k' = trackHead_timer [of t "hdr_hash h" h]
  have m: "objectsInFlight (onHeader t h) = hs_remove (objectsInFlight t) ?v
           \<and> timers (onHeader t h) K_getData = Some (CbNoMoreData, REQUEST_TIMEOUT)"
    if "hs_remove (objectsInFlight t) ?v \<noteq> []"
  proof -
    from that have "hs_remove (objectsInFlight ?s1) ?v \<noteq> []"
      by (simp add: trackHead_frame)
    from onObjectReceived_marks [OF this] show ?thesis
      unfolding e by (simp add: suspend_def emit_def trackHead_frame)
  qed
  from p m k k' show ?thesis by (simp only: trackHead_peer) blast
qed

lemma onBlock_handles:
  assumes "InvVector BLOCK (blk_hash b) \<in> set (objectsThatFlew t)"
      and "pendingRequests t (InvVector BLOCK (blk_hash b)) = None"
  shows "peer_head (onBlock t b)
           = (if (peer_head t = None \<and> peer_headHash t = blk_hash b)
                 \<or> (case peer_head t of None \<Rightarrow> False
                     | Some h' \<Rightarrow> hdr_height h' < hdr_height (blk_header b))
              then Some (blk_header b) else peer_head t)
       \<and> ((peer_head t = None \<and> peer_headHash t = blk_hash b)
            \<or> (case peer_head t of None \<Rightarrow> False
                | Some h' \<Rightarrow> hdr_height h' < hdr_height (blk_header b)) \<longrightarrow>
            timers (onBlock t b) K_get_next_head = Some (CbRequestHead, HEAD_REQUEST_INTERVAL))
       \<and> (hs_remove (objectsInFlight t) (InvVector BLOCK (blk_hash b)) \<noteq> [] \<longrightarrow>
            objectsInFlight (onBlock t b) = hs_remove (objectsInFlight t) (InvVector BLOCK (blk_hash b))
            \<and> timers (onBlock t b) K_getData = Some (CbNoMoreData, REQUEST_TIMEOUT))"
proof -
  let ?v = "InvVector BLOCK (blk_hash b)"
  let ?s1 = "trackHead t (blk_hash b) (blk_header b)"
  let ?s2 = "onObjectReceived ?s1 ?v"
  have e: "onBlock t b
             = suspend (AfterProcessBlock b)
                 (emit (ProcessBlock (blk_hash b) b)
                    (?s2\<lparr>objectsProcessing := hs_add (objectsProcessing ?s2) ?v\<rparr>))"
    using assms by (simp add: onBlock_def Let_def hs_contains_def)
  have p: "peer_head (onBlock t b) = peer_head ?s1"
    unfolding e by (simp add: suspend_def emit_def onObjectReceived_peer)
  have k: "timers (onBlock t b) K_get_next_head = timers ?s1 K_get_next_head"
    unfolding e by (simp add: suspend_def emit_def onObjectReceived_timers)
  note k' = trackHead_timer [of t "blk_hash b" "blk_header b"]
  have m: "objectsInFlight (onBlock t b) = hs_remove (objectsInFlight t) ?v
           \<and> timers (onBlock t b) K_getData = Some (CbNoMoreData, REQUEST_TIMEOUT)"
    if "hs_remove (objectsInFlight t) ?v \<noteq> []"
  proof -
    from that have "hs_remove (objectsInFlight ?s1) ?v \<noteq> []"
      by (simp add: trackHead_frame)
    from onObjectReceived_marks [OF this] show ?thesis
      unfolding e by (simp add: suspend_def emit_def trackHead_frame)
  qed
  from p m k k' show ?thesis by (simp only: trackHead_peer) blast
qed

lemma onBlock_requested:
  assumes "pendingRequests t (InvVector BLOCK (blk_hash b)) = Some rs"
  shows "out (onBlock t b) = out t @ map (outcome (ResolvedBlock b)) rs
       \<and> pendingRequests (onBlock t b) (InvVector BLOCK (blk_hash b)) = None
       \<and> suspended (onBlock t b) = suspended t
       \<and> objectsProcessing (onBlock t b) = objectsProcessing t
       \<and> objectsInFlight (onBlock t b) = objectsInFlight t
       \<and> peer_head (onBlock t b) = peer_head t"
  using assms by (simp add: onBlock_def Let_def resolveAll_def basic_defs)

lemma onTx_resume_processing:
  "objectsProcessing (onTx_resume s tx now)
     = hs_remove (objectsProcessing s) (InvVector TRANSACTION (tx_hash tx))"
  by (simp add: onTx_resume_def Let_def resolveAll_def basic_defs onObjectProcessed_processing
      split: option.splits)

lemma onTx_resume_last:
  assumes "hs_remove (objectsProcessing s) (InvVector TRANSACTION (tx_hash tx)) = []"
  shows "last (out (onTx_resume s tx now)) = OnAllObjectsProcessed"
proof -
  obtain s1 where s1: "s1 = (case pendingRequests s (InvVector TRANSACTION (tx_hash tx)) of
                  Some txRequest \<Rightarrow>
                    resolveAll txRequest (TxObj tx)
                      (clearTimeout (K_tx_request (tx_hash tx))
                        (s\<lparr>pendingRequests :=
                             (pendingRequests s)(InvVector TRANSACTION (tx_hash tx) := None)\<rparr>))
                | None \<Rightarrow>
                    if \<not> matchesTransaction (localSubscription s) tx
                       \<and> now < (case lastSubscriptionChange s of None \<Rightarrow> 0 | Some t \<Rightarrow> t)
                               + SUBSCRIPTION_CHANGE_GRACE_PERIOD
                    then emit (ChClose TRANSACTION_NOT_MATCHING_SUBSCRIPTION) s
                    else s)"
    by blast
  have p1: "objectsProcessing s1 = objectsProcessing s"
    unfolding s1 by (simp add: resolveAll_def basic_defs split: option.splits)
  have "onTx_resume s tx now = onObjectProcessed s1 (InvVector TRANSACTION (tx_hash tx))"
    unfolding s1
    by (cases "pendingRequests s (InvVector TRANSACTION (tx_hash tx))")
       (simp_all add: onTx_resume_def Let_def)
  then show ?thesis
    using assms by (simp add: onObjectProcessed_processing p1)
qed

lemma onTx_resume_closes:
  assumes "pendingRequests s (InvVector TRANSACTION (tx_hash tx)) = None"
      and "\<not> matchesTransaction (localSubscription s) tx"
      and "now < (case lastSubscriptionChange s of None \<Rightarrow> 0 | Some c \<Rightarrow> c)
                   + SUBSCRIPTION_CHANGE_GRACE_PERIOD"
  shows "ChClose TRANSACTION_NOT_MATCHING_SUBSCRIPTION \<in> set (out (onTx_resume s tx now))"
proof -
  have g: "(\<not> matchesTransaction (localSubscription s) tx
            \<and> now < (case lastSubscriptionChange s of None \<Rightarrow> 0 | Some c \<Rightarrow> c)
                       + SUBSCRIPTION_CHANGE_GRACE_PERIOD) = True"
    using assms(2,3) by simp
  have "onTx_resume s tx now
          = onObjectProcessed (emit (ChClose TRANSACTION_NOT_MATCHING_SUBSCRIPTION) s)
              (InvVector TRANSACTION (tx_hash tx))"
    by (simp add: onTx_resume_def Let_def assms(1) g)
  then show ?thesis
    by (simp add: onObjectProcessed_processing emit_def)
qed

lemma onTx_handles:
  assumes f: "InvVector TRANSACTION (tx_hash tx) \<in> set (objectsThatFlew t)"
  shows "(hs_remove (objectsInFlight t) (InvVector TRANSACTION (tx_hash tx)) \<noteq> [] \<longrightarrow>
            objectsInFlight (onTx t tx now)
              = hs_remove (objectsInFlight t) (InvVector TRANSACTION (tx_hash tx))
            \<and> timers (onTx t tx now) K_getData = Some (CbNoMoreData, REQUEST_TIMEOUT))
       \<and> (\<not> matchesTransaction (localSubscription t) tx \<longrightarrow>
            suspended (onTx t tx now) = suspended t
            \<and> filter isHook (out (onTx t tx now)) = filter isHook (out t)
            \<and> InvVector TRANSACTION (tx_hash tx) \<notin> set (objectsProcessing (onTx t tx now))
            \<and> pendingRequests (onTx t tx now)
                = (pendingRequests t)(InvVector TRANSACTION (tx_hash tx) := None)
            \<and> (pendingRequests t (InvVector TRANSACTION (tx_hash tx)) = None
                 \<and> now < (case lastSubscriptionChange t of None \<Rightarrow> 0 | Some c \<Rightarrow> c)
                            + SUBSCRIPTION_CHANGE_GRACE_PERIOD \<longrightarrow>
                 ChClose TRANSACTION_NOT_MATCHING_SUBSCRIPTION \<in> set (out (onTx t tx now))))"
proof -
  let ?v = "InvVector TRANSACTION (tx_hash tx)"
  let ?s1 = "emit (NoteVectorReceived (fromTransaction tx)) t"
  let ?s2 = "onObjectReceived ?s1 ?v"
  let ?s3 = "?s2\<lparr>objectsProcessing := hs_add (objectsProcessing ?s2) ?v\<rparr>"
  have sol: "(\<not> hs_contains (objectsInFlight t) ?v \<and> \<not> hs_contains (objectsThatFlew t) ?v)
               = False"
    using f by (simp add: hs_contains_def)
  have l3: "localSubscription ?s3 = localSubscription t"
    by (simp add: onObjectReceived_def noMoreData_def requestData_def
        dequeueVectors_eq [OF refl refl refl] doRequestData_def Let_def basic_defs)
  have cases: "onTx t tx now
                 = (if matchesTransaction (localSubscription t) tx
                    then suspend (AfterProcessTransaction tx)
                           (emit (ProcessTransaction (tx_hash tx) tx) ?s3)
                    else onTx_resume ?s3 tx now)"
    using l3 by (simp add: onTx_def sol Let_def)
  have m: "objectsInFlight (onTx t tx now) = hs_remove (objectsInFlight t) ?v
           \<and> timers (onTx t tx now) K_getData = Some (CbNoMoreData, REQUEST_TIMEOUT)"
    if a: "hs_remove (objectsInFlight t) ?v \<noteq> []"
  proof -
    from a have "hs_remove (objectsInFlight ?s1) ?v \<noteq> []"
      by (simp add: emit_def)
    from onObjectReceived_marks [OF this]
    have m2: "objectsInFlight ?s2 = hs_remove (objectsInFlight t) ?v"
             "timers ?s2 K_getData = Some (CbNoMoreData, REQUEST_TIMEOUT)"
      by (simp_all add: emit_def)
    have m3: "objectsInFlight ?s3 = hs_remove (objectsInFlight t) ?v"
             "timers ?s3 K_getData = Some (CbNoMoreData, REQUEST_TIMEOUT)"
      using m2 by simp_all
    show ?thesis
    proof (cases "matchesTransaction (localSubscription t) tx")
      case True
      then have "onTx t tx now = suspend (AfterProcessTransaction tx)
                           (emit (ProcessTransaction (tx_hash tx) tx) ?s3)"
        by (simp only: cases if_True)
      then show ?thesis using m3 by (simp add: suspend_def emit_def)
    next
      case False
      then have e: "onTx t tx now = onTx_resume ?s3 tx now"
        by (simp only: cases if_False)
      have "objectsInFlight (onTx_resume ?s3 tx now) = objectsInFlight ?s3"
        by (rule onTx_resume_fields(2))
      moreover have "timers (onTx_resume ?s3 tx now) K_getData = timers ?s3 K_getData"
        by (rule onTx_resume_timers(1)) simp
      ultimately show ?thesis unfolding e using m3 by simp
    qed
  qed
  have c3: "lastSubscriptionChange ?s3 = lastSubscriptionChange t"
    by (simp add: onObjectReceived_def noMoreData_def requestData_def
        dequeueVectors_eq [OF refl refl refl] doRequestData_def Let_def basic_defs)
  have n: "suspended (onTx t tx now) = suspended t
            \<and> filter isHook (out (onTx t tx now)) = filter isHook (out t)
            \<and> ?v \<notin> set (objectsProcessing (onTx t tx now))
            \<and> pendingRequests (onTx t tx now) = (pendingRequests t)(?v := None)
            \<and> (pendingRequests t ?v = None
                 \<and> now < (case lastSubscriptionChange t of None \<Rightarrow> 0 | Some c \<Rightarrow> c)
                            + SUBSCRIPTION_CHANGE_GRACE_PERIOD \<longrightarrow>
                 ChClose TRANSACTION_NOT_MATCHING_SUBSCRIPTION \<in> set (out (onTx t tx now)))"
    if a: "\<not> matchesTransaction (localSubscription t) tx"
  proof -
    from a have e: "onTx t tx now = onTx_resume ?s3 tx now"
      by (simp only: cases if_False)
    have c1: "suspended (onTx_resume ?s3 tx now) = suspended t"
      by (simp add: onTx_resume_fields(4) onObjectReceived_frame emit_def)
    have c2: "filter isHook (out (onTx_resume ?s3 tx now)) = filter isHook (out t)"
      by (simp add: hook_frames emit_def)
    have c3': "?v \<notin> set (objectsProcessing (onTx_resume ?s3 tx now))"
      by (simp add: onTx_resume_processing hs_remove_def)
    have c4: "pendingRequests (onTx_resume ?s3 tx now) = (pendingRequests t)(?v := None)"
      by (simp add: onTx_resume_fields(1) onObjectReceived_frame emit_def)
    have c5: "ChClose TRANSACTION_NOT_MATCHING_SUBSCRIPTION \<in> set (out (onTx_resume ?s3 tx now))"
      if p: "pendingRequests t ?v = None"
        and g: "now < (case lastSubscriptionChange t of None \<Rightarrow> 0 | Some c \<Rightarrow> c)
                        + SUBSCRIPTION_CHANGE_GRACE_PERIOD"
    proof (rule onTx_resume_closes)
      show "pendingRequests ?s3 ?v = None"
        using p by (simp add: onObjectReceived_frame emit_def)
      show "\<not> matchesTransaction (localSubscription ?s3) tx"
        unfolding l3 by (rule a)
      show "now < (case lastSubscriptionChange ?s3 of None \<Rightarrow> 0 | Some c \<Rightarrow> c)
                    + SUBSCRIPTION_CHANGE_GRACE_PERIOD"
        unfolding c3 by (rule g)
    qed
    from c1 c2 c3' c4 c5 show ?thesis unfolding e by blast
  qed
  from m n show ?thesis by blast
qed

lemma resume_block:
  assumes "AfterProcessBlock b \<in> set (suspended u)"
  shows "objectsProcessing (resume u (AfterProcessBlock b) now)
           = hs_remove (objectsProcessing u) (InvVector BLOCK (blk_hash b))
       \<and> suspended (resume u (AfterProcessBlock b) now)
           = remove1 (AfterProcessBlock b) (suspended u)
       \<and> out (resume u (AfterProcessBlock b) now)
           = out u
             @ (if hs_remove (objectsProcessing u) (InvVector BLOCK (blk_hash b)) = []
                then [OnAllObjectsProcessed] else [])
             @ [NoteVectorReceived (InvVector BLOCK (blk_hash b))]"
  using assms
  by (simp add: resume_def onBlock_resume_def Let_def emit_def fromBlock_def
      onObjectProcessed_processing onObjectProcessed_frame)

lemma resume_header:
  assumes "AfterProcessHeader h \<in> set (suspended u)"
  shows "objectsProcessing (resume u (AfterProcessHeader h) now)
           = hs_remove (objectsProcessing u) (InvVector BLOCK (hdr_hash h))
       \<and> suspended (resume u (AfterProcessHeader h) now)
           = remove1 (AfterProcessHeader h) (suspended u)
       \<and> out (resume u (AfterProcessHeader h) now)
           = out u
             @ (if hs_remove (objectsProcessing u) (InvVector BLOCK (hdr_hash h)) = []
                then [OnAllObjectsProcessed] else [])"
  using assms
  by (simp add: resume_def onHeader_resume_def Let_def
      onObjectProcessed_processing onObjectProcessed_frame)

lemma resume_tx:
  assumes "AfterProcessTransaction tx \<in> set (suspended u)"
  shows "objectsProcessing (resume u (AfterProcessTransaction tx) now)
           = hs_remove (objectsProcessing u) (InvVector TRANSACTION (tx_hash tx))
       \<and> suspended (resume u (AfterProcessTransaction tx) now)
           = remove1 (AfterProcessTransaction tx) (suspended u)
       \<and> pendingRequests (resume u (AfterProcessTransaction tx) now)
           = (pendingRequests u)(InvVector TRANSACTION (tx_hash tx) := None)
       \<and> filter isHook (out (resume u (AfterProcessTransaction tx) now)) = filter isHook (out u)
       \<and> (hs_remove (objectsProcessing u) (InvVector TRANSACTION (tx_hash tx)) = [] \<longrightarrow>
            last (out (resume u (AfterProcessTransaction tx) now)) = OnAllObjectsProcessed)"
proof -
  let ?u1 = "u\<lparr>suspended := remove1 (AfterProcessTransaction tx) (suspended u)\<rparr>"
  have e: "resume u (AfterProcessTransaction tx) now = onTx_resume ?u1 tx now"
    using assms by (simp add: resume_def Let_def)
  have l: "last (out (onTx_resume ?u1 tx now)) = OnAllObjectsProcessed"
    if "hs_remove (objectsProcessing u) (InvVector TRANSACTION (tx_hash tx)) = []"
    by (rule onTx_resume_last) (simp add: that)
  show ?thesis
    unfolding e using l
    by (simp add: onTx_resume_processing onTx_resume_fields hook_frames)
qed

subsection \<open>Objects of vectors that have flown\<close>

text \<open>
  Claim C9 says that a block, header or tx message for a vector of objectsThatFlew
  passes the unsolicited check and is fully processed. It passes the check, but it is
  not always processed. The vector of the block 7 has flown and the block is then
  requested directly: when it arrives it is resolved to the requester and
  \<^verbatim>\<open>_processBlock\<close> is not called. The vector of the transaction 5 has flown and the
  agent has not subscribed: when the transaction arrives, \<^verbatim>\<open>_processTransaction\<close> is not
  called.
\<close>

theorem C9_flown_block_with_direct_request_counterexample:
  "InvVector BLOCK 7 \<in> set (objectsThatFlew (run agent0 flown7_requested))
   \<and> out (onBlock (run agent0 flown7_requested) block7)
       = out (run agent0 flown7_requested) @ [Resolve 0 (BlockObj block7)]
   \<and> filter isHook (out (onBlock (run agent0 flown7_requested) block7)) = []
   \<and> suspended (onBlock (run agent0 flown7_requested) block7) = []
   \<and> objectsProcessing (onBlock (run agent0 flown7_requested) block7) = []
   \<and> InvVector TRANSACTION 5 \<in> set (objectsThatFlew (run agent0 timed_out5))
   \<and> out (onTx (run agent0 timed_out5) tx5 5000)
       = out (run agent0 timed_out5)
         @ [NoteVectorReceived (InvVector TRANSACTION 5), OnAllObjectsProcessed]
   \<and> filter isHook (out (onTx (run agent0 timed_out5) tx5 5000)) = []
   \<and> suspended (onTx (run agent0 timed_out5) tx5 5000) = []"
  by (simp add: flown7_requested_def timed_out5_def timed_out7_def batch5_def eval_defs)

text \<open>
  Claim C9, amended. No event of the agent takes a vector out of
  objectsThatFlew: a vector that is there stays there through every run, and
  \<^verbatim>\<open>_noMoreData\<close> adds what is in flight. For such a vector, at any later state, a block,
  header or tx message is not logged and discarded as unsolicited. What the handler
  then does depends on the message.

  A header is used to track the peer's head (when it advances the head, the timer
  that asks for the next head is armed again), marked received (when other vectors stay
  in flight, its vector leaves objectsInFlight and the timer getData is armed again),
  put in objectsProcessing and handed to \<^verbatim>\<open>_processHeader\<close>, with the rest of the handler
  suspended. A block is treated in the same way when no direct request waits for it;
  when one does, the block is resolved to the requesters and nothing else happens: no
  hook is called, nothing is suspended, objectsProcessing, objectsInFlight and the
  peer's head stay as they are. A transaction is reported to the inv request manager
  and marked received; it is put in objectsProcessing and handed to
  \<^verbatim>\<open>_processTransaction\<close> when the local subscription matches; when it does not, no hook
  is called, nothing is suspended, a waiting direct request is settled and the vector
  is not in objectsProcessing afterwards, and the channel is closed when no direct
  request waits and \<open>now\<close> is less than SUBSCRIPTION_CHANGE_GRACE_PERIOD after the last
  subscription change.

  When a suspended handler is resumed, its vector is taken out of objectsProcessing,
  OnAllObjectsProcessed fires if that leaves the set empty, a block is then reported to
  the inv request manager, and for a transaction a waiting direct request is settled
  before.
\<close>

theorem C9_flown_objects_are_accepted:
  assumes "v \<in> set (objectsThatFlew s)" and "t = run s evs"
  shows "v \<in> set (objectsThatFlew t)
       \<and> (\<forall>ev. set (objectsThatFlew t) \<subseteq> set (objectsThatFlew (step t ev)))
       \<and> (\<forall>u. set (objectsThatFlew (noMoreData u))
                 = set (objectsThatFlew u) \<union> set (objectsInFlight u))
       \<and> (\<forall>b. v = InvVector BLOCK (blk_hash b) \<longrightarrow>
            filter isUnsolicited (out (onBlock t b)) = filter isUnsolicited (out t)
            \<and> (pendingRequests t v = None \<longrightarrow>
                 last (out (onBlock t b)) = ProcessBlock (blk_hash b) b
                 \<and> suspended (onBlock t b) = suspended t @ [AfterProcessBlock b]
                 \<and> v \<in> set (objectsProcessing (onBlock t b))
                 \<and> peer_head (onBlock t b)
                     = (if (peer_head t = None \<and> peer_headHash t = blk_hash b)
                           \<or> (case peer_head t of None \<Rightarrow> False
                               | Some h' \<Rightarrow> hdr_height h' < hdr_height (blk_header b))
                        then Some (blk_header b) else peer_head t)
                 \<and> ((peer_head t = None \<and> peer_headHash t = blk_hash b)
                      \<or> (case peer_head t of None \<Rightarrow> False
                          | Some h' \<Rightarrow> hdr_height h' < hdr_height (blk_header b)) \<longrightarrow>
                      timers (onBlock t b) K_get_next_head
                        = Some (CbRequestHead, HEAD_REQUEST_INTERVAL))
                 \<and> (hs_remove (objectsInFlight t) v \<noteq> [] \<longrightarrow>
                      objectsInFlight (onBlock t b) = hs_remove (objectsInFlight t) v
                      \<and> timers (onBlock t b) K_getData = Some (CbNoMoreData, REQUEST_TIMEOUT)))
            \<and> (\<forall>rs. pendingRequests t v = Some rs \<longrightarrow>
                 out (onBlock t b) = out t @ map (outcome (ResolvedBlock b)) rs
                 \<and> pendingRequests (onBlock t b) v = None
                 \<and> suspended (onBlock t b) = suspended t
                 \<and> objectsProcessing (onBlock t b) = objectsProcessing t
                 \<and> objectsInFlight (onBlock t b) = objectsInFlight t
                 \<and> peer_head (onBlock t b) = peer_head t))
       \<and> (\<forall>h. v = InvVector BLOCK (hdr_hash h) \<longrightarrow>
            filter isUnsolicited (out (onHeader t h)) = filter isUnsolicited (out t)
            \<and> last (out (onHeader t h)) = ProcessHeader (hdr_hash h) h
            \<and> suspended (onHeader t h) = suspended t @ [AfterProcessHeader h]
            \<and> v \<in> set (objectsProcessing (onHeader t h))
            \<and> peer_head (onHeader t h)
                = (if (peer_head t = None \<and> peer_headHash t = hdr_hash h)
                      \<or> (case peer_head t of None \<Rightarrow> False
                          | Some h' \<Rightarrow> hdr_height h' < hdr_height h)
                   then Some h else peer_head t)
            \<and> ((peer_head t = None \<and> peer_headHash t = hdr_hash h)
                 \<or> (case peer_head t of None \<Rightarrow> False
                     | Some h' \<Rightarrow> hdr_height h' < hdr_height h) \<longrightarrow>
                 timers (onHeader t h) K_get_next_head
                   = Some (CbRequestHead, HEAD_REQUEST_INTERVAL))
            \<and> (hs_remove (objectsInFlight t) v \<noteq> [] \<longrightarrow>
                 objectsInFlight (onHeader t h) = hs_remove (objectsInFlight t) v
                 \<and> timers (onHeader t h) K_getData = Some (CbNoMoreData, REQUEST_TIMEOUT)))
       \<and> (\<forall>tx now. v = InvVector TRANSACTION (tx_hash tx) \<longrightarrow>
            filter isUnsolicited (out (onTx t tx now)) = filter isUnsolicited (out t)
            \<and> NoteVectorReceived v \<in> set (out (onTx t tx now))
            \<and> (hs_remove (objectsInFlight t) v \<noteq> [] \<longrightarrow>
                 objectsInFlight (onTx t tx now) = hs_remove (objectsInFlight t) v
                 \<and> timers (onTx t tx now) K_getData = Some (CbNoMoreData, REQUEST_TIMEOUT))
            \<and> (matchesTransaction (localSubscription t) tx \<longrightarrow>
                 last (out (onTx t tx now)) = ProcessTransaction (tx_hash tx) tx
                 \<and> suspended (onTx t tx now) = suspended t @ [AfterProcessTransaction tx]
                 \<and> v \<in> set (objectsProcessing (onTx t tx now)))
            \<and> (\<not> matchesTransaction (localSubscription t) tx \<longrightarrow>
                 suspended (onTx t tx now) = suspended t
                 \<and> filter isHook (out (onTx t tx now)) = filter isHook (out t)
                 \<and> v \<notin> set (objectsProcessing (onTx t tx now))
                 \<and> pendingRequests (onTx t tx now) = (pendingRequests t)(v := None)
                 \<and> (pendingRequests t v = None
                      \<and> now < (case lastSubscriptionChange t of None \<Rightarrow> 0 | Some c \<Rightarrow> c)
                                 + SUBSCRIPTION_CHANGE_GRACE_PERIOD \<longrightarrow>
                      ChClose TRANSACTION_NOT_MATCHING_SUBSCRIPTION
                        \<in> set (out (onTx t tx now)))))
       \<and> (\<forall>u b now. AfterProcessBlock b \<in> set (suspended u) \<longrightarrow>
            objectsProcessing (resume u (AfterProcessBlock b) now)
              = hs_remove (objectsProcessing u) (InvVector BLOCK (blk_hash b))
            \<and> suspended (resume u (AfterProcessBlock b) now)
                = remove1 (AfterProcessBlock b) (suspended u)
            \<and> out (resume u (AfterProcessBlock b) now)
                = out u
                  @ (if hs_remove (objectsProcessing u) (InvVector BLOCK (blk_hash b)) = []
                     then [OnAllObjectsProcessed] else [])
                  @ [NoteVectorReceived (InvVector BLOCK (blk_hash b))])
       \<and> (\<forall>u h now. AfterProcessHeader h \<in> set (suspended u) \<longrightarrow>
            objectsProcessing (resume u (AfterProcessHeader h) now)
              = hs_remove (objectsProcessing u) (InvVector BLOCK (hdr_hash h))
            \<and> suspended (resume u (AfterProcessHeader h) now)
                = remove1 (AfterProcessHeader h) (suspended u)
            \<and> out (resume u (AfterProcessHeader h) now)
                = out u
                  @ (if hs_remove (objectsProcessing u) (InvVector BLOCK (hdr_hash h)) = []
                     then [OnAllObjectsProcessed] else []))
       \<and> (\<forall>u tx now. AfterProcessTransaction tx \<in> set (suspended u) \<longrightarrow>
            objectsProcessing (resume u (AfterProcessTransaction tx) now)
              = hs_remove (objectsProcessing u) (InvVector TRANSACTION (tx_hash tx))
            \<and> suspended (resume u (AfterProcessTransaction tx) now)
                = remove1 (AfterProcessTransaction tx) (suspended u)
            \<and> pendingRequests (resume u (AfterProcessTransaction tx) now)
                = (pendingRequests u)(InvVector TRANSACTION (tx_hash tx) := None)
            \<and> filter isHook (out (resume u (AfterProcessTransaction tx) now))
                = filter isHook (out u)
            \<and> (hs_remove (objectsProcessing u) (InvVector TRANSACTION (tx_hash tx)) = [] \<longrightarrow>
                 last (out (resume u (AfterProcessTransaction tx) now)) = OnAllObjectsProcessed))"
proof (rule conjI [OF _ conjI [OF _ conjI [OF _ conjI [OF _ conjI [OF _ conjI [OF _ conjI
         [OF _ conjI]]]]]]])
  show vt: "v \<in> set (objectsThatFlew t)"
    using assms run_flew [of s evs] by blast
  show "\<forall>ev. set (objectsThatFlew t) \<subseteq> set (objectsThatFlew (step t ev))"
    by (intro allI) (rule step_flew)
  show "\<forall>u. set (objectsThatFlew (noMoreData u))
                 = set (objectsThatFlew u) \<union> set (objectsInFlight u)"
    by (simp add: noMoreData_frame hs_addAll_set)
  show "\<forall>b. v = InvVector BLOCK (blk_hash b) \<longrightarrow>
            filter isUnsolicited (out (onBlock t b)) = filter isUnsolicited (out t)
            \<and> (pendingRequests t v = None \<longrightarrow>
                 last (out (onBlock t b)) = ProcessBlock (blk_hash b) b
                 \<and> suspended (onBlock t b) = suspended t @ [AfterProcessBlock b]
                 \<and> v \<in> set (objectsProcessing (onBlock t b))
                 \<and> peer_head (onBlock t b)
                     = (if (peer_head t = None \<and> peer_headHash t = blk_hash b)
                           \<or> (case peer_head t of None \<Rightarrow> False
                               | Some h' \<Rightarrow> hdr_height h' < hdr_height (blk_header b))
                        then Some (blk_header b) else peer_head t)
                 \<and> ((peer_head t = None \<and> peer_headHash t = blk_hash b)
                      \<or> (case peer_head t of None \<Rightarrow> False
                          | Some h' \<Rightarrow> hdr_height h' < hdr_height (blk_header b)) \<longrightarrow>
                      timers (onBlock t b) K_get_next_head
                        = Some (CbRequestHead, HEAD_REQUEST_INTERVAL))
                 \<and> (hs_remove (objectsInFlight t) v \<noteq> [] \<longrightarrow>
                      objectsInFlight (onBlock t b) = hs_remove (objectsInFlight t) v
                      \<and> timers (onBlock t b) K_getData = Some (CbNoMoreData, REQUEST_TIMEOUT)))
            \<and> (\<forall>rs. pendingRequests t v = Some rs \<longrightarrow>
                 out (onBlock t b) = out t @ map (outcome (ResolvedBlock b)) rs
                 \<and> pendingRequests (onBlock t b) v = None
                 \<and> suspended (onBlock t b) = suspended t
                 \<and> objectsProcessing (onBlock t b) = objectsProcessing t
                 \<and> objectsInFlight (onBlock t b) = objectsInFlight t
                 \<and> peer_head (onBlock t b) = peer_head t)"
  proof (intro allI impI)
    fix b :: Block
    assume e: "v = InvVector BLOCK (blk_hash b)"
    from vt have f: "InvVector BLOCK (blk_hash b) \<in> set (objectsThatFlew t)"
      unfolding e .
    note a = onBlock_accepts [OF f]
    note h = onBlock_handles [OF f]
    note r = onBlock_requested [of t b]
    from a h r
    show "filter isUnsolicited (out (onBlock t b)) = filter isUnsolicited (out t)
            \<and> (pendingRequests t v = None \<longrightarrow>
                 last (out (onBlock t b)) = ProcessBlock (blk_hash b) b
                 \<and> suspended (onBlock t b) = suspended t @ [AfterProcessBlock b]
                 \<and> v \<in> set (objectsProcessing (onBlock t b))
                 \<and> peer_head (onBlock t b)
                     = (if (peer_head t = None \<and> peer_headHash t = blk_hash b)
                           \<or> (case peer_head t of None \<Rightarrow> False
                               | Some h' \<Rightarrow> hdr_height h' < hdr_height (blk_header b))
                        then Some (blk_header b) else peer_head t)
                 \<and> ((peer_head t = None \<and> peer_headHash t = blk_hash b)
                      \<or> (case peer_head t of None \<Rightarrow> False
                          | Some h' \<Rightarrow> hdr_height h' < hdr_height (blk_header b)) \<longrightarrow>
                      timers (onBlock t b) K_get_next_head
                        = Some (CbRequestHead, HEAD_REQUEST_INTERVAL))
                 \<and> (hs_remove (objectsInFlight t) v \<noteq> [] \<longrightarrow>
                      objectsInFlight (onBlock t b) = hs_remove (objectsInFlight t) v
                      \<and> timers (onBlock t b) K_getData = Some (CbNoMoreData, REQUEST_TIMEOUT)))
            \<and> (\<forall>rs. pendingRequests t v = Some rs \<longrightarrow>
                 out (onBlock t b) = out t @ map (outcome (ResolvedBlock b)) rs
                 \<and> pendingRequests (onBlock t b) v = None
                 \<and> suspended (onBlock t b) = suspended t
                 \<and> objectsProcessing (onBlock t b) = objectsProcessing t
                 \<and> objectsInFlight (onBlock t b) = objectsInFlight t
                 \<and> peer_head (onBlock t b) = peer_head t)"
      unfolding e by blast
  qed
  show "\<forall>h. v = InvVector BLOCK (hdr_hash h) \<longrightarrow>
            filter isUnsolicited (out (onHeader t h)) = filter isUnsolicited (out t)
            \<and> last (out (onHeader t h)) = ProcessHeader (hdr_hash h) h
            \<and> suspended (onHeader t h) = suspended t @ [AfterProcessHeader h]
            \<and> v \<in> set (objectsProcessing (onHeader t h))
            \<and> peer_head (onHeader t h)
                = (if (peer_head t = None \<and> peer_headHash t = hdr_hash h)
                      \<or> (case peer_head t of None \<Rightarrow> False
                          | Some h' \<Rightarrow> hdr_height h' < hdr_height h)
                   then Some h else peer_head t)
            \<and> ((peer_head t = None \<and> peer_headHash t = hdr_hash h)
                 \<or> (case peer_head t of None \<Rightarrow> False
                     | Some h' \<Rightarrow> hdr_height h' < hdr_height h) \<longrightarrow>
                 timers (onHeader t h) K_get_next_head
                   = Some (CbRequestHead, HEAD_REQUEST_INTERVAL))
            \<and> (hs_remove (objectsInFlight t) v \<noteq> [] \<longrightarrow>
                 objectsInFlight (onHeader t h) = hs_remove (objectsInFlight t) v
                 \<and> timers (onHeader t h) K_getData = Some (CbNoMoreData, REQUEST_TIMEOUT))"
  proof (intro allI impI)
    fix h :: BlockHeader
    assume e: "v = InvVector BLOCK (hdr_hash h)"
    from vt have f: "InvVector BLOCK (hdr_hash h) \<in> set (objectsThatFlew t)"
      unfolding e .
    from onHeader_accepts [OF f] onHeader_handles [OF f]
    show "filter isUnsolicited (out (onHeader t h)) = filter isUnsolicited (out t)
            \<and> last (out (onHeader t h)) = ProcessHeader (hdr_hash h) h
            \<and> suspended (onHeader t h) = suspended t @ [AfterProcessHeader h]
            \<and> v \<in> set (objectsProcessing (onHeader t h))
            \<and> peer_head (onHeader t h)
                = (if (peer_head t = None \<and> peer_headHash t = hdr_hash h)
                      \<or> (case peer_head t of None \<Rightarrow> False
                          | Some h' \<Rightarrow> hdr_height h' < hdr_height h)
                   then Some h else peer_head t)
            \<and> ((peer_head t = None \<and> peer_headHash t = hdr_hash h)
                 \<or> (case peer_head t of None \<Rightarrow> False
                     | Some h' \<Rightarrow> hdr_height h' < hdr_height h) \<longrightarrow>
                 timers (onHeader t h) K_get_next_head
                   = Some (CbRequestHead, HEAD_REQUEST_INTERVAL))
            \<and> (hs_remove (objectsInFlight t) v \<noteq> [] \<longrightarrow>
                 objectsInFlight (onHeader t h) = hs_remove (objectsInFlight t) v
                 \<and> timers (onHeader t h) K_getData = Some (CbNoMoreData, REQUEST_TIMEOUT))"
      unfolding e by blast
  qed
  show "\<forall>tx now. v = InvVector TRANSACTION (tx_hash tx) \<longrightarrow>
            filter isUnsolicited (out (onTx t tx now)) = filter isUnsolicited (out t)
            \<and> NoteVectorReceived v \<in> set (out (onTx t tx now))
            \<and> (hs_remove (objectsInFlight t) v \<noteq> [] \<longrightarrow>
                 objectsInFlight (onTx t tx now) = hs_remove (objectsInFlight t) v
                 \<and> timers (onTx t tx now) K_getData = Some (CbNoMoreData, REQUEST_TIMEOUT))
            \<and> (matchesTransaction (localSubscription t) tx \<longrightarrow>
                 last (out (onTx t tx now)) = ProcessTransaction (tx_hash tx) tx
                 \<and> suspended (onTx t tx now) = suspended t @ [AfterProcessTransaction tx]
                 \<and> v \<in> set (objectsProcessing (onTx t tx now)))
            \<and> (\<not> matchesTransaction (localSubscription t) tx \<longrightarrow>
                 suspended (onTx t tx now) = suspended t
                 \<and> filter isHook (out (onTx t tx now)) = filter isHook (out t)
                 \<and> v \<notin> set (objectsProcessing (onTx t tx now))
                 \<and> pendingRequests (onTx t tx now) = (pendingRequests t)(v := None)
                 \<and> (pendingRequests t v = None
                      \<and> now < (case lastSubscriptionChange t of None \<Rightarrow> 0 | Some c \<Rightarrow> c)
                                 + SUBSCRIPTION_CHANGE_GRACE_PERIOD \<longrightarrow>
                      ChClose TRANSACTION_NOT_MATCHING_SUBSCRIPTION
                        \<in> set (out (onTx t tx now))))"
  proof (intro allI impI)
    fix tx :: Transaction and now
    assume e: "v = InvVector TRANSACTION (tx_hash tx)"
    from vt have f: "InvVector TRANSACTION (tx_hash tx) \<in> set (objectsThatFlew t)"
      unfolding e .
    from onTx_accepts [OF f, of now] onTx_handles [OF f, of now]
    show "filter isUnsolicited (out (onTx t tx now)) = filter isUnsolicited (out t)
            \<and> NoteVectorReceived v \<in> set (out (onTx t tx now))
            \<and> (hs_remove (objectsInFlight t) v \<noteq> [] \<longrightarrow>
                 objectsInFlight (onTx t tx now) = hs_remove (objectsInFlight t) v
                 \<and> timers (onTx t tx now) K_getData = Some (CbNoMoreData, REQUEST_TIMEOUT))
            \<and> (matchesTransaction (localSubscription t) tx \<longrightarrow>
                 last (out (onTx t tx now)) = ProcessTransaction (tx_hash tx) tx
                 \<and> suspended (onTx t tx now) = suspended t @ [AfterProcessTransaction tx]
                 \<and> v \<in> set (objectsProcessing (onTx t tx now)))
            \<and> (\<not> matchesTransaction (localSubscription t) tx \<longrightarrow>
                 suspended (onTx t tx now) = suspended t
                 \<and> filter isHook (out (onTx t tx now)) = filter isHook (out t)
                 \<and> v \<notin> set (objectsProcessing (onTx t tx now))
                 \<and> pendingRequests (onTx t tx now) = (pendingRequests t)(v := None)
                 \<and> (pendingRequests t v = None
                      \<and> now < (case lastSubscriptionChange t of None \<Rightarrow> 0 | Some c \<Rightarrow> c)
                                 + SUBSCRIPTION_CHANGE_GRACE_PERIOD \<longrightarrow>
                      ChClose TRANSACTION_NOT_MATCHING_SUBSCRIPTION
                        \<in> set (out (onTx t tx now))))"
      unfolding e by blast
  qed
  show "\<forall>u b now. AfterProcessBlock b \<in> set (suspended u) \<longrightarrow>
            objectsProcessing (resume u (AfterProcessBlock b) now)
              = hs_remove (objectsProcessing u) (InvVector BLOCK (blk_hash b))
            \<and> suspended (resume u (AfterProcessBlock b) now)
                = remove1 (AfterProcessBlock b) (suspended u)
            \<and> out (resume u (AfterProcessBlock b) now)
                = out u
                  @ (if hs_remove (objectsProcessing u) (InvVector BLOCK (blk_hash b)) = []
                     then [OnAllObjectsProcessed] else [])
                  @ [NoteVectorReceived (InvVector BLOCK (blk_hash b))]"
    by (intro allI impI) (rule resume_block)
  show "\<forall>u h now. AfterProcessHeader h \<in> set (suspended u) \<longrightarrow>
            objectsProcessing (resume u (AfterProcessHeader h) now)
              = hs_remove (objectsProcessing u) (InvVector BLOCK (hdr_hash h))
            \<and> suspended (resume u (AfterProcessHeader h) now)
                = remove1 (AfterProcessHeader h) (suspended u)
            \<and> out (resume u (AfterProcessHeader h) now)
                = out u
                  @ (if hs_remove (objectsProcessing u) (InvVector BLOCK (hdr_hash h)) = []
                     then [OnAllObjectsProcessed] else [])"
    by (intro allI impI) (rule resume_header)
  show "\<forall>u tx now. AfterProcessTransaction tx \<in> set (suspended u) \<longrightarrow>
            objectsProcessing (resume u (AfterProcessTransaction tx) now)
              = hs_remove (objectsProcessing u) (InvVector TRANSACTION (tx_hash tx))
            \<and> suspended (resume u (AfterProcessTransaction tx) now)
                = remove1 (AfterProcessTransaction tx) (suspended u)
            \<and> pendingRequests (resume u (AfterProcessTransaction tx) now)
                = (pendingRequests u)(InvVector TRANSACTION (tx_hash tx) := None)
            \<and> filter isHook (out (resume u (AfterProcessTransaction tx) now))
                = filter isHook (out u)
            \<and> (hs_remove (objectsProcessing u) (InvVector TRANSACTION (tx_hash tx)) = [] \<longrightarrow>
                 last (out (resume u (AfterProcessTransaction tx) now)) = OnAllObjectsProcessed)"
    by (intro allI impI) (rule resume_tx)
qed

theorem C9_flown_objects_are_accepted_witness:
  "objectsThatFlew (run agent0 timed_out7) = [InvVector BLOCK 7]
   \<and> objectsThatFlew
        (run (run agent0 timed_out7) [EvOnBlock block7, EvResume (AfterProcessBlock block7) 0])
       = [InvVector BLOCK 7]
   \<and> out (onBlock
        (run (run agent0 timed_out7) [EvOnBlock block7, EvResume (AfterProcessBlock block7) 0])
        block7)
       = [ChGetHead, ChGetData [InvVector BLOCK 7], NoteVectorNotReceived (InvVector BLOCK 7),
          OnAllObjectsReceived, ProcessBlock 7 block7, OnAllObjectsProcessed,
          NoteVectorReceived (InvVector BLOCK 7), ProcessBlock 7 block7]"
proof -
  have f: "InvVector BLOCK 7 \<in> set (objectsThatFlew (run agent0 timed_out7))"
    by (simp add: timed_out7_def eval_defs)
  note C9_flown_objects_are_accepted [OF f refl, of "[EvOnBlock block7, EvResume (AfterProcessBlock block7) 0]",
      THEN conjunct1]
  then show ?thesis
    by (simp add: timed_out7_def eval_defs)
qed

end
